(* ===== verification/Udaf_Prelude.thy ===== *)
theory Udaf_Prelude
  imports Main "HOL-Library.Word" "HOL-Library.AList"
begin

text \<open>
  What every component of the model shares: the names of the machine types, the byte
  codecs (a \<open>memcpy\<close> of an integer on a little-endian host, and the explicit
  big-endian writers), the two array primitives \<open>slice\<close> (read a range) and
  \<open>splice\<close> (overwrite a range), the shape of a hash map as an association list with
  distinct keys, and the theorem collections the component theories fill.
\<close>

unbundle bit_operations_syntax

named_theorems codec_simps \<open>lengths and inverses of the byte codecs\<close>
named_theorems kv_simps \<open>lookup, size and distinctness of the association-list maps\<close>
named_theorems frame_simps \<open>which field of a state an operation leaves alone\<close>

type_synonym byte = "8 word"
type_synonym u16 = "16 word"
type_synonym u32 = "32 word"
type_synonym u64 = "64 word"
type_synonym bytes = "byte list"
type_synonym ('k, 'v) kv = "('k \<times> 'v) list"

section \<open>Conversion to a signed number\<close>

text \<open>\<open>static_cast<int>\<close>: the low 32 bits, read as two's complement.\<close>

definition c_int :: "int \<Rightarrow> int" where
  "c_int k = sint (of_int k :: 32 word)"

lemma c_int_signed_take_bit: "c_int k = signed_take_bit 31 k"
  unfolding c_int_def by transfer simp

lemma c_int_id [simp]: "\<lbrakk>- (2 ^ 31) \<le> k; k < 2 ^ 31\<rbrakk> \<Longrightarrow> c_int k = k"
  unfolding c_int_signed_take_bit by (rule signed_take_bit_int_eq_self)

lemma c_int_range: "- (2 ^ 31) \<le> c_int k" "c_int k < 2 ^ 31"
  unfolding c_int_signed_take_bit
  by (simp_all only: signed_take_bit_int_greater_eq_minus_exp signed_take_bit_int_less_exp)

text \<open>A multiple of \<open>2 ^ 32\<close> is lost.\<close>

lemma c_int_wraps: "c_int (2 ^ 32 * m + k) = c_int k"
proof -
  have "(of_int (2 ^ 32 * m + k) :: 32 word) = of_int (take_bit 32 (2 ^ 32 * m + k))" by (transfer) simp
  also have "take_bit 32 (2 ^ 32 * m + k) = take_bit 32 k" unfolding take_bit_eq_mod by (rule mod_mult_self4)
  also have "(of_int (take_bit 32 k) :: 32 word) = of_int k" by transfer simp
  finally show ?thesis by (simp add: c_int_def)
qed

section \<open>Numbers as bytes\<close>

primrec le_bytes :: "nat \<Rightarrow> nat \<Rightarrow> bytes" where
  "le_bytes 0 n = []"
| "le_bytes (Suc k) n = of_nat n # le_bytes k (n div 256)"

primrec le_val :: "bytes \<Rightarrow> nat" where
  "le_val [] = 0"
| "le_val (b # bs) = unat b + 256 * le_val bs"

lemma length_le_bytes [simp, codec_simps]: "length (le_bytes k n) = k"
  by (induction k arbitrary: n) simp_all

lemma le_bytes_numeral [simp]:
  "le_bytes (numeral k) n = of_nat n # le_bytes (pred_numeral k) (n div 256)"
  by (subst numeral_eq_Suc) (rule le_bytes.simps(2))

lemma le_val_le_bytes [codec_simps]: "le_val (le_bytes k n) = n mod 256 ^ k"
  by (induction k arbitrary: n) (simp_all add: unat_of_nat mod_mult2_eq)

lemma le_val_bound: "le_val bs < 256 ^ length bs"
proof (induction bs)
  case (Cons b bs)
  have "unat b < 256" using unsigned_less [of b, where ?'a = nat] by simp
  with Cons show ?case by simp
qed simp

lemma le_bytes_le_val: "le_bytes (length bs) (le_val bs) = bs"
proof (induction bs)
  case (Cons b bs)
  have b: "unat b < 256" using unsigned_less [of b, where ?'a = nat] by simp
  then have "(unat b + 256 * le_val bs) div 256 = le_val bs" by simp
  moreover have "(of_nat (unat b + 256 * le_val bs) :: byte) = b"
    unfolding word_unat_eq_iff unat_of_nat using b by simp
  ultimately show ?case using Cons by simp
qed simp

text \<open>A little-endian integer of \<open>k\<close> bytes, as \<open>std::memcpy\<close> stores and reads it.\<close>

definition put_le :: "nat \<Rightarrow> 'a::len word \<Rightarrow> bytes" where
  "put_le k w = le_bytes k (unat w)"

definition get_le :: "bytes \<Rightarrow> 'a::len word" where
  "get_le bs = of_nat (le_val bs)"

lemma length_put_le [simp, codec_simps]: "length (put_le k w) = k"
  by (simp add: put_le_def)

lemma get_put_le:
  fixes w :: "'a::len word"
  assumes "8 * k = LENGTH('a)"
  shows "get_le (put_le k w) = w"
proof -
  have "unat w < 2 ^ LENGTH('a)" by (rule unsigned_less)
  moreover have "(256::nat) ^ k = 2 ^ LENGTH('a)"
    by (simp add: assms [symmetric] power_mult)
  ultimately show ?thesis
    by (simp add: put_le_def get_le_def le_val_le_bytes)
qed

lemma get_put_le32 [simp, codec_simps]: "get_le (put_le 4 (w :: u32)) = w"
  by (rule get_put_le) simp

lemma get_put_le64 [simp, codec_simps]: "get_le (put_le 8 (w :: u64)) = w"
  by (rule get_put_le) simp

lemma get_put_le8 [simp, codec_simps]: "get_le (put_le (Suc 0) (w :: byte)) = w"
  by (rule get_put_le) simp

lemma put_get_le:
  assumes "8 * length bs = LENGTH('a::len)"
  shows "put_le (length bs) (get_le bs :: 'a word) = bs"
proof -
  have "(256::nat) ^ length bs = 2 ^ LENGTH('a)"
    by (simp add: assms [symmetric] power_mult)
  then have "le_val bs < 2 ^ LENGTH('a)" using le_val_bound [of bs] by simp
  then have "unat (of_nat (le_val bs) :: 'a word) = le_val bs"
    by (simp add: unat_of_nat)
  then show ?thesis by (simp add: put_le_def get_le_def le_bytes_le_val)
qed

section \<open>Array ranges\<close>

definition slice :: "nat \<Rightarrow> nat \<Rightarrow> 'a list \<Rightarrow> 'a list" where
  "slice i n xs = take n (drop i xs)"

definition splice :: "nat \<Rightarrow> 'a list \<Rightarrow> 'a list \<Rightarrow> 'a list" where
  "splice i ys xs = take i xs @ ys @ drop (i + length ys) xs"

lemma length_slice [simp]: "length (slice i n xs) = min n (length xs - i)"
  by (simp add: slice_def)

lemma slice_0 [simp]: "slice i 0 xs = []"
  by (simp add: slice_def)

lemma slice_append_left: "length xs = i \<Longrightarrow> slice i n (xs @ ys) = take n ys"
  by (simp add: slice_def)

lemma slice_append3:
  "length xs = i \<Longrightarrow> length ys = n \<Longrightarrow> slice i n (xs @ ys @ zs) = ys"
  by (simp add: slice_def)

lemma slice_whole: "slice 0 (length xs) xs = xs"
  by (simp add: slice_def)

lemma length_splice [simp]:
  "i + length ys \<le> length xs \<Longrightarrow> length (splice i ys xs) = length xs"
  by (simp add: splice_def)

lemma nth_splice:
  assumes "i + length ys \<le> length xs" "k < length xs"
  shows "splice i ys xs ! k = (if i \<le> k \<and> k < i + length ys then ys ! (k - i) else xs ! k)"
  using assms by (auto simp: splice_def nth_append)

lemma nth_slice: "i + n \<le> length xs \<Longrightarrow> k < n \<Longrightarrow> slice i n xs ! k = xs ! (i + k)"
  by (simp add: slice_def)

lemma slice_eqI:
  assumes "length ys = n" "i + n \<le> length xs" "\<And>k. k < n \<Longrightarrow> xs ! (i + k) = ys ! k"
  shows "slice i n xs = ys"
  by (rule nth_equalityI) (use assms in \<open>auto simp: nth_slice\<close>)

section \<open>Hash maps as association lists\<close>

text \<open>
  A \<open>std::unordered_map\<close> is an association list whose keys are distinct. The list
  order is the iteration order, which the standard leaves open: nothing that the
  component theories prove about a map depends on it.
\<close>

abbreviation kv_ok :: "('k, 'v) kv \<Rightarrow> bool" where
  "kv_ok m \<equiv> distinct (map fst m)"

abbreviation kv_get :: "('k, 'v) kv \<Rightarrow> 'k \<Rightarrow> 'v option" where
  "kv_get m k \<equiv> map_of m k"

abbreviation kv_put :: "'k \<Rightarrow> 'v \<Rightarrow> ('k, 'v) kv \<Rightarrow> ('k, 'v) kv" where
  "kv_put k v m \<equiv> AList.update k v m"

abbreviation kv_del :: "'k \<Rightarrow> ('k, 'v) kv \<Rightarrow> ('k, 'v) kv" where
  "kv_del k m \<equiv> AList.delete k m"

lemma kv_get_put [simp, kv_simps]:
  "kv_get (kv_put k v m) k' = (if k' = k then Some v else kv_get m k')"
  by (simp add: update_conv)

lemma kv_get_del [simp, kv_simps]:
  "kv_get (kv_del k m) k' = (if k' = k then None else kv_get m k')"
  by (simp add: delete_conv)

lemma kv_ok_put [simp, kv_simps]: "kv_ok m \<Longrightarrow> kv_ok (kv_put k v m)"
  by (rule distinct_update)

lemma kv_ok_del [simp, kv_simps]: "kv_ok m \<Longrightarrow> kv_ok (kv_del k m)"
  by (simp add: distinct_delete)

lemma length_kv_put [kv_simps]:
  "length (kv_put k v m) = (if kv_get m k = None then Suc (length m) else length m)"
  by (induction m) auto

lemma length_kv_del [kv_simps]:
  "kv_ok m \<Longrightarrow> length (kv_del k m) = (if kv_get m k = None then length m else length m - 1)"
proof (induction m)
  case (Cons p m)
  show ?case
  proof (cases "fst p = k")
    case True
    with Cons.prems have "k \<notin> fst ` set m" by auto
    then have "kv_del k m = m" by (simp add: delete_id)
    with True show ?thesis by (cases p) simp
  next
    case False
    with Cons have *: "length (kv_del k m) = (if kv_get m k = None then length m else length m - 1)"
      by simp
    have "kv_get m k \<noteq> None \<Longrightarrow> m \<noteq> []" by auto
    with False * show ?thesis by (cases p) (auto simp: Suc_pred)
  qed
qed simp

lemma kv_card: "kv_ok m \<Longrightarrow> length m = card (dom (map_of m))"
  by (metis dom_map_of_conv_image_fst distinct_card length_map list.set_map)

lemma kv_set_iff: "kv_ok m \<Longrightarrow> (k, v) \<in> set m \<longleftrightarrow> kv_get m k = Some v"
  by simp

end
