(* ===== verification/Error_Code.thy ===== *)
theory Error_Code
  imports Udaf_Prelude
begin

text \<open>
  \<open>src/core/error_code.hpp\<close> and \<open>error_code.cpp\<close>: the 16-bit error code enumeration,
  its numeric values, and the functions that turn a code into an integer, a text, a
  class prefix and a class name. The constructors carry the enumerators' names with the
  prefix \<open>EC_\<close>. Isabelle keeps the enumeration closed, as every \<open>ErrorCode\<close> that the
  program builds is one of the enumerators; \<open>to_string_code\<close>'s fall-through text for
  an out-of-range value is therefore not reachable here.
\<close>

section \<open>The enumeration and its values\<close>

datatype (plugins only: code) ErrorCode =
    EC_OK
  | EC_PROTOCOL_INVALID_MAGIC
  | EC_PROTOCOL_VERSION_MISMATCH
  | EC_PROTOCOL_INVALID_MSG_TYPE
  | EC_PROTOCOL_PAYLOAD_TOO_LARGE
  | EC_PROTOCOL_CHECKSUM_MISMATCH
  | EC_PROTOCOL_PROTOCOL_REJECTED
  | EC_PROTOCOL_TRUNCATED_BUFFER
  | EC_NET_TIMEOUT
  | EC_NET_HOST_UNREACHABLE
  | EC_NET_CONNECTION_REFUSED
  | EC_NET_SOCKET_CLOSED
  | EC_NET_BROADCAST_FAILED
  | EC_NET_PARTITION_DETECTED
  | EC_NET_RATE_LIMITED
  | EC_NET_SEND_FAILED
  | EC_NET_NOT_CONNECTED
  | EC_CRYPTO_HMAC_MISMATCH
  | EC_CRYPTO_TLS_HANDSHAKE_FAILED
  | EC_CRYPTO_PSK_MISMATCH
  | EC_CRYPTO_CERT_EXPIRED
  | EC_CRYPTO_CERT_UNTRUSTED
  | EC_CRYPTO_CERT_CHAIN_INVALID
  | EC_CRYPTO_CA_UNREACHABLE
  | EC_CRYPTO_CRL_CHECK_FAILED
  | EC_CRYPTO_CERT_REVOKED
  | EC_CRYPTO_HANDSHAKE_FAILED
  | EC_CRYPTO_NONCE_REUSED
  | EC_CRYPTO_DOWNGRADE_REJECTED
  | EC_BIZ_CMD_EXEC_FAILED
  | EC_BIZ_FILE_NOT_FOUND
  | EC_BIZ_FILE_PERMISSION_DENIED
  | EC_BIZ_SHELL_METACHAR_REJECTED
  | EC_BIZ_SERVICE_NOT_FOUND
  | EC_BIZ_NODE_NOT_REGISTERED
  | EC_BIZ_PROTOCOL_VERSION_TOO_OLD
  | EC_BIZ_AUTH_UNTRUSTED
  | EC_RES_MEMORY_EXHAUSTED
  | EC_RES_CPU_OVERLOAD
  | EC_RES_DISK_FULL
  | EC_RES_FD_EXHAUSTED
  | EC_RES_MUTEX_TIMEOUT
  | EC_SERIALIZE_ENCODE_FAILED
  | EC_SERIALIZE_DECODE_FAILED
  | EC_SERIALIZE_VERSION_MISMATCH
  | EC_SERIALIZE_TYPE_MISMATCH
  | EC_CONFIG_PARSE_FAILED
  | EC_CONFIG_INVALID_VALUE
  | EC_CONFIG_MISSING_REQUIRED
  | EC_TOPOLOGY_INVALID
  | EC_TOPOLOGY_CYCLE_DETECTED
  | EC_TOPOLOGY_TRANSACTION_ALREADY_DONE
  | EC_DISCOVERY_NO_PEERS
  | EC_DISCOVERY_SUBSCRIPTION_FULL
  | EC_NODE_INIT_FAILED
  | EC_NODE_ALREADY_EXISTS
  | EC_NODE_NOT_FOUND
  | EC_RESOURCE_BUSY
  | EC_NOT_IMPLEMENTED
  | EC_INTERNAL
  | EC_INVALID_ARG
  | EC_UNKNOWN

primrec code_of :: "ErrorCode \<Rightarrow> u16" where
  "code_of EC_OK = 0x0"
| "code_of EC_PROTOCOL_INVALID_MAGIC = 0x1001"
| "code_of EC_PROTOCOL_VERSION_MISMATCH = 0x1002"
| "code_of EC_PROTOCOL_INVALID_MSG_TYPE = 0x1003"
| "code_of EC_PROTOCOL_PAYLOAD_TOO_LARGE = 0x1004"
| "code_of EC_PROTOCOL_CHECKSUM_MISMATCH = 0x1005"
| "code_of EC_PROTOCOL_PROTOCOL_REJECTED = 0x1006"
| "code_of EC_PROTOCOL_TRUNCATED_BUFFER = 0x1007"
| "code_of EC_NET_TIMEOUT = 0x2001"
| "code_of EC_NET_HOST_UNREACHABLE = 0x2002"
| "code_of EC_NET_CONNECTION_REFUSED = 0x2003"
| "code_of EC_NET_SOCKET_CLOSED = 0x2004"
| "code_of EC_NET_BROADCAST_FAILED = 0x2005"
| "code_of EC_NET_PARTITION_DETECTED = 0x2006"
| "code_of EC_NET_RATE_LIMITED = 0x2007"
| "code_of EC_NET_SEND_FAILED = 0x2008"
| "code_of EC_NET_NOT_CONNECTED = 0x2009"
| "code_of EC_CRYPTO_HMAC_MISMATCH = 0x3001"
| "code_of EC_CRYPTO_TLS_HANDSHAKE_FAILED = 0x3002"
| "code_of EC_CRYPTO_PSK_MISMATCH = 0x3003"
| "code_of EC_CRYPTO_CERT_EXPIRED = 0x3004"
| "code_of EC_CRYPTO_CERT_UNTRUSTED = 0x3005"
| "code_of EC_CRYPTO_CERT_CHAIN_INVALID = 0x3006"
| "code_of EC_CRYPTO_CA_UNREACHABLE = 0x3007"
| "code_of EC_CRYPTO_CRL_CHECK_FAILED = 0x3008"
| "code_of EC_CRYPTO_CERT_REVOKED = 0x3009"
| "code_of EC_CRYPTO_HANDSHAKE_FAILED = 0x300A"
| "code_of EC_CRYPTO_NONCE_REUSED = 0x300B"
| "code_of EC_CRYPTO_DOWNGRADE_REJECTED = 0x300C"
| "code_of EC_BIZ_CMD_EXEC_FAILED = 0x4001"
| "code_of EC_BIZ_FILE_NOT_FOUND = 0x4002"
| "code_of EC_BIZ_FILE_PERMISSION_DENIED = 0x4003"
| "code_of EC_BIZ_SHELL_METACHAR_REJECTED = 0x4004"
| "code_of EC_BIZ_SERVICE_NOT_FOUND = 0x4005"
| "code_of EC_BIZ_NODE_NOT_REGISTERED = 0x4006"
| "code_of EC_BIZ_PROTOCOL_VERSION_TOO_OLD = 0x4007"
| "code_of EC_BIZ_AUTH_UNTRUSTED = 0x4008"
| "code_of EC_RES_MEMORY_EXHAUSTED = 0x5001"
| "code_of EC_RES_CPU_OVERLOAD = 0x5002"
| "code_of EC_RES_DISK_FULL = 0x5003"
| "code_of EC_RES_FD_EXHAUSTED = 0x5004"
| "code_of EC_RES_MUTEX_TIMEOUT = 0x5005"
| "code_of EC_SERIALIZE_ENCODE_FAILED = 0x6001"
| "code_of EC_SERIALIZE_DECODE_FAILED = 0x6002"
| "code_of EC_SERIALIZE_VERSION_MISMATCH = 0x6003"
| "code_of EC_SERIALIZE_TYPE_MISMATCH = 0x6004"
| "code_of EC_CONFIG_PARSE_FAILED = 0x7001"
| "code_of EC_CONFIG_INVALID_VALUE = 0x7002"
| "code_of EC_CONFIG_MISSING_REQUIRED = 0x7003"
| "code_of EC_TOPOLOGY_INVALID = 0x8001"
| "code_of EC_TOPOLOGY_CYCLE_DETECTED = 0x8002"
| "code_of EC_TOPOLOGY_TRANSACTION_ALREADY_DONE = 0x8003"
| "code_of EC_DISCOVERY_NO_PEERS = 0x8004"
| "code_of EC_DISCOVERY_SUBSCRIPTION_FULL = 0x8005"
| "code_of EC_NODE_INIT_FAILED = 0x9001"
| "code_of EC_NODE_ALREADY_EXISTS = 0x9002"
| "code_of EC_NODE_NOT_FOUND = 0x9003"
| "code_of EC_RESOURCE_BUSY = 0xFFFB"
| "code_of EC_NOT_IMPLEMENTED = 0xFFFC"
| "code_of EC_INTERNAL = 0xFFFD"
| "code_of EC_INVALID_ARG = 0xFFFE"
| "code_of EC_UNKNOWN = 0xFFFF"

definition all_codes :: "ErrorCode list" where
  "all_codes = [
     EC_OK, EC_PROTOCOL_INVALID_MAGIC, EC_PROTOCOL_VERSION_MISMATCH,
     EC_PROTOCOL_INVALID_MSG_TYPE, EC_PROTOCOL_PAYLOAD_TOO_LARGE, EC_PROTOCOL_CHECKSUM_MISMATCH,
     EC_PROTOCOL_PROTOCOL_REJECTED, EC_PROTOCOL_TRUNCATED_BUFFER, EC_NET_TIMEOUT,
     EC_NET_HOST_UNREACHABLE, EC_NET_CONNECTION_REFUSED, EC_NET_SOCKET_CLOSED,
     EC_NET_BROADCAST_FAILED, EC_NET_PARTITION_DETECTED, EC_NET_RATE_LIMITED,
     EC_NET_SEND_FAILED, EC_NET_NOT_CONNECTED, EC_CRYPTO_HMAC_MISMATCH,
     EC_CRYPTO_TLS_HANDSHAKE_FAILED, EC_CRYPTO_PSK_MISMATCH, EC_CRYPTO_CERT_EXPIRED,
     EC_CRYPTO_CERT_UNTRUSTED, EC_CRYPTO_CERT_CHAIN_INVALID, EC_CRYPTO_CA_UNREACHABLE,
     EC_CRYPTO_CRL_CHECK_FAILED, EC_CRYPTO_CERT_REVOKED, EC_CRYPTO_HANDSHAKE_FAILED,
     EC_CRYPTO_NONCE_REUSED, EC_CRYPTO_DOWNGRADE_REJECTED, EC_BIZ_CMD_EXEC_FAILED,
     EC_BIZ_FILE_NOT_FOUND, EC_BIZ_FILE_PERMISSION_DENIED, EC_BIZ_SHELL_METACHAR_REJECTED,
     EC_BIZ_SERVICE_NOT_FOUND, EC_BIZ_NODE_NOT_REGISTERED, EC_BIZ_PROTOCOL_VERSION_TOO_OLD,
     EC_BIZ_AUTH_UNTRUSTED, EC_RES_MEMORY_EXHAUSTED, EC_RES_CPU_OVERLOAD,
     EC_RES_DISK_FULL, EC_RES_FD_EXHAUSTED, EC_RES_MUTEX_TIMEOUT,
     EC_SERIALIZE_ENCODE_FAILED, EC_SERIALIZE_DECODE_FAILED, EC_SERIALIZE_VERSION_MISMATCH,
     EC_SERIALIZE_TYPE_MISMATCH, EC_CONFIG_PARSE_FAILED, EC_CONFIG_INVALID_VALUE,
     EC_CONFIG_MISSING_REQUIRED, EC_TOPOLOGY_INVALID, EC_TOPOLOGY_CYCLE_DETECTED,
     EC_TOPOLOGY_TRANSACTION_ALREADY_DONE, EC_DISCOVERY_NO_PEERS, EC_DISCOVERY_SUBSCRIPTION_FULL,
     EC_NODE_INIT_FAILED, EC_NODE_ALREADY_EXISTS, EC_NODE_NOT_FOUND,
     EC_RESOURCE_BUSY, EC_NOT_IMPLEMENTED, EC_INTERNAL,
     EC_INVALID_ARG, EC_UNKNOWN]"

section \<open>The functions on codes\<close>

definition to_int_code :: "ErrorCode \<Rightarrow> int" where
  "to_int_code c = uint (code_of c)"

definition is_ok_code :: "ErrorCode \<Rightarrow> bool" where
  "is_ok_code c = (c = EC_OK)"

definition is_err_code :: "ErrorCode \<Rightarrow> bool" where
  "is_err_code c = (c \<noteq> EC_OK)"

definition category_prefix :: "ErrorCode \<Rightarrow> u32" where
  "category_prefix c = (ucast (code_of c) :: u32) AND 0x0000F000"

definition category_of :: "ErrorCode \<Rightarrow> string" where
  "category_of c =
     (let prefix = category_prefix c in
      if prefix = 0x00000000 then ''OK''
      else if prefix = 0x00001000 then ''PROTOCOL''
      else if prefix = 0x00002000 then ''NET''
      else if prefix = 0x00003000 then ''CRYPTO''
      else if prefix = 0x00004000 then ''BIZ''
      else if prefix = 0x00005000 then ''RES''
      else if prefix = 0x00006000 then ''SERIALIZE''
      else if prefix = 0x00007000 then ''CONFIG''
      else if prefix = 0x00008000 then ''TOPOLOGY''
      else if prefix = 0x00009000 then ''NODE''
      else if prefix = 0x0000F000 then ''GENERAL''
      else ''UNKNOWN'')"

primrec to_string_code :: "ErrorCode \<Rightarrow> string" where
  "to_string_code EC_OK = ''OK''"
| "to_string_code EC_PROTOCOL_INVALID_MAGIC = ''protocol invalid magic''"
| "to_string_code EC_PROTOCOL_VERSION_MISMATCH = ''protocol version mismatch''"
| "to_string_code EC_PROTOCOL_INVALID_MSG_TYPE = ''protocol invalid message type''"
| "to_string_code EC_PROTOCOL_PAYLOAD_TOO_LARGE = ''protocol payload too large''"
| "to_string_code EC_PROTOCOL_CHECKSUM_MISMATCH = ''protocol checksum mismatch''"
| "to_string_code EC_PROTOCOL_PROTOCOL_REJECTED = ''protocol rejected''"
| "to_string_code EC_PROTOCOL_TRUNCATED_BUFFER = ''protocol truncated buffer''"
| "to_string_code EC_NET_TIMEOUT = ''network timeout''"
| "to_string_code EC_NET_HOST_UNREACHABLE = ''network host unreachable''"
| "to_string_code EC_NET_CONNECTION_REFUSED = ''network connection refused''"
| "to_string_code EC_NET_SOCKET_CLOSED = ''network socket closed''"
| "to_string_code EC_NET_BROADCAST_FAILED = ''network broadcast failed''"
| "to_string_code EC_NET_PARTITION_DETECTED = ''network partition detected''"
| "to_string_code EC_NET_RATE_LIMITED = ''network rate limited''"
| "to_string_code EC_NET_SEND_FAILED = ''network send failed''"
| "to_string_code EC_NET_NOT_CONNECTED = ''network not connected''"
| "to_string_code EC_CRYPTO_HMAC_MISMATCH = ''crypto HMAC mismatch''"
| "to_string_code EC_CRYPTO_TLS_HANDSHAKE_FAILED = ''crypto TLS handshake failed''"
| "to_string_code EC_CRYPTO_PSK_MISMATCH = ''crypto PSK mismatch''"
| "to_string_code EC_CRYPTO_CERT_EXPIRED = ''crypto certificate expired''"
| "to_string_code EC_CRYPTO_CERT_UNTRUSTED = ''crypto certificate untrusted''"
| "to_string_code EC_CRYPTO_CERT_CHAIN_INVALID = ''crypto certificate chain invalid''"
| "to_string_code EC_CRYPTO_CA_UNREACHABLE = ''crypto CA unreachable''"
| "to_string_code EC_CRYPTO_CRL_CHECK_FAILED = ''crypto CRL check failed''"
| "to_string_code EC_CRYPTO_CERT_REVOKED = ''crypto certificate revoked''"
| "to_string_code EC_CRYPTO_HANDSHAKE_FAILED = ''crypto handshake failed''"
| "to_string_code EC_CRYPTO_NONCE_REUSED = ''crypto nonce reused''"
| "to_string_code EC_CRYPTO_DOWNGRADE_REJECTED = ''crypto downgrade rejected''"
| "to_string_code EC_BIZ_CMD_EXEC_FAILED = ''business command execution failed''"
| "to_string_code EC_BIZ_FILE_NOT_FOUND = ''business file not found''"
| "to_string_code EC_BIZ_FILE_PERMISSION_DENIED = ''business file permission denied''"
| "to_string_code EC_BIZ_SHELL_METACHAR_REJECTED = ''business shell metachar rejected''"
| "to_string_code EC_BIZ_SERVICE_NOT_FOUND = ''business service not found''"
| "to_string_code EC_BIZ_NODE_NOT_REGISTERED = ''business node not registered''"
| "to_string_code EC_BIZ_PROTOCOL_VERSION_TOO_OLD = ''business protocol version too old''"
| "to_string_code EC_BIZ_AUTH_UNTRUSTED = ''business auth untrusted''"
| "to_string_code EC_RES_MEMORY_EXHAUSTED = ''resource memory exhausted''"
| "to_string_code EC_RES_CPU_OVERLOAD = ''resource CPU overload''"
| "to_string_code EC_RES_DISK_FULL = ''resource disk full''"
| "to_string_code EC_RES_FD_EXHAUSTED = ''resource fd exhausted''"
| "to_string_code EC_RES_MUTEX_TIMEOUT = ''resource mutex timeout''"
| "to_string_code EC_SERIALIZE_ENCODE_FAILED = ''serialize encode failed''"
| "to_string_code EC_SERIALIZE_DECODE_FAILED = ''serialize decode failed''"
| "to_string_code EC_SERIALIZE_VERSION_MISMATCH = ''serialize version mismatch''"
| "to_string_code EC_SERIALIZE_TYPE_MISMATCH = ''serialize type mismatch''"
| "to_string_code EC_CONFIG_PARSE_FAILED = ''config parse failed''"
| "to_string_code EC_CONFIG_INVALID_VALUE = ''config invalid value''"
| "to_string_code EC_CONFIG_MISSING_REQUIRED = ''config missing required''"
| "to_string_code EC_TOPOLOGY_INVALID = ''topology invalid''"
| "to_string_code EC_TOPOLOGY_CYCLE_DETECTED = ''topology cycle detected''"
| "to_string_code EC_TOPOLOGY_TRANSACTION_ALREADY_DONE = ''topology transaction already done''"
| "to_string_code EC_DISCOVERY_NO_PEERS = ''discovery no peers''"
| "to_string_code EC_DISCOVERY_SUBSCRIPTION_FULL = ''discovery subscription full''"
| "to_string_code EC_NODE_INIT_FAILED = ''node init failed''"
| "to_string_code EC_NODE_ALREADY_EXISTS = ''node already exists''"
| "to_string_code EC_NODE_NOT_FOUND = ''node not found''"
| "to_string_code EC_RESOURCE_BUSY = ''resource busy''"
| "to_string_code EC_NOT_IMPLEMENTED = ''not implemented''"
| "to_string_code EC_INTERNAL = ''internal error''"
| "to_string_code EC_INVALID_ARG = ''invalid argument''"
| "to_string_code EC_UNKNOWN = ''unknown error''"

section \<open>The enumeration is sound\<close>

lemma all_codes_complete: "c \<in> set all_codes"
  by (cases c) (simp_all add: all_codes_def)

lemma increasing_code_values: "sorted_wrt (<) (map code_of all_codes)"
  by (simp add: all_codes_def sorted_wrt2 sorted_wrt1 del: sorted_wrt.simps(2))

lemma distinct_code_values: "distinct (map code_of all_codes)"
  using increasing_code_values by (simp add: strict_sorted_iff)

lemma code_of_inject [simp]: "code_of c = code_of d \<longleftrightarrow> c = d"
  using distinct_code_values all_codes_complete
  by (metis distinct_map inj_onD)

lemma length_all_codes: "length all_codes = 62"
  by (simp add: all_codes_def)

text \<open>
  The class an enumerator's name announces (its prefix up to the first underscore; the
  five codes without a class name are general, the discovery codes share the topology
  range), against which the mask-and-switch of \<open>category_of\<close> is checked.
\<close>

primrec name_class :: "ErrorCode \<Rightarrow> string" where
  "name_class EC_OK = ''OK''"
| "name_class EC_PROTOCOL_INVALID_MAGIC = ''PROTOCOL''"
| "name_class EC_PROTOCOL_VERSION_MISMATCH = ''PROTOCOL''"
| "name_class EC_PROTOCOL_INVALID_MSG_TYPE = ''PROTOCOL''"
| "name_class EC_PROTOCOL_PAYLOAD_TOO_LARGE = ''PROTOCOL''"
| "name_class EC_PROTOCOL_CHECKSUM_MISMATCH = ''PROTOCOL''"
| "name_class EC_PROTOCOL_PROTOCOL_REJECTED = ''PROTOCOL''"
| "name_class EC_PROTOCOL_TRUNCATED_BUFFER = ''PROTOCOL''"
| "name_class EC_NET_TIMEOUT = ''NET''"
| "name_class EC_NET_HOST_UNREACHABLE = ''NET''"
| "name_class EC_NET_CONNECTION_REFUSED = ''NET''"
| "name_class EC_NET_SOCKET_CLOSED = ''NET''"
| "name_class EC_NET_BROADCAST_FAILED = ''NET''"
| "name_class EC_NET_PARTITION_DETECTED = ''NET''"
| "name_class EC_NET_RATE_LIMITED = ''NET''"
| "name_class EC_NET_SEND_FAILED = ''NET''"
| "name_class EC_NET_NOT_CONNECTED = ''NET''"
| "name_class EC_CRYPTO_HMAC_MISMATCH = ''CRYPTO''"
| "name_class EC_CRYPTO_TLS_HANDSHAKE_FAILED = ''CRYPTO''"
| "name_class EC_CRYPTO_PSK_MISMATCH = ''CRYPTO''"
| "name_class EC_CRYPTO_CERT_EXPIRED = ''CRYPTO''"
| "name_class EC_CRYPTO_CERT_UNTRUSTED = ''CRYPTO''"
| "name_class EC_CRYPTO_CERT_CHAIN_INVALID = ''CRYPTO''"
| "name_class EC_CRYPTO_CA_UNREACHABLE = ''CRYPTO''"
| "name_class EC_CRYPTO_CRL_CHECK_FAILED = ''CRYPTO''"
| "name_class EC_CRYPTO_CERT_REVOKED = ''CRYPTO''"
| "name_class EC_CRYPTO_HANDSHAKE_FAILED = ''CRYPTO''"
| "name_class EC_CRYPTO_NONCE_REUSED = ''CRYPTO''"
| "name_class EC_CRYPTO_DOWNGRADE_REJECTED = ''CRYPTO''"
| "name_class EC_BIZ_CMD_EXEC_FAILED = ''BIZ''"
| "name_class EC_BIZ_FILE_NOT_FOUND = ''BIZ''"
| "name_class EC_BIZ_FILE_PERMISSION_DENIED = ''BIZ''"
| "name_class EC_BIZ_SHELL_METACHAR_REJECTED = ''BIZ''"
| "name_class EC_BIZ_SERVICE_NOT_FOUND = ''BIZ''"
| "name_class EC_BIZ_NODE_NOT_REGISTERED = ''BIZ''"
| "name_class EC_BIZ_PROTOCOL_VERSION_TOO_OLD = ''BIZ''"
| "name_class EC_BIZ_AUTH_UNTRUSTED = ''BIZ''"
| "name_class EC_RES_MEMORY_EXHAUSTED = ''RES''"
| "name_class EC_RES_CPU_OVERLOAD = ''RES''"
| "name_class EC_RES_DISK_FULL = ''RES''"
| "name_class EC_RES_FD_EXHAUSTED = ''RES''"
| "name_class EC_RES_MUTEX_TIMEOUT = ''RES''"
| "name_class EC_SERIALIZE_ENCODE_FAILED = ''SERIALIZE''"
| "name_class EC_SERIALIZE_DECODE_FAILED = ''SERIALIZE''"
| "name_class EC_SERIALIZE_VERSION_MISMATCH = ''SERIALIZE''"
| "name_class EC_SERIALIZE_TYPE_MISMATCH = ''SERIALIZE''"
| "name_class EC_CONFIG_PARSE_FAILED = ''CONFIG''"
| "name_class EC_CONFIG_INVALID_VALUE = ''CONFIG''"
| "name_class EC_CONFIG_MISSING_REQUIRED = ''CONFIG''"
| "name_class EC_TOPOLOGY_INVALID = ''TOPOLOGY''"
| "name_class EC_TOPOLOGY_CYCLE_DETECTED = ''TOPOLOGY''"
| "name_class EC_TOPOLOGY_TRANSACTION_ALREADY_DONE = ''TOPOLOGY''"
| "name_class EC_DISCOVERY_NO_PEERS = ''TOPOLOGY''"
| "name_class EC_DISCOVERY_SUBSCRIPTION_FULL = ''TOPOLOGY''"
| "name_class EC_NODE_INIT_FAILED = ''NODE''"
| "name_class EC_NODE_ALREADY_EXISTS = ''NODE''"
| "name_class EC_NODE_NOT_FOUND = ''NODE''"
| "name_class EC_RESOURCE_BUSY = ''GENERAL''"
| "name_class EC_NOT_IMPLEMENTED = ''GENERAL''"
| "name_class EC_INTERNAL = ''GENERAL''"
| "name_class EC_INVALID_ARG = ''GENERAL''"
| "name_class EC_UNKNOWN = ''GENERAL''"

text \<open>
  The mask-and-switch classification is right for every code: the class computed from
  the number is the class that the enumerator's name announces, the logged text identifies
  the number, and no two codes share a number.
\<close>

theorem error_code_classes:
  "category_of c = name_class c \<and> (to_int_code c = to_int_code d) = (c = d) \<and>
   0 \<le> to_int_code c \<and> to_int_code c < 65536 \<and> is_err_code c = (\<not> is_ok_code c)"
proof -
  have "category_of c = name_class c"
    by (cases c) (simp_all add: category_of_def category_prefix_def)
  moreover have "to_int_code c < 65536"
    using unsigned_less [of "code_of c", where ?'a = int] by (simp add: to_int_code_def)
  ultimately show ?thesis
    by (simp add: to_int_code_def is_ok_code_def is_err_code_def flip: word_uint_eq_iff)
qed

end
