(* ===== verification/Result_Type.thy ===== *)
theory Result_Type
  imports Error_Code
begin

text \<open>
  \<open>src/core/result.hpp\<close>: the three-state \<open>Result<T>\<close> and its two-field specialisation
  \<open>Result<void>\<close>. The variant's three alternatives are the three constructors. A callback
  that only has an effect (\<open>on_error\<close>) is a function on an explicit state. Every fallible
  operation of the other theories returns a \<open>Result\<close>; those that return \<open>Result<void>\<close>
  return a \<open>unit Result\<close>, and \<open>rv_of\<close> shows how the two-field class represents it.
\<close>

section \<open>Result of a value\<close>

datatype 'a Result = Uninitialized | Ok 'a | Err ErrorCode

definition is_ok :: "'a Result \<Rightarrow> bool" where
  "is_ok r = (case r of Ok _ \<Rightarrow> True | _ \<Rightarrow> False)"

definition is_err :: "'a Result \<Rightarrow> bool" where
  "is_err r = (case r of Err _ \<Rightarrow> True | _ \<Rightarrow> False)"

definition is_uninitialized :: "'a Result \<Rightarrow> bool" where
  "is_uninitialized r = (case r of Uninitialized \<Rightarrow> True | _ \<Rightarrow> False)"

text \<open>\<open>value()\<close> asserts \<open>is_ok()\<close>: a failed assertion is \<open>None\<close>.\<close>

definition result_value :: "'a Result \<Rightarrow> 'a option" where
  "result_value r = (case r of Ok v \<Rightarrow> Some v | _ \<Rightarrow> None)"

definition error :: "'a Result \<Rightarrow> ErrorCode" where
  "error r = (case r of Err e \<Rightarrow> e | _ \<Rightarrow> EC_INTERNAL)"

definition value_or :: "'a Result \<Rightarrow> 'a \<Rightarrow> 'a" where
  "value_or r fallback = (case r of Ok v \<Rightarrow> v | _ \<Rightarrow> fallback)"

definition and_then :: "'a Result \<Rightarrow> ('a \<Rightarrow> 'b Result) \<Rightarrow> 'b Result" where
  "and_then r fn = (case r of Ok v \<Rightarrow> fn v | _ \<Rightarrow> Err (error r))"

definition map_res :: "('a \<Rightarrow> 'b) \<Rightarrow> 'a Result \<Rightarrow> 'b Result" where
  "map_res fn r = (case r of Ok v \<Rightarrow> Ok (fn v) | _ \<Rightarrow> Err (error r))"

definition or_else :: "'a Result \<Rightarrow> (ErrorCode \<Rightarrow> 'a Result) \<Rightarrow> 'a Result" where
  "or_else r fn = (case r of Err e \<Rightarrow> fn e | _ \<Rightarrow> r)"

definition on_error :: "'a Result \<Rightarrow> (ErrorCode \<Rightarrow> 's \<Rightarrow> 's) \<Rightarrow> 's \<Rightarrow> 'a Result \<times> 's" where
  "on_error r fn s = (case r of Err e \<Rightarrow> (r, fn e s) | _ \<Rightarrow> (r, s))"

lemma result_queries [simp]:
  "is_ok (Ok v)" "\<not> is_ok (Err e)" "\<not> is_ok Uninitialized"
  "is_err (Err e)" "\<not> is_err (Ok v)" "\<not> is_err Uninitialized"
  "error (Err e) = e" "error (Ok v) = EC_INTERNAL" "error Uninitialized = EC_INTERNAL"
  by (simp_all add: is_ok_def is_err_def error_def)

lemma and_then_simps [simp]:
  "and_then (Ok v) f = f v" "and_then (Err e) f = Err e"
  "and_then Uninitialized f = Err EC_INTERNAL"
  by (simp_all add: and_then_def)

lemma map_res_simps [simp]:
  "map_res h (Ok v) = Ok (h v)" "map_res h (Err e) = Err e"
  "map_res h Uninitialized = Err EC_INTERNAL"
  by (simp_all add: map_res_def)

lemma or_else_simps [simp]:
  "or_else (Ok v) g = Ok v" "or_else (Err e) g = g e" "or_else Uninitialized g = Uninitialized"
  by (simp_all add: or_else_def)

lemma is_ok_iff: "is_ok r \<longleftrightarrow> (\<exists>v. r = Ok v)"
  by (cases r) simp_all

lemma is_err_iff: "is_err r \<longleftrightarrow> (\<exists>e. r = Err e)"
  by (cases r) simp_all

section \<open>Result of void\<close>

datatype rv_state = RV_Uninitialized | RV_Ok | RV_Err

record ResultVoid =
  rv_st :: rv_state
  rv_code :: ErrorCode

definition rv_default :: ResultVoid where
  "rv_default = \<lparr>rv_st = RV_Uninitialized, rv_code = EC_OK\<rparr>"

definition rv_ok :: ResultVoid where
  "rv_ok = \<lparr>rv_st = RV_Ok, rv_code = EC_OK\<rparr>"

definition rv_err :: "ErrorCode \<Rightarrow> ResultVoid" where
  "rv_err c = \<lparr>rv_st = RV_Err, rv_code = c\<rparr>"

definition rv_is_ok :: "ResultVoid \<Rightarrow> bool" where
  "rv_is_ok r = (rv_st r = RV_Ok)"

definition rv_is_err :: "ResultVoid \<Rightarrow> bool" where
  "rv_is_err r = (rv_st r = RV_Err)"

definition rv_error :: "ResultVoid \<Rightarrow> ErrorCode" where
  "rv_error r = rv_code r"

definition rv_or_else :: "ResultVoid \<Rightarrow> (ErrorCode \<Rightarrow> ResultVoid) \<Rightarrow> ResultVoid" where
  "rv_or_else r fn = (if rv_is_err r then fn (rv_code r) else r)"

definition rv_on_error :: "ResultVoid \<Rightarrow> (ErrorCode \<Rightarrow> 's \<Rightarrow> 's) \<Rightarrow> 's \<Rightarrow> ResultVoid \<times> 's" where
  "rv_on_error r fn s = (if rv_is_err r then (r, fn (rv_code r) s) else (r, s))"

text \<open>How \<open>Result<void>\<close> represents the abstract \<open>unit Result\<close>.\<close>

definition rv_of :: "unit Result \<Rightarrow> ResultVoid" where
  "rv_of r = (case r of Ok _ \<Rightarrow> rv_ok | Err c \<Rightarrow> rv_err c | Uninitialized \<Rightarrow> rv_default)"

lemmas rv_defs = rv_default_def rv_ok_def rv_err_def rv_is_ok_def rv_is_err_def rv_error_def
  rv_or_else_def rv_on_error_def rv_of_def

lemma rv_of_queries:
  "rv_is_ok (rv_of r) = is_ok r" "rv_is_err (rv_of r) = is_err r"
  by (cases r; simp add: rv_defs)+

lemma rv_of_inject: "rv_of r = rv_of s \<longleftrightarrow> r = s"
  by (cases r; cases s) (simp_all add: rv_defs)

lemma rv_of_error: "rv_error (rv_of r) = (if is_err r then error r else EC_OK)"
  by (cases r) (simp_all add: rv_defs)

section \<open>The chaining operators obey the laws of an error monad\<close>

text \<open>
  Chaining with \<open>and_then\<close> is associative and \<open>ok\<close> is its unit on both sides, except
  that the third state, an uninitialised result, becomes the error \<open>INTERNAL\<close>; \<open>map\<close> is
  chaining with a total function, and \<open>or_else\<close> recovers exactly from errors.
\<close>

theorem result_monad_laws:
  "and_then (and_then r f) g = and_then r (\<lambda>x. and_then (f x) g) \<and>
   and_then (Ok v) f = f v \<and>
   and_then r Ok = (if is_uninitialized r then Err EC_INTERNAL else r) \<and>
   map_res h r = and_then r (\<lambda>x. Ok (h x)) \<and>
   or_else (or_else r k) l = or_else r (\<lambda>e. or_else (k e) l) \<and>
   is_err (or_else r (\<lambda>e. Ok w)) = False"
  by (cases r) (simp_all add: is_uninitialized_def)

text \<open>
  The two-field \<open>Result<void>\<close> simulates the three-state result: queries, recovery and
  the effect of an error handler agree; only \<open>error()\<close> of a result that is not an error
  differs, \<open>OK\<close> here and \<open>INTERNAL\<close> in the general class.
\<close>

theorem result_void_simulates:
  "rv_is_ok (rv_of r) = is_ok r \<and> rv_is_err (rv_of r) = is_err r \<and>
   rv_or_else (rv_of r) (\<lambda>e. rv_of (f e)) = rv_of (or_else r f) \<and>
   rv_on_error (rv_of r) g s = (rv_of r, snd (on_error r g s)) \<and>
   rv_error (rv_of r) = (if is_err r then error r else EC_OK)"
  by (cases r) (simp_all add: rv_defs on_error_def)

end
