(* ===== verification/Interfaces.thy ===== *)
theory Interfaces
  imports Result_Type
begin

text \<open>
  The contracts between components, as locales, and what follows from each contract
  alone. \<open>fifo_queue\<close>: a bounded queue refines a list; every run of pushes and pops
  delivers the accepted items in order. \<open>keyed_store\<close>: a table with one value per key.
  \<open>stream_codec\<close>: a self-delimiting encoder whose decoder hands back the rest of the
  input; a concatenation of records is read back record by record. \<open>guarded_system\<close>: a
  state with an invariant that every labelled step keeps. Each locale is interpreted in
  the theories of the components that provide it.
\<close>

section \<open>Bounded queues\<close>

datatype 'a queue_op = Push 'a | Pop

text \<open>A run returns the items the queue took, the items it gave out and the last state.\<close>

fun queue_run :: "('a \<Rightarrow> 's \<Rightarrow> 's option) \<Rightarrow> ('s \<Rightarrow> ('a \<times> 's) option) \<Rightarrow>
    'a queue_op list \<Rightarrow> 's \<Rightarrow> 'a list \<times> 'a list \<times> 's" where
  "queue_run push pop [] s = ([], [], s)"
| "queue_run push pop (Push x # ops) s =
     (case push x s of
        None \<Rightarrow> queue_run push pop ops s
      | Some s' \<Rightarrow> (case queue_run push pop ops s' of (ins, outs, t) \<Rightarrow> (x # ins, outs, t)))"
| "queue_run push pop (Pop # ops) s =
     (case pop s of
        None \<Rightarrow> queue_run push pop ops s
      | Some (x, s') \<Rightarrow> (case queue_run push pop ops s' of (ins, outs, t) \<Rightarrow> (ins, x # outs, t)))"

locale fifo_queue =
  fixes items :: "'s \<Rightarrow> 'a list"
    and ok :: "'s \<Rightarrow> bool"
    and push :: "'a \<Rightarrow> 's \<Rightarrow> 's option"
    and pop :: "'s \<Rightarrow> ('a \<times> 's) option"
  assumes push_items: "\<lbrakk>ok s; push x s = Some s'\<rbrakk> \<Longrightarrow> ok s' \<and> items s' = items s @ [x]"
    and pop_items: "\<lbrakk>ok s; pop s = Some (x, s')\<rbrakk> \<Longrightarrow> ok s' \<and> items s = x # items s'"
    and pop_empty: "ok s \<Longrightarrow> pop s = None \<longleftrightarrow> items s = []"
begin

lemma run_fifo:
  assumes "ok s" "queue_run push pop ops s = (ins, outs, t)"
  shows "ok t \<and> items s @ ins = outs @ items t"
  using assms
proof (induction ops arbitrary: s ins outs t)
  case (Cons op ops)
  note run = Cons.prems(2) and ok = Cons.prems(1)
  show ?case
  proof (cases op)
    case (Push x)
    show ?thesis
    proof (cases "push x s")
      case None
      with Push run have "queue_run push pop ops s = (ins, outs, t)" by simp
      with ok show ?thesis by (rule Cons.IH)
    next
      case (Some s')
      with Push run obtain ins' where "queue_run push pop ops s' = (ins', outs, t)" "ins = x # ins'"
        by (auto split: prod.splits)
      with Cons.IH [of s'] push_items [OF ok Some] show ?thesis by simp
    qed
  next
    case Pop
    show ?thesis
    proof (cases "pop s")
      case None
      with Pop run have "queue_run push pop ops s = (ins, outs, t)" by simp
      with ok show ?thesis by (rule Cons.IH)
    next
      case (Some p)
      then obtain x s' where p: "pop s = Some (x, s')" by (cases p) simp
      with Pop run obtain outs' where "queue_run push pop ops s' = (ins, outs', t)" "outs = x # outs'"
        by (auto split: prod.splits)
      with Cons.IH [of s'] pop_items [OF ok p] show ?thesis by simp
    qed
  qed
qed simp

lemma run_fifo_from_empty:
  assumes "ok s" "items s = []" "queue_run push pop ops s = (ins, outs, t)"
  shows "ins = outs @ items t"
  using run_fifo [OF assms(1,3)] assms(2) by simp

lemma pop_hd: "ok s \<Longrightarrow> items s = x # xs \<Longrightarrow> \<exists>s'. pop s = Some (x, s') \<and> ok s' \<and> items s' = xs"
  using pop_items pop_empty by (cases "pop s") force+

end

section \<open>Tables with one value per key\<close>

text \<open>Entries carry their key; \<open>valid\<close> is what the table requires of one.\<close>

locale keyed_store =
  fixes lookup :: "'s \<Rightarrow> 'k \<Rightarrow> 'v option"
    and ok :: "'s \<Rightarrow> bool"
    and count :: "'s \<Rightarrow> nat"
    and key :: "'v \<Rightarrow> 'k"
    and valid :: "'v \<Rightarrow> bool"
    and put :: "'v \<Rightarrow> 's \<Rightarrow> 's"
    and del :: "'k \<Rightarrow> 's \<Rightarrow> 's"
  assumes put_lookup: "ok s \<Longrightarrow> valid v \<Longrightarrow> lookup (put v s) = (lookup s)(key v \<mapsto> v)"
    and put_invalid: "ok s \<Longrightarrow> \<not> valid v \<Longrightarrow> lookup (put v s) = lookup s"
    and del_lookup: "ok s \<Longrightarrow> lookup (del k s) = (lookup s)(k := None)"
    and put_ok: "ok s \<Longrightarrow> ok (put v s)"
    and del_ok: "ok s \<Longrightarrow> ok (del k s)"
    and count_card: "ok s \<Longrightarrow> count s = card (dom (lookup s)) \<and> finite (dom (lookup s))"
begin

lemma put_twice:
  "ok s \<Longrightarrow> valid v \<Longrightarrow> valid w \<Longrightarrow> key v = key w \<Longrightarrow> lookup (put w (put v s)) = lookup (put w s)"
  by (simp add: put_lookup put_ok)

lemma put_commute:
  "ok s \<Longrightarrow> key v \<noteq> key w \<Longrightarrow> lookup (put v (put w s)) = lookup (put w (put v s))"
  by (cases "valid v"; cases "valid w") (auto simp: put_lookup put_invalid put_ok)

lemma del_put: "ok s \<Longrightarrow> valid v \<Longrightarrow> lookup s (key v) = None \<Longrightarrow> lookup (del (key v) (put v s)) = lookup s"
  by (auto simp: put_lookup del_lookup put_ok)

lemma count_put:
  "ok s \<Longrightarrow> valid v \<Longrightarrow> count (put v s) = (if lookup s (key v) = None then Suc (count s) else count s)"
  using count_card [of s] count_card [of "put v s"] put_ok [of s v]
  by (auto simp: put_lookup insert_absorb domI domIff)

lemma count_del: "ok s \<Longrightarrow> count (del k s) = (if lookup s k = None then count s else count s - 1)"
  using count_card [of s] count_card [of "del k s"] del_ok [of s k]
  by (auto simp: del_lookup domI dom_def [symmetric] card_Diff_singleton_if)

text \<open>Every entry that is found is valid and found under its own key, if that holds at first.\<close>

definition keys_ok :: "'s \<Rightarrow> bool" where
  "keys_ok s = (\<forall>k v. lookup s k = Some v \<longrightarrow> valid v \<and> key v = k)"

lemma keys_ok_put: "ok s \<Longrightarrow> keys_ok s \<Longrightarrow> keys_ok (put v s)"
  by (cases "valid v") (auto simp: keys_ok_def put_lookup put_invalid)

lemma keys_ok_del: "ok s \<Longrightarrow> keys_ok s \<Longrightarrow> keys_ok (del k s)"
  by (auto simp: keys_ok_def del_lookup)

end

section \<open>Self-delimiting records in a byte stream\<close>

text \<open>Read records until the input is used up; \<open>None\<close> if one does not parse.\<close>

function read_stream :: "(bytes \<Rightarrow> ('a \<times> bytes) option) \<Rightarrow> bytes \<Rightarrow> 'a list option" where
  "read_stream dec bs =
     (if bs = [] then Some []
      else case dec bs of
        None \<Rightarrow> None
      | Some (x, rest) \<Rightarrow>
          (if length rest < length bs then map_option ((#) x) (read_stream dec rest) else None))"
  by pat_completeness auto
termination
  by (relation "measure (\<lambda>(_, bs). length bs)") auto

declare read_stream.simps [simp del]

locale stream_codec =
  fixes enc :: "'a \<Rightarrow> bytes"
    and dec :: "bytes \<Rightarrow> ('a \<times> bytes) option"
    and valid :: "'a \<Rightarrow> bool"
  assumes dec_enc: "valid x \<Longrightarrow> dec (enc x @ rest) = Some (x, rest)"
    and enc_nonempty: "valid x \<Longrightarrow> enc x \<noteq> []"
begin

lemma read_stream_concat:
  "\<forall>x \<in> set xs. valid x \<Longrightarrow> read_stream dec (concat (map enc xs)) = Some xs"
proof (induction xs)
  case Nil
  then show ?case by (simp add: read_stream.simps)
next
  case (Cons x xs)
  then have "enc x \<noteq> []" "dec (enc x @ concat (map enc xs)) = Some (x, concat (map enc xs))"
    by (auto simp: dec_enc enc_nonempty)
  with Cons show ?case by (simp add: read_stream.simps [of _ "_ @ _"])
qed

lemma enc_inject: "valid x \<Longrightarrow> valid y \<Longrightarrow> enc x @ r = enc y @ s \<Longrightarrow> x = y \<and> r = s"
  by (metis dec_enc option.inject prod.inject)

lemma stream_inject:
  assumes "\<forall>x \<in> set xs. valid x" "\<forall>y \<in> set ys. valid y"
    and "concat (map enc xs) = concat (map enc ys)"
  shows "xs = ys"
  using read_stream_concat [OF assms(1)] read_stream_concat [OF assms(2)]
  unfolding assms(3) by simp

end

section \<open>Systems with an invariant\<close>

locale guarded_system =
  fixes ok :: "'s \<Rightarrow> bool"
    and step :: "'l \<Rightarrow> 's \<Rightarrow> 's"
  assumes step_ok: "ok s \<Longrightarrow> ok (step l s)"
begin

lemma fold_ok: "ok s \<Longrightarrow> ok (fold step ls s)"
  by (induction ls arbitrary: s) (simp_all add: step_ok)

lemma every_prefix_ok: "ok s \<Longrightarrow> ok (fold step (take n ls) s)"
  by (rule fold_ok)

end

end
