(* ===== verification/Ring_Buffer.thy ===== *)
theory Ring_Buffer
  imports Interfaces
begin

text \<open>
  \<open>src/core/buffer/buffer.hpp\<close> and \<open>buffer.cpp\<close>: the single-producer single-consumer
  ring of length-prefixed records. \<open>rb_*\<close> models the template \<open>RingBuffer<Capacity>\<close>,
  \<open>dr_*\<close> the run-time sized \<open>DynamicRingBuffer\<close>. Positions are \<open>std::size_t\<close>, 64-bit
  words that only ever grow and may wrap; a position is masked with \<open>Capacity - 1\<close> to
  index the storage. The dynamic version copies the four header bytes with one
  \<open>memcpy\<close>, which leaves the storage when fewer than four bytes are left before its
  end: its operations return \<open>None\<close> there (undefined behaviour).

  The lemmas show that the bytes between tail and head, read circularly, are the
  concatenation of the frames of the queued records (\<open>ring_rep\<close>), that the static
  operations refine a FIFO queue of records on every branch, and under which condition the
  dynamic ones agree with them.
\<close>

unbundle bit_operations_syntax

section \<open>The static ring\<close>

record ring =
  rb_storage :: bytes
  rb_head :: u64
  rb_tail :: u64

definition rb_cap_ok :: "u64 \<Rightarrow> bool" where
  "rb_cap_ok cap = (cap > 0 \<and> cap AND (cap - 1) = 0)"

definition kEntryHeaderBytes :: nat where
  "kEntryHeaderBytes = 4"

definition rb_new :: "u64 \<Rightarrow> ring" where
  "rb_new cap = \<lparr>rb_storage = replicate (unat cap) 0, rb_head = 0, rb_tail = 0\<rparr>"

definition rb_size :: "ring \<Rightarrow> u64" where
  "rb_size r = rb_head r - rb_tail r"

definition rb_free_space :: "u64 \<Rightarrow> ring \<Rightarrow> u64" where
  "rb_free_space cap r = cap - rb_size r"

definition rb_empty :: "ring \<Rightarrow> bool" where
  "rb_empty r = (rb_size r = 0)"

definition rb_full :: "u64 \<Rightarrow> ring \<Rightarrow> bool" where
  "rb_full cap r = (rb_free_space cap r < of_nat kEntryHeaderBytes + 1)"

definition rb_index :: "u64 \<Rightarrow> u64 \<Rightarrow> nat" where
  "rb_index cap pos = unat (pos AND (cap - 1))"

definition rb_write_at :: "u64 \<Rightarrow> u64 \<Rightarrow> bytes \<Rightarrow> bytes \<Rightarrow> bytes" where
  "rb_write_at cap pos src st =
     (let idx = rb_index cap pos;
          first = min (length src) (unat cap - idx);
          st1 = splice idx (take first src) st
      in if first < length src then splice 0 (drop first src) st1 else st1)"

definition rb_read_at :: "u64 \<Rightarrow> u64 \<Rightarrow> nat \<Rightarrow> bytes \<Rightarrow> bytes" where
  "rb_read_at cap pos n st =
     (let idx = rb_index cap pos;
          first = min n (unat cap - idx)
      in slice idx first st @ (if first < n then slice 0 (n - first) st else []))"

definition rb_write :: "u64 \<Rightarrow> bytes \<Rightarrow> ring \<Rightarrow> unit Result \<times> ring" where
  "rb_write cap data r =
     (if of_nat (length data) > cap - of_nat kEntryHeaderBytes
      then (Err EC_PROTOCOL_PAYLOAD_TOO_LARGE, r)
      else
        let need = of_nat kEntryHeaderBytes + of_nat (length data);
            h = rb_head r; t = rb_tail r
        in if cap - (h - t) < need then (Err EC_RES_MEMORY_EXHAUSTED, r)
           else
             let len = (of_nat (length data) :: u32);
                 st1 = rb_write_at cap h (put_le kEntryHeaderBytes len) (rb_storage r);
                 st2 = rb_write_at cap (h + of_nat kEntryHeaderBytes) data st1
             in (Ok (), r\<lparr>rb_storage := st2, rb_head := h + need\<rparr>))"

text \<open>\<open>out\<close> is the caller's buffer; the second component is its contents afterwards.\<close>

definition rb_read :: "u64 \<Rightarrow> bytes \<Rightarrow> ring \<Rightarrow> u64 Result \<times> bytes \<times> ring" where
  "rb_read cap out r =
     (let t = rb_tail r; h = rb_head r
      in if h = t then (Err EC_RES_MEMORY_EXHAUSTED, out, r)
         else
           let len = (get_le (rb_read_at cap t kEntryHeaderBytes (rb_storage r)) :: u32)
           in if length out < unat len then (Err EC_PROTOCOL_TRUNCATED_BUFFER, out, r)
              else (Ok (ucast len),
                    splice 0 (rb_read_at cap (t + of_nat kEntryHeaderBytes) (unat len) (rb_storage r)) out,
                    r\<lparr>rb_tail := t + of_nat kEntryHeaderBytes + ucast len\<rparr>))"

definition rb_peek_size :: "u64 \<Rightarrow> ring \<Rightarrow> u32 Result" where
  "rb_peek_size cap r =
     (let t = rb_tail r; h = rb_head r
      in if h = t then Err EC_RES_MEMORY_EXHAUSTED
         else Ok (get_le (rb_read_at cap t kEntryHeaderBytes (rb_storage r))))"

section \<open>The dynamic ring\<close>

record dring =
  dr_head :: u64
  dr_capacity :: u64
  dr_storage :: bytes
  dr_tail :: u64

text \<open>The constructor asserts that the capacity is a power of two.\<close>

definition dr_new :: "u64 \<Rightarrow> dring option" where
  "dr_new cap =
     (if cap = 0 \<or> cap AND (cap - 1) \<noteq> 0 then None
      else Some \<lparr>dr_head = 0, dr_capacity = cap, dr_storage = replicate (unat cap) 0, dr_tail = 0\<rparr>)"

definition dr_size :: "dring \<Rightarrow> u64" where
  "dr_size r = dr_head r - dr_tail r"

definition dr_free_space :: "dring \<Rightarrow> u64" where
  "dr_free_space r = dr_capacity r - dr_size r"

definition dr_index :: "u64 \<Rightarrow> u64 \<Rightarrow> nat" where
  "dr_index pos cap = unat (pos AND (cap - 1))"

definition dr_write :: "bytes \<Rightarrow> dring \<Rightarrow> (unit Result \<times> dring) option" where
  "dr_write data r =
     (let cap = dr_capacity r; max_entry = cap - of_nat kEntryHeaderBytes
      in if of_nat (length data) > max_entry then Some (Err EC_PROTOCOL_PAYLOAD_TOO_LARGE, r)
         else
           let need = of_nat kEntryHeaderBytes + of_nat (length data);
               h = dr_head r; t = dr_tail r
           in if cap - (h - t) < need then Some (Err EC_RES_MEMORY_EXHAUSTED, r)
              else
                let len = (of_nat (length data) :: u32);
                    idx = dr_index h cap
                in if idx + kEntryHeaderBytes > length (dr_storage r) then None
                   else
                     let st1 = splice idx (put_le kEntryHeaderBytes len) (dr_storage r);
                         data_pos = unat ((of_nat idx + of_nat kEntryHeaderBytes) AND (cap - 1));
                         first = unat cap - data_pos;
                         st2 = (if data_pos + length data \<le> unat cap then splice data_pos data st1
                                else splice 0 (drop first data) (splice data_pos (take first data) st1))
                     in Some (Ok (), r\<lparr>dr_storage := st2, dr_head := h + need\<rparr>))"

definition dr_read :: "bytes \<Rightarrow> dring \<Rightarrow> (u64 Result \<times> bytes \<times> dring) option" where
  "dr_read out r =
     (let cap = dr_capacity r; t = dr_tail r; h = dr_head r
      in if h = t then Some (Err EC_RES_MEMORY_EXHAUSTED, out, r)
         else if dr_index t cap + kEntryHeaderBytes > length (dr_storage r) then None
         else
           let len = (get_le (slice (dr_index t cap) kEntryHeaderBytes (dr_storage r)) :: u32)
           in if length out < unat len then Some (Err EC_PROTOCOL_TRUNCATED_BUFFER, out, r)
              else
                let data_pos = dr_index (t + of_nat kEntryHeaderBytes) cap;
                    first = unat cap - data_pos;
                    got = (if data_pos + unat len \<le> unat cap
                           then slice data_pos (unat len) (dr_storage r)
                           else slice data_pos first (dr_storage r) @
                                slice 0 (unat len - first) (dr_storage r))
                in Some (Ok (ucast len), splice 0 got out,
                         r\<lparr>dr_tail := t + of_nat kEntryHeaderBytes + ucast len\<rparr>))"

text \<open>The same contents seen as a static ring.\<close>

definition dr_static :: "dring \<Rightarrow> ring" where
  "dr_static r = \<lparr>rb_storage = dr_storage r, rb_head = dr_head r, rb_tail = dr_tail r\<rparr>"

section \<open>Reading a list circularly\<close>

definition circ :: "'a list \<Rightarrow> nat \<Rightarrow> nat \<Rightarrow> 'a list" where
  "circ st p n = map (\<lambda>i. st ! ((p + i) mod length st)) [0..<n]"

lemma length_circ [simp]: "length (circ st p n) = n"
  by (simp add: circ_def)

lemma circ_0 [simp]: "circ st p 0 = []"
  by (simp add: circ_def)

lemma nth_circ [simp]: "i < n \<Longrightarrow> circ st p n ! i = st ! ((p + i) mod length st)"
  by (simp add: circ_def)

lemma circ_add: "circ st p (m + n) = circ st p m @ circ st (p + m) n"
  by (rule nth_equalityI) (auto simp: nth_append add.assoc)

lemma circ_mod: "circ st (p mod length st) n = circ st p n"
  by (rule nth_equalityI) (simp_all add: mod_simps)

lemma mod_shift_cases:
  fixes p i C :: nat
  assumes "p < C" "i < C"
  shows "(p + i) mod C = (if p + i < C then p + i else p + i - C)"
  using assms by (simp add: mod_if)

lemma circ_slices:
  assumes "p < length st" "n \<le> length st"
  shows "slice p (min n (length st - p)) st @
           (if min n (length st - p) < n then slice 0 (n - min n (length st - p)) st else []) =
         circ st p n"
proof (rule nth_equalityI)
  show "length (slice p (min n (length st - p)) st @
           (if min n (length st - p) < n then slice 0 (n - min n (length st - p)) st else [])) =
        length (circ st p n)"
    using assms by auto
next
  fix i assume "i < length (slice p (min n (length st - p)) st @
           (if min n (length st - p) < n then slice 0 (n - min n (length st - p)) st else []))"
  then have "i < n" using assms by (auto split: if_splits)
  then show "(slice p (min n (length st - p)) st @
           (if min n (length st - p) < n then slice 0 (n - min n (length st - p)) st else [])) ! i =
        circ st p n ! i"
    using assms by (auto simp: nth_append nth_slice mod_shift_cases add.commute [of i p])
qed

text \<open>Overwriting \<open>src\<close> at offset \<open>p\<close>, wrapping at the end.\<close>

definition circ_upd :: "'a list \<Rightarrow> nat \<Rightarrow> 'a list \<Rightarrow> 'a list" where
  "circ_upd st p src =
     (let first = min (length src) (length st - p);
          st1 = splice p (take first src) st
      in if first < length src then splice 0 (drop first src) st1 else st1)"

lemma length_circ_upd [simp]:
  "p < length st \<Longrightarrow> length src \<le> length st \<Longrightarrow> length (circ_upd st p src) = length st"
  by (simp add: circ_upd_def Let_def)

lemma nth_circ_upd:
  assumes "p < length st" "length src \<le> length st" "i < length st"
  shows "circ_upd st p src ! ((p + i) mod length st) =
         (if i < length src then src ! i else st ! ((p + i) mod length st))"
  using assms
  by (auto simp: circ_upd_def Let_def mod_shift_cases nth_splice min_def split: if_splits)

lemma circ_upd_extend:
  assumes "0 < length st" "used + length src \<le> length st"
  shows "circ (circ_upd st ((p + used) mod length st) src) p (used + length src) =
         circ st p used @ src"
proof (rule nth_equalityI)
  fix j assume "j < length (circ (circ_upd st ((p + used) mod length st) src) p (used + length src))"
  then have j: "j < used + length src" by simp
  let ?C = "length st" and ?q = "(p + used) mod length st"
  let ?i = "if used \<le> j then j - used else ?C - used + j"
  have q: "?q < ?C" and i: "?i < ?C" using assms j by auto
  have "(?q + ?i) mod ?C = (p + used + ?i) mod ?C" by (simp add: mod_simps)
  also have "\<dots> = (p + j) mod ?C"
  proof (cases "used \<le> j")
    case False
    with assms have "p + used + ?i = (p + j) + ?C" by simp
    then show ?thesis by (metis mod_add_self2)
  qed (simp add: add.assoc)
  finally have eq: "(?q + ?i) mod ?C = (p + j) mod ?C" .
  have "circ_upd st ?q src ! ((p + j) mod ?C) =
        (if ?i < length src then src ! ?i else st ! ((p + j) mod ?C))"
    using nth_circ_upd [OF q _ i, of src] assms unfolding eq by simp
  then show "circ (circ_upd st ?q src) p (used + length src) ! j = (circ st p used @ src) ! j"
    using j assms q by (auto simp: nth_append)
qed simp

section \<open>Capacities are powers of two\<close>

lemma nat_and_pred_pow2: "0 < n \<Longrightarrow> n AND (n - 1) = 0 \<Longrightarrow> \<exists>k. n = 2 ^ k" for n :: nat
proof (induction n rule: less_induct)
  case (less n)
  show ?case
  proof (cases "even n")
    case True
    then obtain m where m: "n = 2 * m" by (elim evenE)
    with less.prems have "0 < m" by simp
    moreover have "n AND (n - 1) = 2 * (m AND (m - 1))"
    proof -
      have "n div 2 = m" "(n - 1) div 2 = m - 1" using m \<open>0 < m\<close> by arith+
      then show ?thesis using and_rec [of n "n - 1"] True by simp
    qed
    ultimately obtain k where "m = 2 ^ k" using less.IH [of m] less.prems m by auto
    with m show ?thesis by (intro exI [of _ "Suc k"]) simp
  next
    case False
    then obtain m where m: "n = 2 * m + 1" by (elim oddE)
    then have "n div 2 = m" "(n - 1) div 2 = m" "even (n - 1)" by simp_all
    then have "n AND (n - 1) = 2 * m" using and_rec [of n "n - 1"] by simp
    with less.prems m show ?thesis by (intro exI [of _ 0]) simp
  qed
qed

lemma rb_cap_pow2:
  assumes "rb_cap_ok cap"
  obtains k where "k < 64" "unat cap = 2 ^ k" "cap - 1 = mask k"
proof -
  have pos: "0 < unat cap" using assms by (simp add: rb_cap_ok_def word_greater_zero_iff unat_eq_0 [symmetric])
  have "unat cap AND (unat cap - 1) = unat (cap AND (cap - 1))"
    using pos by (simp add: unsigned_and_eq unat_minus_one unat_gt_0)
  also have "\<dots> = 0" using assms by (simp add: rb_cap_ok_def)
  finally obtain k where k: "unat cap = 2 ^ k" using nat_and_pred_pow2 [OF pos] by blast
  have "(2::nat) ^ k < 2 ^ 64" using unsigned_less [of cap, where ?'a = nat] k by simp
  then have "k < 64" by (rule power_less_imp_less_exp [rotated]) simp
  moreover have "cap = 2 ^ k"
  proof -
    have "cap = of_nat (unat cap)" by simp
    then show ?thesis unfolding k by simp
  qed
  ultimately show ?thesis using k by (intro that) (simp_all add: mask_eq_exp_minus_1)
qed

lemma rb_index_mod:
  assumes "rb_cap_ok cap" shows "rb_index cap pos = unat pos mod unat cap"
proof -
  obtain k where k: "unat cap = 2 ^ k" "cap - 1 = mask k" using assms by (rule rb_cap_pow2)
  have "rb_index cap pos = unat (take_bit k pos)"
    by (simp add: rb_index_def k take_bit_eq_mask)
  also have "\<dots> = take_bit k (unat pos)" by (rule unsigned_take_bit_eq)
  also have "\<dots> = unat pos mod unat cap" unfolding k by (rule take_bit_eq_mod)
  finally show ?thesis .
qed

lemma cap_dvd:
  assumes "rb_cap_ok cap" shows "unat cap dvd 2 ^ 64"
proof -
  obtain k where k: "k < 64" "unat cap = 2 ^ k" using assms by (rule rb_cap_pow2)
  show ?thesis unfolding k(2) by (rule le_imp_power_dvd) (use k in simp)
qed

lemma rb_index_add:
  "rb_cap_ok cap \<Longrightarrow> rb_index cap (pos + of_nat i) = (unat pos + i) mod unat cap"
  using cap_dvd [of cap]
  by (simp add: rb_index_mod unat_word_ariths unat_of_nat mod_mod_cancel mod_simps)

lemma rb_cap_pos: "rb_cap_ok cap \<Longrightarrow> 0 < unat cap"
  by (elim rb_cap_pow2) simp

lemma rb_read_at_circ:
  assumes "rb_cap_ok cap" "length st = unat cap" "n \<le> unat cap"
  shows "rb_read_at cap pos n st = circ st (unat pos) n"
proof -
  have "rb_index cap pos < length st" using assms rb_cap_pos [OF assms(1)] by (simp add: rb_index_mod)
  then have "rb_read_at cap pos n st = circ st (rb_index cap pos) n"
    using assms circ_slices [of "rb_index cap pos" st n] by (simp only: rb_read_at_def Let_def)
  then show ?thesis using assms circ_mod [of st "unat pos" n] by (simp add: rb_index_mod)
qed

lemma rb_write_at_circ:
  "length st = unat cap \<Longrightarrow> rb_write_at cap pos src st = circ_upd st (rb_index cap pos) src"
  by (simp add: rb_write_at_def circ_upd_def Let_def)

section \<open>The ring refines a queue of records\<close>

definition rb_frame :: "bytes \<Rightarrow> bytes" where
  "rb_frame d = put_le kEntryHeaderBytes (of_nat (length d) :: u32) @ d"

definition rb_unframe :: "bytes \<Rightarrow> (bytes \<times> bytes) option" where
  "rb_unframe bs =
     (if length bs < 4 then None
      else let n = unat (get_le (take 4 bs) :: u32) in
        if length bs < 4 + n then None else Some (slice 4 n bs, drop (4 + n) bs))"

lemma length_rb_frame [simp]: "length (rb_frame d) = 4 + length d"
  by (simp add: rb_frame_def kEntryHeaderBytes_def)

lemma u32_len: "length d < 2 ^ 32 \<Longrightarrow> unat (of_nat (length d) :: u32) = length d"
  by (simp add: unat_of_nat)

lemma rb_unframe_frame: "length d < 2 ^ 32 \<Longrightarrow> rb_unframe (rb_frame d @ rest) = Some (d, rest)"
  by (simp add: rb_unframe_def rb_frame_def kEntryHeaderBytes_def slice_append_left u32_len)

interpretation rb_codec: stream_codec rb_frame rb_unframe "\<lambda>d. length d < 2 ^ 32"
  by unfold_locales (use rb_unframe_frame in \<open>auto simp flip: length_0_conv\<close>)

text \<open>The bytes between tail and head, in order.\<close>

definition rb_bytes :: "ring \<Rightarrow> bytes" where
  "rb_bytes r = circ (rb_storage r) (unat (rb_tail r)) (unat (rb_size r))"

definition ring_rep :: "u64 \<Rightarrow> ring \<Rightarrow> bytes list \<Rightarrow> bool" where
  "ring_rep cap r es =
     (rb_cap_ok cap \<and> unat cap \<le> 2 ^ 32 \<and> length (rb_storage r) = unat cap \<and>
      unat (rb_size r) \<le> unat cap \<and> rb_bytes r = concat (map rb_frame es))"

definition rb_used :: "bytes list \<Rightarrow> nat" where
  "rb_used es = (\<Sum>d\<leftarrow>es. 4 + length d)"

lemma length_frames: "length (concat (map rb_frame es)) = rb_used es"
  by (induction es) (simp_all add: rb_used_def)

lemma rb_used_append [simp]: "rb_used (es @ fs) = rb_used es + rb_used fs"
  by (simp add: rb_used_def)

lemma rb_used_simps [simp]: "rb_used [] = 0" "rb_used (d # es) = 4 + length d + rb_used es"
  by (simp_all add: rb_used_def)

lemma ring_rep_used:
  assumes "ring_rep cap r es"
  shows "unat (rb_size r) = rb_used es" "rb_used es \<le> unat cap"
proof -
  have "unat (rb_size r) = length (rb_bytes r)" by (simp add: rb_bytes_def)
  with assms show "unat (rb_size r) = rb_used es" by (simp add: ring_rep_def length_frames)
  with assms show "rb_used es \<le> unat cap" by (simp add: ring_rep_def)
qed

lemma ring_rep_new: "rb_cap_ok cap \<Longrightarrow> unat cap \<le> 2 ^ 32 \<Longrightarrow> ring_rep cap (rb_new cap) []"
  by (simp add: ring_rep_def rb_new_def rb_bytes_def rb_size_def)

lemma ring_rep_empty: "ring_rep cap r es \<Longrightarrow> rb_head r = rb_tail r \<longleftrightarrow> es = []"
  using ring_rep_used [of cap r es] by (cases es) (auto simp: rb_size_def unat_eq_0)

lemma ring_rep_head:
  "unat (rb_head r) mod 2 ^ 64 = (unat (rb_tail r) + unat (rb_size r)) mod 2 ^ 64"
proof -
  have "rb_head r = rb_tail r + rb_size r" by (simp add: rb_size_def)
  then show ?thesis by (simp add: unat_word_ariths)
qed

lemma rb_index_head:
  assumes "ring_rep cap r es"
  shows "rb_index cap (rb_head r + of_nat k) = (unat (rb_tail r) + (rb_used es + k)) mod unat cap"
proof -
  have "rb_head r + of_nat k = rb_tail r + of_nat (unat (rb_size r) + k)"
    by (simp add: rb_size_def)
  then show ?thesis
    using assms by (simp only: ring_rep_used [OF assms] rb_index_add ring_rep_def)
qed

lemma rb_write_branches:
  assumes rep: "ring_rep cap r es" and len: "length d < 2 ^ 64" and cap4: "4 \<le> unat cap"
  shows "rb_write cap d r =
    (if unat cap < 4 + length d then (Err EC_PROTOCOL_PAYLOAD_TOO_LARGE, r)
     else if unat cap < rb_used es + 4 + length d then (Err EC_RES_MEMORY_EXHAUSTED, r)
     else (Ok (), r\<lparr>rb_storage :=
             rb_write_at cap (rb_head r + 4) d
               (rb_write_at cap (rb_head r) (put_le 4 (of_nat (length d) :: u32)) (rb_storage r)),
           rb_head := rb_head r + of_nat (4 + length d)\<rparr>))"
proof -
  have cap32: "unat cap \<le> 2 ^ 32" and size: "unat (rb_size r) = rb_used es" and used: "rb_used es \<le> unat cap"
    using rep ring_rep_used [OF rep] by (simp_all add: ring_rep_def)
  have four: "unat (cap - 4) = unat cap - 4"
    using cap4 by (subst unat_sub) (simp_all add: word_le_nat_alt)
  have sub: "unat (cap - rb_size r) = unat cap - rb_used es"
    using used size by (subst unat_sub) (simp_all add: word_le_nat_alt)
  have too_large: "of_nat (length d) > cap - 4 \<longleftrightarrow> unat cap < 4 + length d"
    using len cap4 by (auto simp: word_less_nat_alt four unat_of_nat)
  have full: "cap - rb_size r < 4 + of_nat (length d) \<longleftrightarrow> unat cap < rb_used es + 4 + length d"
    if "\<not> unat cap < 4 + length d"
  proof -
    have "unat (4 + of_nat (length d) :: u64) = 4 + length d"
      using that cap32 by (simp add: unat_word_ariths unat_of_nat)
    then show ?thesis using used by (auto simp: word_less_nat_alt sub)
  qed
  show ?thesis
    using too_large full
    by (simp add: rb_write_def Let_def kEntryHeaderBytes_def rb_size_def [symmetric])
qed

lemma rb_write_rep:
  assumes rep: "ring_rep cap r es" and fits: "rb_used es + 4 + length d \<le> unat cap"
  shows "ring_rep cap (r\<lparr>rb_storage :=
             rb_write_at cap (rb_head r + 4) d
               (rb_write_at cap (rb_head r) (put_le 4 (of_nat (length d) :: u32)) (rb_storage r)),
           rb_head := rb_head r + of_nat (4 + length d)\<rparr>) (es @ [d])" (is "ring_rep cap ?r' _")
proof -
  let ?st = "rb_storage r" and ?p = "unat (rb_tail r)" and ?u = "rb_used es"
  let ?hdr = "put_le 4 (of_nat (length d) :: u32)"
  have cap: "rb_cap_ok cap" and cap32: "unat cap \<le> 2 ^ 32" and lst: "length ?st = unat cap"
    and bytes: "circ ?st ?p ?u = concat (map rb_frame es)"
    using rep by (auto simp: ring_rep_def rb_bytes_def ring_rep_used [OF rep])
  have pos: "0 < length ?st" using rb_cap_pos [OF cap] lst by simp
  let ?st1 = "circ_upd ?st ((?p + ?u) mod length ?st) ?hdr"
  have l1: "length ?st1 = length ?st" using pos fits lst by simp
  have h1: "circ ?st1 ?p (?u + 4) = concat (map rb_frame es) @ ?hdr"
    using circ_upd_extend [OF pos, of ?u ?hdr ?p] fits lst bytes by simp
  let ?st2 = "circ_upd ?st1 ((?p + (?u + 4)) mod length ?st1) d"
  have l2: "length ?st2 = unat cap" using pos fits lst l1 by simp
  have h2: "circ ?st2 ?p (?u + 4 + length d) = concat (map rb_frame (es @ [d]))"
    using circ_upd_extend [of ?st1 "?u + 4" d ?p] h1 l1 pos fits lst
    by (simp add: rb_frame_def kEntryHeaderBytes_def)
  have st2: "rb_storage ?r' = ?st2"
    using rb_index_head [OF rep, of 0] rb_index_head [OF rep, of 4] l1 lst
    by (simp add: rb_write_at_circ)
  have sz: "rb_size ?r' = of_nat (?u + 4 + length d)"
  proof -
    have "rb_size ?r' = rb_size r + of_nat (4 + length d)" by (simp add: rb_size_def)
    also have "rb_size r = of_nat ?u"
      using ring_rep_used(1) [OF rep] by (metis of_nat_unat ucast_id)
    finally show ?thesis by simp
  qed
  have usz: "unat (rb_size ?r') = ?u + 4 + length d"
    unfolding sz unat_of_nat using fits cap32 by simp
  show ?thesis
    unfolding ring_rep_def rb_bytes_def usz st2
    using cap cap32 l2 fits h2 by simp
qed

text \<open>
  \<open>RingBuffer::write\<close> on every branch, for a ring that holds the records \<open>es\<close>: a record
  that can never fit is refused as too large, one that does not fit now as exhausted, both
  leaving the ring alone; otherwise the ring holds \<open>es\<close> followed by the record.
\<close>

theorem rb_write_refines:
  assumes "ring_rep cap r es" "length d < 2 ^ 64" "4 \<le> unat cap"
  shows "(unat cap < 4 + length d \<longrightarrow> rb_write cap d r = (Err EC_PROTOCOL_PAYLOAD_TOO_LARGE, r)) \<and>
    (4 + length d \<le> unat cap \<longrightarrow> unat cap < rb_used es + 4 + length d \<longrightarrow>
       rb_write cap d r = (Err EC_RES_MEMORY_EXHAUSTED, r)) \<and>
    (rb_used es + 4 + length d \<le> unat cap \<longrightarrow>
       (\<exists>r'. rb_write cap d r = (Ok (), r') \<and> ring_rep cap r' (es @ [d])))"
  using rb_write_branches [OF assms] rb_write_rep [OF assms(1), of d] by auto

lemma ring_rep_first:
  assumes rep: "ring_rep cap r (d # ds)"
  shows "rb_read_at cap (rb_tail r) 4 (rb_storage r) = put_le 4 (of_nat (length d) :: u32)"
    and "rb_read_at cap (rb_tail r + 4) (length d) (rb_storage r) = d"
    and "circ (rb_storage r) (unat (rb_tail r) + (4 + length d)) (rb_used ds) = concat (map rb_frame ds)"
    and "length d < 2 ^ 32"
proof -
  let ?st = "rb_storage r" and ?p = "unat (rb_tail r)" and ?n = "length d"
  let ?hdr = "put_le 4 (of_nat ?n :: u32)"
  have cap: "rb_cap_ok cap" and lst: "length ?st = unat cap" and cap32: "unat cap \<le> 2 ^ 32"
    and used: "4 + ?n + rb_used ds \<le> unat cap"
    and bytes: "circ ?st ?p (4 + (?n + rb_used ds)) = ?hdr @ d @ concat (map rb_frame ds)"
    using rep ring_rep_used [OF rep]
    by (auto simp: ring_rep_def rb_bytes_def rb_frame_def kEntryHeaderBytes_def add.assoc)
  have parts: "circ ?st ?p 4 = ?hdr" "circ ?st (?p + 4) ?n = d"
    "circ ?st (?p + 4 + ?n) (rb_used ds) = concat (map rb_frame ds)"
    using bytes by (simp_all add: circ_add append_eq_append_conv)
  show "rb_read_at cap (rb_tail r) 4 ?st = ?hdr"
    using parts(1) used by (simp add: rb_read_at_circ [OF cap lst])
  have "circ ?st (unat (rb_tail r + 4)) ?n = circ ?st (?p + 4) ?n"
  proof -
    have "unat (rb_tail r + of_nat 4) mod unat cap = (?p + 4) mod unat cap"
      using rb_index_add [OF cap, of "rb_tail r" 4] by (simp only: rb_index_mod [OF cap])
    then show ?thesis
      by (metis (no_types) circ_mod lst of_nat_numeral)
  qed
  then show "rb_read_at cap (rb_tail r + 4) ?n ?st = d"
    using parts(2) used by (simp add: rb_read_at_circ [OF cap lst])
  show "circ ?st (?p + (4 + ?n)) (rb_used ds) = concat (map rb_frame ds)"
    using parts(3) by (simp add: add.assoc)
  show "?n < 2 ^ 32" using used cap32 by simp
qed

lemma rb_read_branches:
  assumes rep: "ring_rep cap r (d # ds)"
  shows "rb_read cap out r =
    (if length out < length d then (Err EC_PROTOCOL_TRUNCATED_BUFFER, out, r)
     else (Ok (of_nat (length d)), splice 0 d out,
           r\<lparr>rb_tail := rb_tail r + of_nat (4 + length d)\<rparr>))"
proof -
  note first = ring_rep_first [OF rep]
  have len: "unat (get_le (put_le 4 (of_nat (length d) :: u32)) :: u32) = length d"
    using first(4) by (simp add: u32_len)
  have ucast: "ucast (of_nat (length d) :: u32) = (of_nat (length d) :: u64)"
    using first(4) by (simp add: unsigned_of_nat take_bit_nat_eq_self)
  have "rb_head r \<noteq> rb_tail r" using ring_rep_empty [OF rep] by simp
  then show ?thesis
    using len ucast first(1,2) by (simp add: rb_read_def Let_def kEntryHeaderBytes_def add.assoc)
qed

lemma rb_read_rep:
  assumes rep: "ring_rep cap r (d # ds)"
  shows "ring_rep cap (r\<lparr>rb_tail := rb_tail r + of_nat (4 + length d)\<rparr>) ds" (is "ring_rep cap ?r' _")
proof -
  have cap: "rb_cap_ok cap" and cap32: "unat cap \<le> 2 ^ 32" and lst: "length (rb_storage r) = unat cap"
    and used: "4 + length d + rb_used ds \<le> unat cap"
    using rep ring_rep_used [OF rep] by (auto simp: ring_rep_def)
  have sz: "rb_size ?r' = of_nat (rb_used ds)"
  proof -
    have "rb_size r = of_nat (4 + length d + rb_used ds)"
      using ring_rep_used(1) [OF rep] by (metis of_nat_unat rb_used_simps(2) ucast_id)
    then show ?thesis by (simp add: rb_size_def algebra_simps)
  qed
  have usz: "unat (rb_size ?r') = rb_used ds"
    unfolding sz unat_of_nat using used cap32 by simp
  have "circ (rb_storage r) (unat (rb_tail ?r')) (rb_used ds) =
        circ (rb_storage r) (unat (rb_tail r) + (4 + length d)) (rb_used ds)"
  proof -
    have "unat (rb_tail ?r') mod unat cap = (unat (rb_tail r) + (4 + length d)) mod unat cap"
      using rb_index_add [OF cap, of "rb_tail r" "4 + length d"]
      by (simp only: rb_index_mod [OF cap]) simp
    then show ?thesis by (metis circ_mod lst)
  qed
  then show ?thesis
    unfolding ring_rep_def rb_bytes_def usz
    using cap cap32 lst used ring_rep_first(3) [OF rep] by simp
qed

text \<open>
  \<open>RingBuffer::read\<close> on every branch: an empty ring reports exhaustion, a caller's
  buffer that is too small reports truncation and consumes nothing; otherwise the oldest
  record is copied to the front of the buffer and leaves the ring.
\<close>

theorem rb_read_refines:
  assumes "ring_rep cap r es"
  shows "case es of
      [] \<Rightarrow> rb_read cap out r = (Err EC_RES_MEMORY_EXHAUSTED, out, r)
    | d # ds \<Rightarrow>
        (length out < length d \<longrightarrow> rb_read cap out r = (Err EC_PROTOCOL_TRUNCATED_BUFFER, out, r)) \<and>
        (length d \<le> length out \<longrightarrow>
           (\<exists>r'. rb_read cap out r = (Ok (of_nat (length d)), d @ drop (length d) out, r') \<and>
                 ring_rep cap r' ds))"
proof (cases es)
  case Nil
  with assms ring_rep_empty [OF assms] show ?thesis by (simp add: rb_read_def Let_def)
next
  case (Cons d ds)
  with assms show ?thesis
    by (auto simp: rb_read_branches [of cap r d ds] splice_def dest: rb_read_rep)
qed

lemma rb_peek_first:
  "ring_rep cap r (d # ds) \<Longrightarrow> rb_peek_size cap r = Ok (of_nat (length d))"
  using ring_rep_empty [of cap r "d # ds"] ring_rep_first(1) [of cap r d ds]
  by (simp add: rb_peek_size_def Let_def kEntryHeaderBytes_def)

section \<open>Runs of the static ring are first-in first-out\<close>

definition rb_push :: "u64 \<Rightarrow> bytes \<Rightarrow> ring \<Rightarrow> ring option" where
  "rb_push cap d r =
     (if length d < 2 ^ 64
      then (case rb_write cap d r of (Ok _, r') \<Rightarrow> Some r' | _ \<Rightarrow> None) else None)"

text \<open>The consumer passes a buffer of the ring's own capacity.\<close>

definition rb_pop :: "u64 \<Rightarrow> ring \<Rightarrow> (bytes \<times> ring) option" where
  "rb_pop cap r =
     (case rb_read cap (replicate (unat cap) 0) r of
        (Ok n, out, r') \<Rightarrow> Some (take (unat n) out, r') | _ \<Rightarrow> None)"

definition rb_items :: "ring \<Rightarrow> bytes list" where
  "rb_items r = (case read_stream rb_unframe (rb_bytes r) of None \<Rightarrow> [] | Some es \<Rightarrow> es)"

definition rb_good :: "u64 \<Rightarrow> ring \<Rightarrow> bool" where
  "rb_good cap r = (4 \<le> unat cap \<and> ring_rep cap r (rb_items r))"

lemma ring_rep_short:
  assumes "ring_rep cap r es" "d \<in> set es" shows "length d < 2 ^ 32"
proof -
  have "4 + length d \<le> rb_used es"
    using assms(2) member_le_sum_list [of "4 + length d" "map (\<lambda>d. 4 + length d) es"]
    by (force simp: rb_used_def)
  with ring_rep_used [OF assms(1)] assms(1) show ?thesis by (simp add: ring_rep_def)
qed

lemma rb_items_rep: "ring_rep cap r es \<Longrightarrow> rb_items r = es"
  using rb_codec.read_stream_concat [of es] ring_rep_short
  by (auto simp: rb_items_def ring_rep_def)

lemma rb_good_iff: "rb_good cap r \<longleftrightarrow> 4 \<le> unat cap \<and> (\<exists>es. ring_rep cap r es)"
  by (auto simp: rb_good_def dest: rb_items_rep)

lemma rb_push_good:
  assumes "rb_good cap r" "rb_push cap d r = Some r'"
  shows "rb_good cap r' \<and> rb_items r' = rb_items r @ [d]"
proof -
  have rep: "ring_rep cap r (rb_items r)" and cap: "4 \<le> unat cap" and len: "length d < 2 ^ 64"
    using assms by (auto simp: rb_good_def rb_push_def split: if_splits)
  have "ring_rep cap r' (rb_items r @ [d])"
    using assms(2) rb_write_branches [OF rep len cap] rb_write_rep [OF rep, of d]
    by (auto simp: rb_push_def split: if_splits)
  with cap rb_items_rep [OF this] show ?thesis by (simp add: rb_good_def)
qed

lemma rb_pop_branches:
  assumes rep: "ring_rep cap r es"
  shows "rb_pop cap r = (case es of [] \<Rightarrow> None
     | d # ds \<Rightarrow> Some (d, r\<lparr>rb_tail := rb_tail r + of_nat (4 + length d)\<rparr>))"
proof (cases es)
  case Nil
  with rep ring_rep_empty [OF rep] show ?thesis by (simp add: rb_pop_def rb_read_def Let_def)
next
  case (Cons d ds)
  have "length d \<le> unat cap" using ring_rep_used [OF rep] Cons by simp
  moreover have "unat (of_nat (length d) :: u64) = length d"
    using ring_rep_short [OF rep, of d] Cons by (simp add: unat_of_nat)
  ultimately show ?thesis
    using Cons rep by (simp add: rb_pop_def rb_read_branches [of cap r d ds] splice_def)
qed

interpretation rbq: fifo_queue rb_items "rb_good cap" "rb_push cap" "rb_pop cap" for cap
proof unfold_locales
  fix r x r'
  assume good: "rb_good cap r" and pop: "rb_pop cap r = Some (x, r')"
  then have rep: "ring_rep cap r (rb_items r)" and cap: "4 \<le> unat cap" by (auto simp: rb_good_def)
  obtain ds where ds: "rb_items r = x # ds" "ring_rep cap r' ds"
    using pop rb_pop_branches [OF rep] rb_read_rep [of cap r x] rep
    by (auto split: list.splits)
  with cap rb_items_rep [OF ds(2)] show "rb_good cap r' \<and> rb_items r = x # rb_items r'"
    by (auto simp: rb_good_iff)
next
  fix r assume "rb_good cap r"
  then show "rb_pop cap r = None \<longleftrightarrow> rb_items r = []"
    by (auto simp: rb_good_def rb_pop_branches split: list.splits)
qed (use rb_push_good in blast)

text \<open>
  C14. Any sequence of writes and reads on a fresh ring: the records that the reads return,
  followed by the records still queued, are exactly the records that the writes accepted,
  in order. Nothing is lost, duplicated or reordered, across every wrap of the storage and
  of the position counters.
\<close>

theorem ring_is_fifo:
  assumes "rb_cap_ok cap" "4 \<le> unat cap" "unat cap \<le> 2 ^ 32"
    and "queue_run (rb_push cap) (rb_pop cap) ops (rb_new cap) = (ins, outs, t)"
  shows "ins = outs @ rb_items t"
proof (rule rbq.run_fifo_from_empty [OF _ _ assms(4)])
  have "ring_rep cap (rb_new cap) []" using assms by (simp add: ring_rep_new)
  with assms(2) show "rb_good cap (rb_new cap)" "rb_items (rb_new cap) = []"
    by (auto simp: rb_good_iff rb_items_rep)
qed

section \<open>The dynamic ring agrees where its header copy stays inside\<close>

definition dr_ok :: "dring \<Rightarrow> bool" where
  "dr_ok r = (rb_cap_ok (dr_capacity r) \<and> 4 \<le> unat (dr_capacity r) \<and>
     unat (dr_capacity r) \<le> 2 ^ 32 \<and> length (dr_storage r) = unat (dr_capacity r))"

definition dr_of :: "u64 \<Rightarrow> ring \<Rightarrow> dring" where
  "dr_of cap s = \<lparr>dr_head = rb_head s, dr_capacity = cap, dr_storage = rb_storage s, dr_tail = rb_tail s\<rparr>"

lemma dr_of_static: "dr_of (dr_capacity r) (dr_static r) = r"
  by (simp add: dr_of_def dr_static_def)

lemma dr_index_is_rb: "dr_index pos cap = rb_index cap pos"
  by (simp add: dr_index_def rb_index_def)

lemma dr_data_pos:
  assumes "rb_cap_ok cap"
  shows "unat ((of_nat (rb_index cap h) + of_nat k) AND (cap - 1)) = rb_index cap (h + of_nat k)"
proof -
  have "unat (of_nat (rb_index cap h) :: u64) mod unat cap = rb_index cap h"
    using rb_cap_pos [OF assms] unsigned_less [of h, where ?'a = nat] cap_dvd [OF assms]
    by (simp add: rb_index_mod [OF assms] unat_of_nat mod_mod_cancel)
  then have "rb_index cap (of_nat (rb_index cap h) + of_nat k) = rb_index cap (h + of_nat k)"
    unfolding rb_index_add [OF assms] by (metis assms mod_add_left_eq rb_index_mod)
  then show ?thesis by (simp add: rb_index_def)
qed

lemma rb_write_at_inside:
  "rb_index cap pos + length src \<le> unat cap \<Longrightarrow> rb_write_at cap pos src st = splice (rb_index cap pos) src st"
  by (simp add: rb_write_at_def Let_def)

lemma rb_write_at_across:
  "rb_cap_ok cap \<Longrightarrow> \<not> rb_index cap pos + length src \<le> unat cap \<Longrightarrow>
   rb_write_at cap pos src st =
     splice 0 (drop (unat cap - rb_index cap pos) src)
       (splice (rb_index cap pos) (take (unat cap - rb_index cap pos) src) st)"
proof -
  assume cap: "rb_cap_ok cap" and across: "\<not> rb_index cap pos + length src \<le> unat cap"
  have "rb_index cap pos < unat cap" using rb_cap_pos [OF cap] by (simp add: rb_index_mod [OF cap])
  with across have "unat cap - rb_index cap pos < length src" by linarith
  then show ?thesis by (simp add: rb_write_at_def Let_def)
qed

text \<open>
  \<open>DynamicRingBuffer::write\<close> is the static ring's write, except that an accepted record
  whose header would start fewer than four bytes before the end of the storage makes the
  header's \<open>memcpy\<close> run past the end of the vector (\<open>None\<close>).
\<close>

theorem dr_write_cases:
  assumes "dr_ok r"
  shows "dr_write d r =
    (if fst (rb_write (dr_capacity r) d (dr_static r)) = Ok () \<and>
        unat (dr_capacity r) < dr_index (dr_head r) (dr_capacity r) + 4
     then None
     else Some (map_prod id (dr_of (dr_capacity r)) (rb_write (dr_capacity r) d (dr_static r))))"
proof -
  let ?cap = "dr_capacity r"
  have ok: "rb_cap_ok ?cap" and len: "length (dr_storage r) = unat ?cap" using assms by (auto simp: dr_ok_def)
  show ?thesis
    unfolding dr_write_def rb_write_def Let_def dr_index_is_rb dr_data_pos [OF ok]
    using len
    by (auto simp: dr_static_def dr_of_def kEntryHeaderBytes_def rb_write_at_inside rb_write_at_across [OF ok])
qed

theorem dr_read_cases:
  assumes "dr_ok r"
  shows "dr_read out r =
    (if dr_head r \<noteq> dr_tail r \<and> unat (dr_capacity r) < dr_index (dr_tail r) (dr_capacity r) + 4
     then None
     else Some (case rb_read (dr_capacity r) out (dr_static r) of
                  (res, out', s') \<Rightarrow> (res, out', dr_of (dr_capacity r) s')))"
proof -
  let ?cap = "dr_capacity r"
  have ok: "rb_cap_ok ?cap" and len: "length (dr_storage r) = unat ?cap" using assms by (auto simp: dr_ok_def)
  have idx: "rb_index ?cap pos < unat ?cap" for pos
    using rb_cap_pos [OF ok] by (simp add: rb_index_mod [OF ok])
  have body: "rb_read_at ?cap pos n (dr_storage r) =
      (if rb_index ?cap pos + n \<le> unat ?cap then slice (rb_index ?cap pos) n (dr_storage r)
       else slice (rb_index ?cap pos) (unat ?cap - rb_index ?cap pos) (dr_storage r) @
            slice 0 (n - (unat ?cap - rb_index ?cap pos)) (dr_storage r))" for pos n
    using idx [of pos] by (auto simp: rb_read_at_def Let_def min_def)
  have hdr: "rb_index ?cap (dr_tail r) + 4 \<le> unat ?cap \<Longrightarrow>
      rb_read_at ?cap (dr_tail r) 4 (dr_storage r) = slice (rb_index ?cap (dr_tail r)) 4 (dr_storage r)"
    by (simp add: body)
  show ?thesis
    unfolding dr_read_def rb_read_def Let_def dr_index_is_rb
    using len hdr
    by (auto simp: dr_static_def dr_of_def kEntryHeaderBytes_def body)
qed

definition dr_aligned :: "dring \<Rightarrow> bool" where
  "dr_aligned r = (dr_ok r \<and> 4 dvd unat (dr_head r) \<and> 4 dvd unat (dr_tail r))"

lemma dr_aligned_index:
  assumes "rb_cap_ok cap" "4 \<le> unat cap" "4 dvd unat pos"
  shows "dr_index pos cap + 4 \<le> unat cap"
proof -
  obtain k where k: "unat cap = 2 ^ k" using assms(1) by (rule rb_cap_pow2)
  have "2 \<le> k" using assms(2) unfolding k by (cases "k < 2") (auto simp: less_2_cases_iff)
  then have "(2::nat) ^ 2 dvd 2 ^ k" by (rule le_imp_power_dvd)
  then have four: "4 dvd unat cap" by (simp add: k)
  let ?i = "unat pos mod unat cap"
  have "4 dvd ?i" using assms(3) four by (simp add: dvd_mod)
  moreover have "?i < unat cap" using assms(2) by simp
  ultimately have "?i + 4 \<le> unat cap" using four by (elim dvdE) auto
  then show ?thesis by (simp add: dr_index_is_rb rb_index_mod [OF assms(1)])
qed

lemma dvd4_add:
  fixes a b :: u64
  assumes "4 dvd unat a" "4 dvd unat b" shows "4 dvd unat (a + b)"
proof -
  have "(4::nat) dvd 2 ^ 64" by simp
  with assms show ?thesis by (simp add: unat_word_ariths dvd_mod)
qed

text \<open>
  When every record's length is a multiple of four (what the class comment promises of
  its data), the dynamic ring's write never leaves the storage, gives the static ring's
  result and keeps its positions aligned, so the next operation is safe again.
\<close>

theorem dr_aligned_write_safe:
  assumes "dr_aligned r" "4 dvd length d" "length d < 2 ^ 64"
  shows "\<exists>res r'. dr_write d r = Some (res, r') \<and>
    rb_write (dr_capacity r) d (dr_static r) = (res, dr_static r') \<and> dr_aligned r'"
proof -
  let ?cap = "dr_capacity r" and ?w = "rb_write (dr_capacity r) d (dr_static r)"
  have ok: "dr_ok r" and cap: "rb_cap_ok ?cap" "4 \<le> unat ?cap" and h: "4 dvd unat (dr_head r)"
    using assms(1) by (auto simp: dr_aligned_def dr_ok_def)
  have "dr_index (dr_head r) ?cap + 4 \<le> unat ?cap" using cap h by (rule dr_aligned_index)
  then have wr: "dr_write d r = Some (fst ?w, dr_of ?cap (snd ?w))"
    using dr_write_cases [OF ok, of d] by (simp add: map_prod_def split_beta)
  have stat: "dr_static (dr_of ?cap (snd ?w)) = snd ?w" by (simp add: dr_static_def dr_of_def)
  have "4 dvd unat (of_nat (length d) :: u64)" using assms by (simp add: unat_of_nat)
  then have need: "4 dvd unat (4 + of_nat (length d) :: u64)" by (intro dvd4_add) simp_all
  have al: "4 dvd unat (dr_head r + (4 + of_nat (length d)))" using h need by (rule dvd4_add)
  have "dr_aligned (dr_of ?cap (snd ?w))"
  proof (cases "fst ?w = Ok ()")
    case True
    have len: "length (rb_write_at ?cap pos src st) = unat ?cap"
      if "length st = unat ?cap" "length src \<le> unat ?cap" for pos src st
      using that rb_cap_pos [OF cap(1)] by (simp add: rb_write_at_circ rb_index_mod [OF cap(1)])
    have "length d \<le> unat ?cap"
      using True assms(3) cap(2)
      by (auto simp: rb_write_def Let_def kEntryHeaderBytes_def word_le_nat_alt not_less unat_of_nat
          unat_sub word_less_nat_alt split: if_splits)
    then show ?thesis
      using True assms(1) al len cap(2)
      by (auto simp: rb_write_def Let_def dr_aligned_def dr_ok_def dr_of_def dr_static_def
          kEntryHeaderBytes_def split: if_splits)
  next
    case False
    then have "snd ?w = dr_static r" by (auto simp: rb_write_def Let_def split: if_splits)
    then show ?thesis using assms(1) dr_of_static [of r] by simp
  qed
  then show ?thesis using wr stat by (metis prod.collapse)
qed

section \<open>Concrete rings\<close>

lemma rb_cap_ok_16: "rb_cap_ok 16"
  by (simp add: rb_cap_ok_def)

lemma ring_rep_new_16: "ring_rep 16 (rb_new 16) []"
  by (simp add: ring_rep_new rb_cap_ok_16)

lemmas ring_eval = rb_new_def rb_push_def rb_pop_def rb_write_def rb_read_def rb_write_at_def
  rb_read_at_def rb_index_def rb_size_def kEntryHeaderBytes_def Let_def put_le_def get_le_def
  splice_def slice_def

theorem rb_write_refines_witness:
  "\<exists>r'. rb_write 16 [1, 2, 3] (rb_new 16) = (Ok (), r') \<and> ring_rep 16 r' [[1, 2, 3]]"
  using rb_write_refines [OF ring_rep_new_16, of "[1, 2, 3]"] by simp

lemma ring_rep_one_16:
  "\<exists>r. rb_write 16 [1, 2, 3] (rb_new 16) = (Ok (), r) \<and> ring_rep 16 r [[1, 2, 3]]"
  using rb_write_branches [OF ring_rep_new_16, of "[1, 2, 3]"]
    rb_write_rep [OF ring_rep_new_16, of "[1, 2, 3]"] by simp

theorem rb_read_refines_witness:
  "\<exists>r r'. rb_write 16 [1, 2, 3] (rb_new 16) = (Ok (), r) \<and>
     rb_read 16 [0, 0, 0, 0] r = (Ok 3, [1, 2, 3, 0], r') \<and> ring_rep 16 r' []"
  using ring_rep_one_16 rb_read_refines [of 16 _ "[[1, 2, 3]]" "[0, 0, 0, 0]"] by fastforce

theorem ring_is_fifo_witness:
  "fst (queue_run (rb_push 16) (rb_pop 16) [Push [1, 2], Push [3], Pop] (rb_new 16)) = [[1, 2], [3]] \<and>
   (case queue_run (rb_push 16) (rb_pop 16) [Push [1, 2], Push [3], Pop] (rb_new 16) of
      (ins, outs, t) \<Rightarrow> ins = outs @ rb_items t)"
proof -
  obtain ins outs t where run:
    "queue_run (rb_push 16) (rb_pop 16) [Push [1, 2], Push [3], Pop] (rb_new 16) = (ins, outs, t)"
    by (cases "queue_run (rb_push 16) (rb_pop 16) [Push [1, 2], Push [3], Pop] (rb_new 16)") auto
  have "ins = outs @ rb_items t"
    by (rule ring_is_fifo [OF rb_cap_ok_16 _ _ run]) simp_all
  moreover have "fst (queue_run (rb_push 16) (rb_pop 16) [Push [1, 2], Push [3], Pop] (rb_new 16)) = [[1, 2], [3]]"
    by (simp add: ring_eval)
  ultimately show ?thesis using run by simp
qed

definition dr_16 :: dring where
  "dr_16 = \<lparr>dr_head = 0, dr_capacity = 16, dr_storage = replicate 16 0, dr_tail = 0\<rparr>"

lemma dr_ok_16: "dr_ok (dr_16\<lparr>dr_head := h, dr_tail := t\<rparr>)"
  by (simp add: dr_ok_def dr_16_def rb_cap_ok_16)

theorem dr_write_cases_witness:
  "dr_write [1] (dr_16\<lparr>dr_head := 13, dr_tail := 13\<rparr>) = None"
  using dr_write_cases [OF dr_ok_16, of "[1]" 13 13]
  by (simp add: dr_16_def dr_static_def ring_eval dr_index_def)

theorem dr_aligned_write_safe_witness:
  "\<exists>res r'. dr_write (replicate 4 1) (dr_16\<lparr>dr_head := 12, dr_tail := 12\<rparr>) = Some (res, r') \<and> dr_aligned r'"
proof -
  have "dr_aligned (dr_16\<lparr>dr_head := 12, dr_tail := 12\<rparr>)"
    by (simp add: dr_aligned_def dr_ok_16)
  from dr_aligned_write_safe [OF this, of "(replicate 4 1)"] show ?thesis by auto
qed

text \<open>
  The overrun is reached from a fresh ring of 16 bytes: write nine bytes, read them back,
  and the next header would be copied to offsets 13 to 16 of a 16-byte vector.
\<close>

theorem dr_header_overrun_reached:
  "\<exists>r0 r1 r2 out. dr_new 16 = Some r0 \<and> dr_write (replicate 9 7) r0 = Some (Ok (), r1) \<and>
     dr_read (replicate 16 0) r1 = Some (Ok 9, out, r2) \<and> dr_write [1] r2 = None"
  by (simp add: dr_new_def dr_write_def dr_read_def dr_index_def ring_eval)

end
