(* ===== verification/Step_Systems.thy ===== *)
theory Step_Systems
  imports Main
begin

text \<open>
  The contracts of step relations, as locales. \<open>step_system\<close>: a start state and an invariant that
  every step keeps. \<open>ranked_system\<close>: beside it a number that falls with every step inside a phase, so that no
  run stays in it for long. Each is interpreted in the theories of the components with several
  threads or processes.
\<close>

locale step_system =
  fixes step :: "'s \<Rightarrow> 's \<Rightarrow> bool"
    and start :: 's
    and inv :: "'s \<Rightarrow> bool"
  assumes start_inv: "inv start"
    and step_inv: "step s t \<Longrightarrow> inv s \<Longrightarrow> inv t"
begin

lemma steps_inv: "step\<^sup>*\<^sup>* s t \<Longrightarrow> inv s \<Longrightarrow> inv t"
  by (induction rule: rtranclp_induct) (auto intro: step_inv)

lemma reachable_inv: "step\<^sup>*\<^sup>* start t \<Longrightarrow> inv t"
  using steps_inv start_inv by blast

end

section \<open>Phases that end\<close>

text \<open>\<open>n\<close> steps in a row after each of which \<open>busy\<close> still holds.\<close>

inductive stays :: "('s \<Rightarrow> 's \<Rightarrow> bool) \<Rightarrow> ('s \<Rightarrow> bool) \<Rightarrow> nat \<Rightarrow> 's \<Rightarrow> bool" for step busy where
  stays_now: "busy s \<Longrightarrow> stays step busy 0 s"
| stays_step: "busy s \<Longrightarrow> step s t \<Longrightarrow> stays step busy n t \<Longrightarrow> stays step busy (Suc n) s"

inductive_cases stays_busyE: "stays step busy n s"

locale ranked_system = step_system +
  fixes busy :: "'s \<Rightarrow> bool"
    and rank :: "'s \<Rightarrow> nat"
  assumes falls: "step s t \<Longrightarrow> inv s \<Longrightarrow> busy s \<Longrightarrow> busy t \<Longrightarrow> rank t < rank s"
begin

lemma stays_bound: "stays step busy n s \<Longrightarrow> inv s \<Longrightarrow> n \<le> rank s"
proof (induction rule: stays.induct)
  case (stays_step s t n)
  from stays_step.hyps(3) have "busy t" by (auto elim: stays_busyE)
  with stays_step falls [of s t] step_inv [of s t] show ?case by simp
qed simp

text \<open>Every state leads out of the phase, or to a state of it without a next step.\<close>

lemma leads_out: "inv s \<Longrightarrow> \<exists>t. step\<^sup>*\<^sup>* s t \<and> (\<not> busy t \<or> {u. step t u} = {})"
proof (induction s rule: measure_induct_rule [where f = rank])
  case (less s)
  show ?case
  proof (cases "busy s \<and> (\<exists>u. step s u)")
    case True
    then obtain u where u: "step s u" "busy s" by blast
    show ?thesis
    proof (cases "busy u")
      case True
      with less.IH [of u] falls [OF u(1) less.prems u(2)] step_inv [OF u(1) less.prems]
      obtain t where "step\<^sup>*\<^sup>* u t" "\<not> busy t \<or> {v. step t v} = {}" by blast
      with u(1) show ?thesis by (meson converse_rtranclp_into_rtranclp)
    qed (use u(1) in blast)
  qed auto
qed

end

end
