(* ===== verification/Ring_Threads.thy ===== *)
theory Ring_Threads
  imports Ring_Buffer Step_Systems "HOL-Library.Sublist"
begin

text \<open>
  \<open>src/core/buffer/buffer.hpp\<close> once more: \<open>RingBuffer::write\<close> and \<open>read\<close> in two threads. A step
  is one atomic load or store, or the copying of one byte (in any order, as for \<open>memcpy\<close>). The
  two atomic positions are the lists of all values stored in them; an acquiring load may answer
  any value that is not older than the one the thread saw last, which is what the C++ memory
  model allows for a variable with one writer. Each thread reads its own position exactly.

  Shown: whatever the interleaving, the consumer gets the accepted records in order; the two
  threads never touch the same byte at the same time; and no call waits for the other thread.
\<close>

section \<open>States and steps\<close>

datatype producer_pc = P_idle | P_copy bytes "nat set"

text \<open>
  The consumer's buffer has \<open>None\<close> for \<open>peek_size\<close>, which has no buffer, or its size; \<open>got\<close> holds
  the bytes read so far.
\<close>

datatype consumer_pc = C_idle | C_header "nat option" "nat \<rightharpoonup> byte" | C_data nat "nat \<rightharpoonup> byte"

record ring_threads =
  rt_storage :: bytes
  rt_heads :: "u64 list"
  rt_tails :: "u64 list"
  pr_pc :: producer_pc
  pr_seen :: nat
  co_pc :: consumer_pc
  co_seen :: nat
  rt_accepted :: "bytes list"
  rt_delivered :: "bytes list"

definition rt_new :: "u64 \<Rightarrow> ring_threads" where
  "rt_new cap = \<lparr>rt_storage = replicate (unat cap) 0, rt_heads = [0], rt_tails = [0], pr_pc = P_idle, pr_seen = 0,
     co_pc = C_idle, co_seen = 0, rt_accepted = [], rt_delivered = []\<rparr>"

definition rt_need :: "bytes \<Rightarrow> u64" where
  "rt_need data = of_nat kEntryHeaderBytes + of_nat (length data)"

definition got_bytes :: "nat \<Rightarrow> (nat \<rightharpoonup> byte) \<Rightarrow> bytes" where
  "got_bytes n got = map (\<lambda>k. the (got k)) [0..<n]"

datatype ring_thread = Producer | Consumer

inductive rstep :: "u64 \<Rightarrow> ring_thread \<Rightarrow> ring_threads \<Rightarrow> ring_threads \<Rightarrow> bool" for cap where
  write_full: "\<lbrakk>pr_pc s = P_idle; of_nat (length data) \<le> cap - of_nat kEntryHeaderBytes; length data < 2 ^ 64;
      pr_seen s \<le> i; i < length (rt_tails s); cap - (last (rt_heads s) - rt_tails s ! i) < rt_need data\<rbrakk> \<Longrightarrow>
    rstep cap Producer s (s\<lparr>pr_seen := i\<rparr>)"
| write_start: "\<lbrakk>pr_pc s = P_idle; of_nat (length data) \<le> cap - of_nat kEntryHeaderBytes; length data < 2 ^ 64;
      pr_seen s \<le> i; i < length (rt_tails s); \<not> cap - (last (rt_heads s) - rt_tails s ! i) < rt_need data\<rbrakk> \<Longrightarrow>
    rstep cap Producer s (s\<lparr>pr_seen := i, pr_pc := P_copy data {..<kEntryHeaderBytes + length data}\<rparr>)"
| write_byte: "\<lbrakk>pr_pc s = P_copy data todo; k \<in> todo\<rbrakk> \<Longrightarrow>
    rstep cap Producer s (s\<lparr>pr_pc := P_copy data (todo - {k}),
      rt_storage := (rt_storage s)[rb_index cap (last (rt_heads s) + of_nat k) := rb_frame data ! k]\<rparr>)"
| write_publish: "pr_pc s = P_copy data {} \<Longrightarrow>
    rstep cap Producer s (s\<lparr>pr_pc := P_idle, rt_heads := rt_heads s @ [last (rt_heads s) + rt_need data],
      rt_accepted := rt_accepted s @ [data]\<rparr>)"
| read_empty: "\<lbrakk>co_pc s = C_idle; co_seen s \<le> i; i < length (rt_heads s); rt_heads s ! i = last (rt_tails s)\<rbrakk> \<Longrightarrow>
    rstep cap Consumer s (s\<lparr>co_seen := i\<rparr>)"
| read_start: "\<lbrakk>co_pc s = C_idle; co_seen s \<le> i; i < length (rt_heads s); rt_heads s ! i \<noteq> last (rt_tails s)\<rbrakk> \<Longrightarrow>
    rstep cap Consumer s (s\<lparr>co_seen := i, co_pc := C_header out Map.empty\<rparr>)"
| header_byte: "\<lbrakk>co_pc s = C_header out got; k < kEntryHeaderBytes; got k = None\<rbrakk> \<Longrightarrow>
    rstep cap Consumer s (s\<lparr>co_pc := C_header out (got(k \<mapsto> rt_storage s ! rb_index cap (last (rt_tails s) + of_nat k)))\<rparr>)"
| header_done: "\<lbrakk>co_pc s = C_header out got; dom got = {..<kEntryHeaderBytes};
      len = unat (get_le (got_bytes kEntryHeaderBytes got) :: u32)\<rbrakk> \<Longrightarrow>
    rstep cap Consumer s (s\<lparr>co_pc := (case out of None \<Rightarrow> C_idle
      | Some n \<Rightarrow> if n < len then C_idle else C_data len Map.empty)\<rparr>)"
| data_byte: "\<lbrakk>co_pc s = C_data len got; k < len; got k = None\<rbrakk> \<Longrightarrow>
    rstep cap Consumer s (s\<lparr>co_pc := C_data len (got(k \<mapsto>
      rt_storage s ! rb_index cap (last (rt_tails s) + of_nat kEntryHeaderBytes + of_nat k)))\<rparr>)"
| read_release: "\<lbrakk>co_pc s = C_data len got; dom got = {..<len}\<rbrakk> \<Longrightarrow>
    rstep cap Consumer s (s\<lparr>co_pc := C_idle,
      rt_tails := rt_tails s @ [last (rt_tails s) + of_nat kEntryHeaderBytes + of_nat len],
      rt_delivered := rt_delivered s @ [got_bytes len got]\<rparr>)"

inductive_cases rstepE: "rstep cap l s s'"

definition rnext :: "u64 \<Rightarrow> ring_threads \<Rightarrow> ring_threads \<Rightarrow> bool" where
  "rnext cap s t = (\<exists>l. rstep cap l s t)"

definition ring_reachable :: "u64 \<Rightarrow> ring_threads set" where
  "ring_reachable cap = {s. (rnext cap)\<^sup>*\<^sup>* (rt_new cap) s}"

text \<open>The storage indices that each thread may touch in its next step.\<close>

definition writing :: "u64 \<Rightarrow> ring_threads \<Rightarrow> nat set" where
  "writing cap s = (case pr_pc s of P_copy data todo \<Rightarrow> (\<lambda>k. rb_index cap (last (rt_heads s) + of_nat k)) ` todo | P_idle \<Rightarrow> {})"

definition reading :: "u64 \<Rightarrow> ring_threads \<Rightarrow> nat set" where
  "reading cap s = (case co_pc s of
      C_header out got \<Rightarrow> (\<lambda>k. rb_index cap (last (rt_tails s) + of_nat k)) ` ({..<kEntryHeaderBytes} - dom got)
    | C_data len got \<Rightarrow> (\<lambda>k. rb_index cap (last (rt_tails s) + of_nat kEntryHeaderBytes + of_nat k)) ` ({..<len} - dom got)
    | C_idle \<Rightarrow> {})"

section \<open>Positions and the stream of frames\<close>

definition positions :: "bytes list \<Rightarrow> u64 list" where
  "positions es = map (\<lambda>i. of_nat (rb_used (take i es))) [0..<Suc (length es)]"

lemma length_positions [simp]: "length (positions es) = Suc (length es)"
  by (simp add: positions_def)

lemma positions_nth: "i \<le> length es \<Longrightarrow> positions es ! i = of_nat (rb_used (take i es))"
  unfolding positions_def by (subst nth_map) (simp_all del: upt_Suc)

lemma last_positions [simp]: "last (positions es) = of_nat (rb_used es)"
  by (simp add: positions_def)

lemma positions_snoc: "positions (es @ [d]) = positions es @ [of_nat (rb_used (es @ [d]))]"
  unfolding positions_def by (simp add: map_eq_conv del: rb_used_append)

lemma positions_Nil [simp]: "positions [] = [0]"
  by (simp add: positions_def)

lemma rb_used_prefix: "prefix xs ys \<Longrightarrow> rb_used xs \<le> rb_used ys"
  by (auto simp: prefix_def)

lemma rb_used_take_mono: "i \<le> j \<Longrightarrow> rb_used (take i es) \<le> rb_used (take j es)"
  by (metis min.absorb1 rb_used_prefix take_is_prefix take_take)

lemma rb_used_take_le: "rb_used (take i es) \<le> rb_used es"
  by (rule rb_used_prefix) (rule take_is_prefix)

definition frames :: "bytes list \<Rightarrow> bytes" where
  "frames es = concat (map rb_frame es)"

lemma length_frames_eq [simp]: "length (frames es) = rb_used es"
  by (simp add: frames_def length_frames)

lemma frames_snoc: "frames (es @ [d]) = frames es @ rb_frame d"
  by (simp add: frames_def)

lemma frames_at:
  assumes "m < length es" "j < 4 + length (es ! m)"
  shows "frames es ! (rb_used (take m es) + j) = rb_frame (es ! m) ! j" "rb_used (take m es) + j < rb_used es"
proof -
  have e: "es = take m es @ es ! m # drop (Suc m) es" using assms(1) by (rule id_take_nth_drop)
  have f: "frames es = frames (take m es) @ rb_frame (es ! m) @ frames (drop (Suc m) es)"
    by (subst e) (simp add: frames_def)
  show "frames es ! (rb_used (take m es) + j) = rb_frame (es ! m) ! j"
    unfolding f using assms(2) by (simp add: nth_append)
  have "rb_used es = rb_used (take m es) + (4 + length (es ! m)) + rb_used (drop (Suc m) es)"
    by (subst e) (simp del: append_take_drop_id)
  with assms(2) show "rb_used (take m es) + j < rb_used es" by simp
qed

lemma mod_distinct: "p mod n \<noteq> q mod n" if "p < q" "q < p + n" for p q n :: nat
proof
  assume "p mod n = q mod n"
  then have "n dvd q - p" using that(1) by (metis mod_eq_dvd_iff_nat less_imp_le)
  with that show False by (auto dest: dvd_imp_le)
qed

lemma rb_index_of_nat: "rb_cap_ok cap \<Longrightarrow> rb_index cap (of_nat p) = p mod unat cap"
  using cap_dvd [of cap] by (simp add: rb_index_mod unat_of_nat mod_mod_cancel)

section \<open>The invariant\<close>

text \<open>What holds of the positions and of the records, whatever the threads are doing.\<close>

definition rt_shape :: "u64 \<Rightarrow> ring_threads \<Rightarrow> bool" where
  "rt_shape cap s = (length (rt_storage s) = unat cap \<and> list_all (\<lambda>d. length d < 2 ^ 32) (rt_accepted s) \<and>
     rt_heads s = positions (rt_accepted s) \<and> rt_tails s = positions (rt_delivered s) \<and>
     prefix (rt_delivered s) (rt_accepted s) \<and> length (rt_delivered s) \<le> co_seen s \<and>
     co_seen s \<le> length (rt_accepted s) \<and> pr_seen s \<le> length (rt_delivered s))"

definition pr_pending :: "ring_threads \<Rightarrow> nat" where
  "pr_pending s = (case pr_pc s of P_idle \<Rightarrow> 0 | P_copy data _ \<Rightarrow> 4 + length data)"

text \<open>There is room for what is published and what is being written, even by the producer's old view.\<close>

definition rt_room :: "u64 \<Rightarrow> ring_threads \<Rightarrow> bool" where
  "rt_room cap s = (rb_used (rt_accepted s) + pr_pending s \<le> rb_used (take (pr_seen s) (rt_accepted s)) + unat cap)"

text \<open>The published bytes that are not consumed are in the storage.\<close>

definition rt_stored :: "u64 \<Rightarrow> ring_threads \<Rightarrow> bool" where
  "rt_stored cap s = (\<forall>p \<in> {rb_used (rt_delivered s)..<rb_used (rt_accepted s)}.
     rt_storage s ! (p mod unat cap) = frames (rt_accepted s) ! p)"

definition pr_ok :: "u64 \<Rightarrow> ring_threads \<Rightarrow> bool" where
  "pr_ok cap s = (case pr_pc s of P_idle \<Rightarrow> True
     | P_copy data todo \<Rightarrow> length data < 2 ^ 32 \<and> todo \<subseteq> {..<4 + length data} \<and>
         (\<forall>k \<in> {..<4 + length data} - todo. rt_storage s ! ((rb_used (rt_accepted s) + k) mod unat cap) = rb_frame data ! k))"

definition co_ok :: "ring_threads \<Rightarrow> bool" where
  "co_ok s = (let m = length (rt_delivered s); pos = rb_used (rt_delivered s); right = (\<lambda>o' got. \<forall>k \<in> dom got.
       got k = Some (frames (rt_accepted s) ! (pos + (o' + k)))) in
     case co_pc s of C_idle \<Rightarrow> True
     | C_header out got \<Rightarrow> m < co_seen s \<and> dom got \<subseteq> {..<4} \<and> right 0 got
     | C_data len got \<Rightarrow> m < co_seen s \<and> len = length (rt_accepted s ! m) \<and> dom got \<subseteq> {..<len} \<and> right 4 got)"

definition rt_inv :: "u64 \<Rightarrow> ring_threads \<Rightarrow> bool" where
  "rt_inv cap s = (rt_shape cap s \<and> rt_room cap s \<and> rt_stored cap s \<and> pr_ok cap s \<and> co_ok s)"

lemmas rt_defs = rt_shape_def rt_room_def rt_stored_def pr_ok_def co_ok_def pr_pending_def

lemma rt_inv_new: "rt_inv cap (rt_new cap)"
  by (simp add: rt_inv_def rt_defs rt_new_def)

text \<open>What the consumer needs: the record it reads has been published and is in the storage.\<close>

lemma taken_prefix: "rt_shape cap s \<Longrightarrow> i \<le> length (rt_delivered s) \<Longrightarrow> take i (rt_delivered s) = take i (rt_accepted s)"
  by (auto simp: rt_shape_def prefix_def)

lemma consumer_record:
  assumes "rt_inv cap s" "length (rt_delivered s) < co_seen s"
    and "j < 4 + length (rt_accepted s ! length (rt_delivered s))"
  shows "rt_storage s ! ((rb_used (rt_delivered s) + j) mod unat cap) = frames (rt_accepted s) ! (rb_used (rt_delivered s) + j)"
    and "frames (rt_accepted s) ! (rb_used (rt_delivered s) + j) = rb_frame (rt_accepted s ! length (rt_delivered s)) ! j"
proof -
  let ?m = "length (rt_delivered s)"
  have sh: "rt_shape cap s" using assms(1) by (simp add: rt_inv_def)
  have m: "?m < length (rt_accepted s)" using sh assms(2) by (simp add: rt_shape_def)
  have t: "rb_used (take ?m (rt_accepted s)) = rb_used (rt_delivered s)" using taken_prefix [OF sh, of ?m] by simp
  note f = frames_at [OF m assms(3), unfolded t]
  show "frames (rt_accepted s) ! (rb_used (rt_delivered s) + j) = rb_frame (rt_accepted s ! ?m) ! j" by (rule f(1))
  show "rt_storage s ! ((rb_used (rt_delivered s) + j) mod unat cap) = frames (rt_accepted s) ! (rb_used (rt_delivered s) + j)"
    using assms(1) f(2) by (simp add: rt_inv_def rt_stored_def)
qed

lemma frame_header: "k < 4 \<Longrightarrow> rb_frame d ! k = put_le 4 (of_nat (length d) :: u32) ! k"
  by (simp add: rb_frame_def nth_append kEntryHeaderBytes_def)

lemma frame_data: "rb_frame d ! (4 + k) = d ! k"
  by (simp add: rb_frame_def nth_append kEntryHeaderBytes_def)

lemma got_bytes_eqI: "length xs = n \<Longrightarrow> dom got = {..<n} \<Longrightarrow> (\<And>k. k < n \<Longrightarrow> got k = Some (xs ! k)) \<Longrightarrow> got_bytes n got = xs"
  by (rule nth_equalityI) (simp_all add: got_bytes_def)

lemma header_length:
  assumes "rt_inv cap s" "co_pc s = C_header out got" "dom got = {..<4}"
  shows "unat (get_le (got_bytes 4 got) :: u32) = length (rt_accepted s ! length (rt_delivered s))"
proof -
  let ?d = "rt_accepted s ! length (rt_delivered s)"
  have c: "length (rt_delivered s) < co_seen s" "\<forall>k \<in> dom got. got k = Some (frames (rt_accepted s) ! (rb_used (rt_delivered s) + k))"
    using assms(1,2) by (simp_all add: rt_inv_def co_ok_def Let_def)
  have m: "length (rt_delivered s) < length (rt_accepted s)" "list_all (\<lambda>d. length d < 2 ^ 32) (rt_accepted s)"
    using assms(1) c(1) by (simp_all add: rt_inv_def rt_shape_def)
  have "got_bytes 4 got = put_le 4 (of_nat (length ?d) :: u32)"
    using assms(3) c(2) consumer_record(2) [OF assms(1) c(1)] by (intro got_bytes_eqI) (simp_all add: frame_header)
  moreover have "length ?d < 2 ^ 32" using m by (simp add: list_all_length)
  ultimately show ?thesis using u32_len [of ?d] by simp
qed

section \<open>The steps preserve the invariant\<close>

lemma room_check:
  assumes "rt_inv cap s" "of_nat (length data) \<le> cap - of_nat kEntryHeaderBytes" "length data < 2 ^ 64"
    and "4 \<le> unat cap" "pr_seen s \<le> i" "i < length (rt_tails s)" "pr_pc s = P_idle"
  shows "cap - (last (rt_heads s) - rt_tails s ! i) < rt_need data \<longleftrightarrow>
      rb_used (take i (rt_accepted s)) + unat cap < rb_used (rt_accepted s) + (4 + length data)"
    and "4 + length data \<le> unat cap" "rb_used (rt_accepted s) \<le> rb_used (take i (rt_accepted s)) + unat cap"
proof -
  let ?u = "rb_used (rt_accepted s)" and ?t = "rb_used (take i (rt_accepted s))"
  have sh: "rt_shape cap s" and i: "i \<le> length (rt_delivered s)" using assms(1,6) by (simp_all add: rt_inv_def rt_shape_def)
  have p: "last (rt_heads s) = of_nat ?u" "rt_tails s ! i = of_nat ?t"
    using sh i taken_prefix [OF sh i] by (simp_all add: rt_shape_def positions_nth)
  show room: "?u \<le> ?t + unat cap"
    using assms(1,7) rb_used_take_mono [OF assms(5), of "rt_accepted s"] by (simp add: rt_inv_def rt_room_def pr_pending_def)
  have le: "?t \<le> ?u" by (rule rb_used_take_le)
  have c64: "unat cap < 2 ^ 64" using unsigned_less [of cap, where ?'a = nat] by simp
  have "of_nat ?u - of_nat ?t = (of_nat (?u - ?t) :: u64)" using le by (simp add: of_nat_diff)
  moreover have d: "unat (of_nat (?u - ?t) :: u64) = ?u - ?t" using room c64 by (simp add: unat_of_nat)
  ultimately have diff: "unat (cap - (last (rt_heads s) - rt_tails s ! i)) = unat cap - (?u - ?t)"
    unfolding p using room by (simp add: unat_sub word_le_nat_alt)
  have four: "(4 :: u64) \<le> cap" using assms(4) by (simp add: word_le_nat_alt)
  have l: "unat (of_nat (length data) :: u64) = length data" using assms(3) by (simp add: unat_of_nat)
  have "unat (cap - 4) = unat cap - 4" using four by (simp add: unat_sub)
  with assms(2) l show fits: "4 + length data \<le> unat cap"
    using assms(4) by (simp add: kEntryHeaderBytes_def word_le_nat_alt)
  have "unat (rt_need data) = 4 + length data"
    using fits c64 by (simp add: rt_need_def kEntryHeaderBytes_def unat_word_ariths unat_of_nat)
  with diff room le show "cap - (last (rt_heads s) - rt_tails s ! i) < rt_need data \<longleftrightarrow> ?t + unat cap < ?u + (4 + length data)"
    by (simp only: word_less_nat_alt) arith
qed

lemma inv_write_full:
  assumes "rt_inv cap s" "pr_pc s = P_idle" "pr_seen s \<le> i" "i < length (rt_tails s)"
  shows "rt_inv cap (s\<lparr>pr_seen := i\<rparr>)"
  using assms rb_used_take_mono [OF assms(3), of "rt_accepted s"]
  by (auto simp: rt_inv_def rt_defs Let_def split: consumer_pc.splits)

lemma inv_write_start:
  assumes "rt_inv cap s" "4 \<le> unat cap" "unat cap \<le> 2 ^ 32" "pr_pc s = P_idle"
    and "of_nat (length data) \<le> cap - of_nat kEntryHeaderBytes" "length data < 2 ^ 64"
    and "pr_seen s \<le> i" "i < length (rt_tails s)" "\<not> cap - (last (rt_heads s) - rt_tails s ! i) < rt_need data"
  shows "rt_inv cap (s\<lparr>pr_seen := i, pr_pc := P_copy data {..<kEntryHeaderBytes + length data}\<rparr>)"
  using assms(1,8) room_check [OF assms(1,5,6,2,7,8,4)] assms(3,9)
  by (auto simp: rt_inv_def rt_defs kEntryHeaderBytes_def Let_def split: consumer_pc.splits)

lemma window_bound: "rt_inv cap s \<Longrightarrow> rb_used (rt_accepted s) + pr_pending s \<le> rb_used (rt_delivered s) + unat cap"
  using rb_used_take_mono [of "pr_seen s" "length (rt_delivered s)" "rt_accepted s"] taken_prefix [of cap s "length (rt_delivered s)"]
  by (simp add: rt_inv_def rt_room_def rt_shape_def)

lemma write_index: "rb_cap_ok cap \<Longrightarrow> rt_shape cap s \<Longrightarrow>
    rb_index cap (last (rt_heads s) + of_nat k) = (rb_used (rt_accepted s) + k) mod unat cap"
  using rb_index_of_nat [of cap "rb_used (rt_accepted s) + k"] by (simp add: rt_shape_def)

lemma read_index: "rb_cap_ok cap \<Longrightarrow> rt_shape cap s \<Longrightarrow>
    rb_index cap (last (rt_tails s) + of_nat k) = (rb_used (rt_delivered s) + k) mod unat cap"
  using rb_index_of_nat [of cap "rb_used (rt_delivered s) + k"] by (simp add: rt_shape_def)

lemma read_index_data: "rb_cap_ok cap \<Longrightarrow> rt_shape cap s \<Longrightarrow>
    rb_index cap (last (rt_tails s) + of_nat kEntryHeaderBytes + of_nat k) = (rb_used (rt_delivered s) + (4 + k)) mod unat cap"
  using read_index [of cap s "4 + k"] by (simp add: kEntryHeaderBytes_def algebra_simps)

lemma inv_write_byte:
  assumes "rb_cap_ok cap" "rt_inv cap s" "pr_pc s = P_copy data todo" "k \<in> todo"
  shows "rt_inv cap (s\<lparr>pr_pc := P_copy data (todo - {k}),
      rt_storage := (rt_storage s)[rb_index cap (last (rt_heads s) + of_nat k) := rb_frame data ! k]\<rparr>)"
proof -
  let ?n = "unat cap" and ?u = "rb_used (rt_accepted s)" and ?m = "rb_used (rt_delivered s)"
  have sh: "rt_shape cap s" using assms(2) by (simp add: rt_inv_def)
  have w: "?u + (4 + length data) \<le> ?m + ?n" using window_bound [OF assms(2)] assms(3) by (simp add: pr_pending_def)
  have p: "length data < 2 ^ 32" "todo \<subseteq> {..<4 + length data}"
    "\<And>j. j < 4 + length data \<Longrightarrow> j \<notin> todo \<Longrightarrow> rt_storage s ! ((?u + j) mod ?n) = rb_frame data ! j"
    using assms(2,3) by (simp_all add: rt_inv_def pr_ok_def)
  have k: "k < 4 + length data" using p(2) assms(4) by auto
  let ?st = "(rt_storage s)[(?u + k) mod ?n := rb_frame data ! k]"
  have len: "length (rt_storage s) = ?n" "0 < ?n" using sh rb_cap_pos [OF assms(1)] by (simp_all add: rt_shape_def)
  have old: "?st ! (q mod ?n) = rt_storage s ! (q mod ?n)" if "?m \<le> q" "q < ?u" for q
  proof -
    have "q mod ?n \<noteq> (?u + k) mod ?n" by (rule mod_distinct) (use that w k in simp_all)
    then show ?thesis by simp
  qed
  have new: "?st ! ((?u + j) mod ?n) = rb_frame data ! j" if "j < 4 + length data" "j \<notin> todo - {k}" for j
  proof (cases "j = k")
    case True
    then show ?thesis using len by simp
  next
    case False
    have "(?u + j) mod ?n \<noteq> (?u + k) mod ?n"
      using False that(1) k w rb_used_prefix [of "rt_delivered s" "rt_accepted s"] sh
        mod_distinct [of "?u + j" "?u + k" ?n] mod_distinct [of "?u + k" "?u + j" ?n]
      by (cases "j < k") (auto simp: rt_shape_def)
    then show ?thesis using p(3) [OF that(1)] that(2) False by simp
  qed
  let ?s = "s\<lparr>pr_pc := P_copy data (todo - {k}), rt_storage := ?st\<rparr>"
  have "rt_shape cap ?s" "rt_room cap ?s" "co_ok ?s"
    using assms(2,3) by (simp_all add: rt_inv_def rt_shape_def rt_room_def pr_pending_def co_ok_def Let_def
        split: consumer_pc.splits)
  moreover have "rt_stored cap ?s" using assms(2) old by (simp add: rt_inv_def rt_stored_def)
  moreover have "pr_ok cap ?s" using p(1,2) new by (auto simp: pr_ok_def)
  ultimately show ?thesis by (simp add: rt_inv_def write_index [OF assms(1) sh])
qed

lemma inv_write_publish:
  assumes "rt_inv cap s" "pr_pc s = P_copy data {}"
  shows "rt_inv cap (s\<lparr>pr_pc := P_idle, rt_heads := rt_heads s @ [last (rt_heads s) + rt_need data],
      rt_accepted := rt_accepted s @ [data]\<rparr>)"
proof -
  let ?u = "rb_used (rt_accepted s)" and ?m = "rb_used (rt_delivered s)" and ?a = "rt_accepted s @ [data]"
  have sh: "rt_shape cap s" using assms(1) by (simp add: rt_inv_def)
  have p: "length data < 2 ^ 32" "\<And>j. j < 4 + length data \<Longrightarrow> rt_storage s ! ((?u + j) mod unat cap) = rb_frame data ! j"
    using assms by (simp_all add: rt_inv_def pr_ok_def)
  have "rt_heads s @ [last (rt_heads s) + rt_need data] = positions ?a"
    using sh by (simp add: rt_shape_def positions_snoc rt_need_def kEntryHeaderBytes_def algebra_simps)
  moreover have "rt_storage s ! (q mod unat cap) = frames ?a ! q" if "?m \<le> q" "q < rb_used ?a" for q
  proof (cases "q < ?u")
    case True
    then show ?thesis using assms(1) that by (simp add: rt_inv_def rt_stored_def frames_snoc nth_append)
  next
    case False
    then show ?thesis using p(2) [of "q - ?u"] that by (simp add: frames_snoc nth_append)
  qed
  moreover have "prefix (rt_delivered s) ?a" using sh by (simp add: rt_shape_def)
  moreover have "co_ok (s\<lparr>pr_pc := P_idle, rt_heads := hs, rt_accepted := ?a\<rparr>)" for hs
  proof -
    have m: "length (rt_delivered s) < length (rt_accepted s)" if "length (rt_delivered s) < co_seen s"
      using that sh by (simp add: rt_shape_def)
    have st: "frames ?a ! (?m + j) = frames (rt_accepted s) ! (?m + j)"
      if "length (rt_delivered s) < co_seen s" "j < 4 + length (rt_accepted s ! length (rt_delivered s))" for j
      using frames_at(2) [OF m [OF that(1)] that(2)] taken_prefix [OF sh, of "length (rt_delivered s)"]
      by (simp add: frames_snoc nth_append)
    have c: "co_ok s" using assms(1) by (simp add: rt_inv_def)
    show ?thesis
    proof (cases "co_pc s")
      case (C_header out got)
      with c st show ?thesis by (auto simp: co_ok_def Let_def subset_iff)
    next
      case (C_data len got)
      with c have *: "length (rt_delivered s) < co_seen s" "len = length (rt_accepted s ! length (rt_delivered s))"
        "dom got \<subseteq> {..<len}" "\<forall>k\<in>dom got. got k = Some (frames (rt_accepted s) ! (?m + (4 + k)))"
        unfolding co_ok_def Let_def by simp_all blast+
      have "frames ?a ! (?m + (4 + k)) = frames (rt_accepted s) ! (?m + (4 + k))" if "k \<in> dom got" for k
        by (rule st) (use * that in auto)
      with * C_data m show ?thesis by (simp add: co_ok_def Let_def nth_append)
    qed (simp add: co_ok_def Let_def)
  qed
  moreover have "rt_room cap (s\<lparr>pr_pc := P_idle, rt_heads := hs, rt_accepted := ?a\<rparr>)" for hs
    using assms sh by (simp add: rt_inv_def rt_room_def pr_pending_def rt_shape_def prefix_def)
  ultimately show ?thesis
    using sh p(1) by (auto simp: rt_inv_def rt_shape_def rt_stored_def pr_ok_def)
qed

lemma inv_read_load:
  assumes "rt_inv cap s" "co_pc s = C_idle" "co_seen s \<le> i" "i < length (rt_heads s)"
  shows "rt_inv cap (s\<lparr>co_seen := i\<rparr>)"
  using assms by (auto simp: rt_inv_def rt_defs Let_def split: producer_pc.splits)

lemma inv_read_start:
  assumes "rt_inv cap s" "co_pc s = C_idle" "co_seen s \<le> i" "i < length (rt_heads s)" "rt_heads s ! i \<noteq> last (rt_tails s)"
  shows "rt_inv cap (s\<lparr>co_seen := i, co_pc := C_header out Map.empty\<rparr>)"
proof -
  have sh: "rt_shape cap s" using assms(1) by (simp add: rt_inv_def)
  have "length (rt_delivered s) \<noteq> i"
    using assms(4,5) sh taken_prefix [OF sh, of i] by (auto simp: rt_shape_def positions_nth)
  then have "length (rt_delivered s) < i" using assms(3) sh by (simp add: rt_shape_def)
  with inv_read_load [OF assms(1-4)] show ?thesis
    by (simp add: rt_inv_def rt_defs split: producer_pc.splits)
qed

lemma inv_header_byte:
  assumes "rb_cap_ok cap" "rt_inv cap s" "co_pc s = C_header out got" "k < kEntryHeaderBytes"
  shows "rt_inv cap (s\<lparr>co_pc := C_header out (got(k \<mapsto> rt_storage s ! rb_index cap (last (rt_tails s) + of_nat k)))\<rparr>)"
proof -
  have sh: "rt_shape cap s" and k: "k < 4" using assms(2,4) by (simp_all add: rt_inv_def kEntryHeaderBytes_def)
  have c: "length (rt_delivered s) < co_seen s" using assms(2,3) by (simp add: rt_inv_def co_ok_def Let_def)
  have "rt_storage s ! rb_index cap (last (rt_tails s) + of_nat k) = frames (rt_accepted s) ! (rb_used (rt_delivered s) + k)"
    unfolding read_index [OF assms(1) sh] by (rule consumer_record(1) [OF assms(2) c]) (use k in simp)
  with assms(2,3) k show ?thesis
    by (auto simp: rt_inv_def rt_defs Let_def split: producer_pc.splits)
qed

lemma inv_header_done:
  assumes "rt_inv cap s" "co_pc s = C_header out got" "dom got = {..<kEntryHeaderBytes}"
    and "len = unat (get_le (got_bytes kEntryHeaderBytes got) :: u32)"
  shows "rt_inv cap (s\<lparr>co_pc := (case out of None \<Rightarrow> C_idle | Some n \<Rightarrow> if n < len then C_idle else C_data len Map.empty)\<rparr>)"
proof -
  have "len = length (rt_accepted s ! length (rt_delivered s))"
    using header_length [OF assms(1,2)] assms(3,4) by (simp add: kEntryHeaderBytes_def)
  with assms(1,2) show ?thesis
    by (auto simp: rt_inv_def rt_defs Let_def split: producer_pc.splits option.splits)
qed

lemma inv_data_byte:
  assumes "rb_cap_ok cap" "rt_inv cap s" "co_pc s = C_data len got" "k < len"
  shows "rt_inv cap (s\<lparr>co_pc := C_data len (got(k \<mapsto>
      rt_storage s ! rb_index cap (last (rt_tails s) + of_nat kEntryHeaderBytes + of_nat k)))\<rparr>)"
proof -
  have sh: "rt_shape cap s" using assms(2) by (simp add: rt_inv_def)
  have c: "length (rt_delivered s) < co_seen s" "len = length (rt_accepted s ! length (rt_delivered s))"
    using assms(2,3) by (simp_all add: rt_inv_def co_ok_def Let_def)
  have "rt_storage s ! rb_index cap (last (rt_tails s) + of_nat kEntryHeaderBytes + of_nat k) =
      frames (rt_accepted s) ! (rb_used (rt_delivered s) + (4 + k))"
    unfolding read_index_data [OF assms(1) sh] by (rule consumer_record(1) [OF assms(2) c(1)]) (use assms(4) c(2) in simp)
  with assms(2-4) show ?thesis
    by (auto simp: rt_inv_def rt_defs Let_def add.assoc split: producer_pc.splits)
qed

lemma data_read:
  assumes "rt_inv cap s" "co_pc s = C_data len got" "dom got = {..<len}"
  shows "got_bytes len got = rt_accepted s ! length (rt_delivered s)" "length (rt_delivered s) < co_seen s"
    and "len = length (rt_accepted s ! length (rt_delivered s))"
proof -
  show c: "length (rt_delivered s) < co_seen s" and l: "len = length (rt_accepted s ! length (rt_delivered s))"
    using assms(1,2) by (simp_all add: rt_inv_def co_ok_def Let_def)
  have g: "\<forall>k \<in> dom got. got k = Some (frames (rt_accepted s) ! (rb_used (rt_delivered s) + (4 + k)))"
    using assms(1,2) by (simp add: rt_inv_def co_ok_def Let_def)
  show "got_bytes len got = rt_accepted s ! length (rt_delivered s)"
  proof (rule got_bytes_eqI)
    fix k assume k: "k < len"
    then have "frames (rt_accepted s) ! (rb_used (rt_delivered s) + (4 + k)) = rt_accepted s ! length (rt_delivered s) ! k"
      using consumer_record(2) [OF assms(1) c, of "4 + k"] l by (simp add: frame_data)
    with g k assms(3) show "got k = Some (rt_accepted s ! length (rt_delivered s) ! k)" by (simp add: add.assoc)
  qed (use l assms(3) in simp_all)
qed

lemma inv_read_release:
  assumes "rt_inv cap s" "co_pc s = C_data len got" "dom got = {..<len}"
  shows "rt_inv cap (s\<lparr>co_pc := C_idle, rt_tails := rt_tails s @ [last (rt_tails s) + of_nat kEntryHeaderBytes + of_nat len],
      rt_delivered := rt_delivered s @ [got_bytes len got]\<rparr>)"
proof -
  let ?d = "rt_accepted s ! length (rt_delivered s)"
  have sh: "rt_shape cap s" using assms(1) by (simp add: rt_inv_def)
  note r = data_read [OF assms]
  have m: "length (rt_delivered s) < length (rt_accepted s)" using sh r(2) by (simp add: rt_shape_def)
  have "prefix (rt_delivered s @ [?d]) (rt_accepted s)"
    using taken_prefix [OF sh, of "length (rt_delivered s)"] m
    by (metis order.refl take_Suc_conv_app_nth take_all take_is_prefix)
  moreover have "rt_tails s @ [last (rt_tails s) + of_nat kEntryHeaderBytes + of_nat len] = positions (rt_delivered s @ [?d])"
    using sh r(3) by (simp add: rt_shape_def positions_snoc kEntryHeaderBytes_def algebra_simps)
  ultimately show ?thesis
    using assms(1) r(1,2) by (auto simp: rt_inv_def rt_defs split: producer_pc.splits)
qed

lemma rstep_inv:
  assumes "rstep cap l s s'" "rb_cap_ok cap" "4 \<le> unat cap" "unat cap \<le> 2 ^ 32" "rt_inv cap s"
  shows "rt_inv cap s'"
  using assms(1)
proof cases
  case write_full
  then show ?thesis using inv_write_full [OF assms(5)] by simp
next
  case write_start
  then show ?thesis using inv_write_start [OF assms(5,3,4)] by simp
next
  case write_byte
  then show ?thesis using inv_write_byte [OF assms(2,5)] by simp
next
  case write_publish
  then show ?thesis using inv_write_publish [OF assms(5)] by simp
next
  case read_empty
  then show ?thesis using inv_read_load [OF assms(5)] by simp
next
  case read_start
  then show ?thesis using inv_read_start [OF assms(5)] by simp
next
  case header_byte
  then show ?thesis using inv_header_byte [OF assms(2,5)] by simp
next
  case header_done
  then show ?thesis using inv_header_done [OF assms(5)] by simp
next
  case data_byte
  then show ?thesis using inv_data_byte [OF assms(2,5)] by simp
next
  case read_release
  then show ?thesis using inv_read_release [OF assms(5)] by simp
qed

interpretation rt_sys: step_system "rnext cap" "rt_new cap"
  "\<lambda>s. rb_cap_ok cap \<longrightarrow> 4 \<le> unat cap \<longrightarrow> unat cap \<le> 2 ^ 32 \<longrightarrow> rt_inv cap s" for cap
  by unfold_locales (auto simp: rnext_def intro: rt_inv_new rstep_inv)

lemma ring_reachable_inv:
  assumes "rb_cap_ok cap" "4 \<le> unat cap" "unat cap \<le> 2 ^ 32" "s \<in> ring_reachable cap"
  shows "rt_inv cap s"
  using assms rt_sys.reachable_inv [of cap s] by (simp add: ring_reachable_def)

section \<open>What follows\<close>

lemma window_prefix: "rt_inv cap s \<Longrightarrow> rb_used (rt_delivered s) \<le> rb_used (rt_accepted s)"
  by (intro rb_used_prefix) (simp add: rt_inv_def rt_shape_def)

lemma writing_window:
  assumes "rb_cap_ok cap" "rt_inv cap s" "i \<in> writing cap s"
  shows "\<exists>p. i = p mod unat cap \<and> rb_used (rt_accepted s) \<le> p \<and> p < rb_used (rt_delivered s) + unat cap"
proof -
  have sh: "rt_shape cap s" using assms(2) by (simp add: rt_inv_def)
  from assms(3) obtain data todo k where k: "pr_pc s = P_copy data todo" "k \<in> todo"
    "i = rb_index cap (last (rt_heads s) + of_nat k)" by (auto simp: writing_def split: producer_pc.splits)
  moreover have "k < 4 + length data" using assms(2) k(1,2) by (auto simp: rt_inv_def pr_ok_def)
  ultimately show ?thesis
    using window_bound [OF assms(2)] write_index [OF assms(1) sh]
    by (intro exI [of _ "rb_used (rt_accepted s) + k"]) (simp add: pr_pending_def)
qed

lemma reading_window:
  assumes "rb_cap_ok cap" "rt_inv cap s" "i \<in> reading cap s"
  shows "\<exists>p. i = p mod unat cap \<and> rb_used (rt_delivered s) \<le> p \<and> p < rb_used (rt_accepted s)"
proof -
  let ?m = "length (rt_delivered s)"
  have sh: "rt_shape cap s" using assms(2) by (simp add: rt_inv_def)
  have inside: "rb_used (rt_delivered s) + j < rb_used (rt_accepted s)"
    if "?m < co_seen s" "j < 4 + length (rt_accepted s ! ?m)" for j
    using frames_at(2) [of ?m "rt_accepted s" j] that sh taken_prefix [OF sh, of ?m] by (simp add: rt_shape_def)
  have c: "co_ok s" using assms(2) by (simp add: rt_inv_def)
  show ?thesis
  proof (cases "co_pc s")
    case C_idle
    with assms(3) show ?thesis by (simp add: reading_def)
  next
    case (C_header out got)
    with assms(3) obtain k where k: "k < 4" "i = rb_index cap (last (rt_tails s) + of_nat k)"
      by (auto simp: reading_def kEntryHeaderBytes_def)
    have "rb_used (rt_delivered s) + k < rb_used (rt_accepted s)"
      by (rule inside) (use c C_header k(1) in \<open>simp_all add: co_ok_def Let_def\<close>)
    then show ?thesis unfolding k(2) read_index [OF assms(1) sh] by (intro exI conjI refl) simp_all
  next
    case (C_data len got)
    with assms(3) obtain k where k: "k < len" "i = rb_index cap (last (rt_tails s) + of_nat kEntryHeaderBytes + of_nat k)"
      by (auto simp: reading_def)
    have "rb_used (rt_delivered s) + (4 + k) < rb_used (rt_accepted s)"
      by (rule inside) (use c C_data k(1) in \<open>simp_all add: co_ok_def Let_def\<close>)
    then show ?thesis unfolding k(2) read_index_data [OF assms(1) sh] by (intro exI conjI refl) simp_all
  qed
qed

text \<open>
  C15. The lock-free ring is right under every interleaving: with a capacity that is a power of two
  from 4 to \<open>2 ^ 32\<close>, in every reachable state the records the consumer has got are, in order and
  byte by byte, the first of those the producer has published, and no byte of the storage is about
  to be written by the one while the other may read it.
\<close>

theorem ring_threads_safe:
  assumes "rb_cap_ok cap" "4 \<le> unat cap" "unat cap \<le> 2 ^ 32"
  shows "ring_reachable cap \<subseteq> {s. prefix (rt_delivered s) (rt_accepted s) \<and> writing cap s \<inter> reading cap s = {}}"
proof -
  have "prefix (rt_delivered s) (rt_accepted s) \<and> writing cap s \<inter> reading cap s = {}" if "s \<in> ring_reachable cap" for s
  proof
    note inv = ring_reachable_inv [OF assms that]
    show "prefix (rt_delivered s) (rt_accepted s)" using inv by (simp add: rt_inv_def rt_shape_def)
    have False if i: "i \<in> writing cap s" "i \<in> reading cap s" for i
    proof -
      obtain p where p: "i = p mod unat cap" "rb_used (rt_accepted s) \<le> p" "p < rb_used (rt_delivered s) + unat cap"
        using writing_window [OF assms(1) inv i(1)] by blast
      obtain q where q: "i = q mod unat cap" "rb_used (rt_delivered s) \<le> q" "q < rb_used (rt_accepted s)"
        using reading_window [OF assms(1) inv i(2)] by blast
      show False using mod_distinct [of q p "unat cap"] p q by simp
    qed
    then show "writing cap s \<inter> reading cap s = {}" by blast
  qed
  then show ?thesis by blast
qed

lemma ring_threads_safe_witness:
  "ring_reachable 16 \<subseteq> {s. prefix (rt_delivered s) (rt_accepted s) \<and> writing 16 s \<inter> reading 16 s = {}}"
  by (rule ring_threads_safe) (simp_all add: rb_cap_ok_16)

subsection \<open>No waiting\<close>

text \<open>How many steps of its own a thread still needs to the end of its call.\<close>

definition steps_left :: "ring_thread \<Rightarrow> ring_threads \<Rightarrow> nat" where
  "steps_left l s = (case l of
      Producer \<Rightarrow> (case pr_pc s of P_idle \<Rightarrow> 0 | P_copy data todo \<Rightarrow> Suc (card todo))
    | Consumer \<Rightarrow> (case co_pc s of C_idle \<Rightarrow> 0
        | C_header out got \<Rightarrow> 6 - card (dom got) + length (rt_accepted s ! length (rt_delivered s))
        | C_data len got \<Rightarrow> Suc (len - card (dom got))))"

lemma producer_progress:
  assumes "pr_ok cap s" "pr_pc s = P_copy data todo"
  shows "\<exists>s'. rstep cap Producer s s'" "rstep cap Producer s s' \<Longrightarrow> steps_left Producer s' < steps_left Producer s"
proof -
  have fin: "finite todo" using assms by (auto simp: pr_ok_def intro: finite_subset)
  show "\<exists>s'. rstep cap Producer s s'"
    using assms(2) write_publish [of s data cap] write_byte [of s data todo _ cap] by (cases "todo = {}") auto
  show "rstep cap Producer s s' \<Longrightarrow> steps_left Producer s' < steps_left Producer s"
    using assms(2) card_Diff1_less [OF fin]
    by (elim rstepE) (auto simp: steps_left_def simp del: card_Diff_insert card_Diff_singleton)
qed

lemma card_dom_upd: "finite (dom got) \<Longrightarrow> got k = None \<Longrightarrow> card (dom (got(k \<mapsto> b))) = Suc (card (dom got))"
  by (simp add: card_insert_if domIff)

lemma card_dom_less: "dom got \<subseteq> {..<n} \<Longrightarrow> dom got \<noteq> {..<n} \<Longrightarrow> (\<exists>k<n. got k = None) \<and> card (dom got) < n"
  using psubset_card_mono [of "{..<n}" "dom got"] by (auto simp: domIff)

lemma consumer_progress:
  assumes "rt_inv cap s" "co_pc s \<noteq> C_idle"
  shows "\<exists>s'. rstep cap Consumer s s'" "rstep cap Consumer s s' \<Longrightarrow> steps_left Consumer s' < steps_left Consumer s"
proof -
  have c: "co_ok s" using assms(1) by (simp add: rt_inv_def)
  show "\<exists>s'. rstep cap Consumer s s'"
  proof (cases "co_pc s")
    case (C_header out got)
    with c have "dom got \<subseteq> {..<4}" by (simp add: co_ok_def Let_def)
    show ?thesis
    proof (cases "dom got = {..<4}")
      case True
      then show ?thesis using header_done [OF C_header _ refl, of cap] by (auto simp: kEntryHeaderBytes_def)
    next
      case False
      with card_dom_less [OF \<open>dom got \<subseteq> {..<4}\<close>] obtain k where "k < kEntryHeaderBytes" "got k = None"
        by (auto simp: kEntryHeaderBytes_def)
      then show ?thesis using header_byte [OF C_header] by blast
    qed
  next
    case (C_data len got)
    with c have "dom got \<subseteq> {..<len}" by (auto simp: co_ok_def Let_def)
    show ?thesis
    proof (cases "dom got = {..<len}")
      case True
      then show ?thesis using read_release [OF C_data] by auto
    next
      case False
      with card_dom_less [OF \<open>dom got \<subseteq> {..<len}\<close>] obtain k where "k < len" "got k = None" by auto
      then show ?thesis using data_byte [OF C_data] by blast
    qed
  qed (use assms(2) in simp)
  show "rstep cap Consumer s s' \<Longrightarrow> steps_left Consumer s' < steps_left Consumer s"
  proof (cases "co_pc s")
    case (C_header out got)
    with c have d: "dom got \<subseteq> {..<4}" "finite (dom got)" by (auto simp: co_ok_def Let_def intro: finite_subset)
    have l: "dom got = {..<4} \<Longrightarrow> unat (get_le (got_bytes 4 got) :: u32) = length (rt_accepted s ! length (rt_delivered s))"
      by (rule header_length [OF assms(1) C_header])
    assume "rstep cap Consumer s s'"
    then show ?thesis using C_header d
    proof (elim rstepE, goal_cases)
      case (7 out' got' k)
      then have "card (dom got) < 4" using card_dom_less [of got 4] by (auto simp: kEntryHeaderBytes_def)
      with 7 show ?case by (simp add: steps_left_def card_dom_upd del: dom_fun_upd fun_upd_apply)
    next
      case (8 out' got')
      with l show ?case by (auto simp: steps_left_def kEntryHeaderBytes_def split: option.split)
    qed simp_all
  next
    case (C_data len got)
    with c have d: "dom got \<subseteq> {..<len}" "finite (dom got)" by (auto simp: co_ok_def Let_def intro: finite_subset)
    assume "rstep cap Consumer s s'"
    then show ?thesis using C_data d
    proof (elim rstepE, goal_cases)
      case (9 len' got' k)
      then have "card (dom got) < len" using card_dom_less [of got len] by auto
      with 9 show ?case by (simp add: steps_left_def card_dom_upd del: dom_fun_upd fun_upd_apply)
    qed (simp_all add: steps_left_def)
  qed (use assms(2) in simp)
qed

lemma other_thread_keeps:
  assumes "rt_inv cap s" "rstep cap l' s s'" "l' \<noteq> l"
  shows "steps_left l s' = steps_left l s"
proof (cases l)
  case Producer
  with assms(2,3) show ?thesis by (cases l') (auto elim!: rstepE simp: steps_left_def)
next
  case Consumer
  have "length (rt_delivered s) < length (rt_accepted s)" if "co_pc s = C_header out got" for out got
    using assms(1) that by (auto simp: rt_inv_def co_ok_def rt_shape_def Let_def)
  with assms(2,3) Consumer show ?thesis
    by (cases l') (auto elim!: rstepE simp: steps_left_def nth_append split: consumer_pc.split)
qed

text \<open>
  C16. The ring never waits: a thread in the middle of a call can always take its next step,
  whatever the other does; each step of its own brings the end of the call nearer, and no step of
  the other thread makes the rest of the call longer.
\<close>

theorem ring_wait_free:
  assumes "rb_cap_ok cap" "4 \<le> unat cap" "unat cap \<le> 2 ^ 32" "s \<in> ring_reachable cap" "0 < steps_left l s"
  shows "(\<exists>s'. rstep cap l s s') \<and> {s'. rstep cap l s s'} \<subseteq> {s'. steps_left l s' < steps_left l s} \<and>
    {s'. \<exists>l'. l' \<noteq> l \<and> rstep cap l' s s'} \<subseteq> {s'. steps_left l s' = steps_left l s}"
proof -
  note inv = ring_reachable_inv [OF assms(1-4)]
  have "(\<exists>s'. rstep cap l s s') \<and> {s'. rstep cap l s s'} \<subseteq> {s'. steps_left l s' < steps_left l s}"
  proof (cases l)
    case Producer
    with assms(5) obtain data todo where "pr_pc s = P_copy data todo" by (auto simp: steps_left_def split: producer_pc.splits)
    then show ?thesis using producer_progress [of cap s data todo] inv Producer by (auto simp: rt_inv_def)
  next
    case Consumer
    with assms(5) have "co_pc s \<noteq> C_idle" by (auto simp: steps_left_def)
    then show ?thesis using consumer_progress [OF inv] Consumer by auto
  qed
  with other_thread_keeps [OF inv] show ?thesis by blast
qed

lemma ring_wait_free_witness:
  "let s = (rt_new 16)\<lparr>pr_pc := P_copy [7] {..<kEntryHeaderBytes + 1}\<rparr> in
    s \<in> ring_reachable 16 \<and> (\<exists>s'. rstep 16 Producer s s')"
proof -
  define s where "s = (rt_new 16)\<lparr>pr_pc := P_copy [7] {..<kEntryHeaderBytes + 1}\<rparr>"
  have "rstep 16 Producer (rt_new 16) s"
    using write_start [of "rt_new 16" "[7]" 16 0] by (simp add: rt_new_def rt_need_def kEntryHeaderBytes_def s_def)
  then have r: "s \<in> ring_reachable 16" unfolding ring_reachable_def by (auto simp: rnext_def intro!: r_into_rtranclp)
  have "0 < steps_left Producer s" by (simp add: s_def steps_left_def)
  then have "\<exists>s'. rstep 16 Producer s s'" using ring_wait_free [OF _ _ _ r, of Producer] by (simp add: rb_cap_ok_16)
  with r show ?thesis unfolding s_def Let_def by blast
qed

end
