(* ===== verification/Crypto.thy ===== *)
theory Crypto
  imports Interfaces
begin

text \<open>
  \<open>src/crypto/auth_types.hpp\<close>, \<open>hmac.*\<close> and \<open>psk.*\<close>: the wrappers around
  OpenSSL and the pre-shared-key handshake. What OpenSSL computes is a record of functions,
  \<open>ossl\<close>; \<open>None\<close> is a failing call. The cipher is given each buffer with the \<open>int\<close> that the code
  makes of its length. What the code relies on is \<open>ossl_ok\<close>: a MAC has 32 bytes, a derivation of
  an admissible length has that length, and for lengths that are not negative the cipher works on
  that many bytes of its buffers, where decryption undoes encryption under the same key, nonce and
  associated data. Random bytes are taken from a list of outcomes; a
  failed draw leaves the buffer as it was.
\<close>

unbundle bit_operations_syntax

section \<open>OpenSSL\<close>

record ossl =
  os_hmac_sha256 :: "bytes \<Rightarrow> bytes \<Rightarrow> bytes option"
  os_hkdf_sha256 :: "bytes \<Rightarrow> bytes \<Rightarrow> string \<Rightarrow> nat \<Rightarrow> bytes option"
  os_gcm_encrypt :: "bytes \<Rightarrow> bytes \<Rightarrow> bytes \<times> int \<Rightarrow> bytes \<times> int \<Rightarrow> bytes option"
  os_gcm_decrypt :: "bytes \<Rightarrow> bytes \<Rightarrow> bytes \<times> int \<Rightarrow> bytes \<Rightarrow> bytes \<times> int \<Rightarrow> bytes option"

text \<open>A buffer and a length that \<open>EVP_EncryptUpdate\<close> may be given with it.\<close>

definition evp_range :: "bytes \<Rightarrow> int \<Rightarrow> bool" where
  "evp_range buf len = (0 \<le> len \<and> len < 2 ^ 31 \<and> len \<le> int (length buf))"

definition ossl_ok :: "ossl \<Rightarrow> bool" where
  "ossl_ok os = ((\<forall>k m. \<exists>t. os_hmac_sha256 os k m = Some t \<and> length t = 32)
     \<and> (\<forall>s k i n. k \<noteq> [] \<longrightarrow> 0 < n \<longrightarrow> n \<le> 255 * 32 \<longrightarrow> (\<exists>o'. os_hkdf_sha256 os s k i n = Some o' \<and> length o' = n))
     \<and> (\<forall>k n p v a w. length k = 32 \<longrightarrow> length n = 12 \<longrightarrow> evp_range p v \<longrightarrow> evp_range a w \<longrightarrow>
          (\<exists>c t. os_gcm_encrypt os k n (p, v) (a, w) = Some (c @ t) \<and> length c = nat v \<and> length t = 16
             \<and> os_gcm_decrypt os k n (c, v) t (a, w) = Some (take (nat v) p))))"

type_synonym rand_src = "bytes option list"

text \<open>\<open>RAND_bytes\<close> into a buffer.\<close>

definition random_bytes :: "bytes \<Rightarrow> rand_src \<Rightarrow> bool \<times> bytes \<times> rand_src" where
  "random_bytes out rs = (case rs of
      [] \<Rightarrow> (False, out, [])
    | None # rs' \<Rightarrow> (False, out, rs')
    | Some bs # rs' \<Rightarrow> (True, take (length out) (bs @ replicate (length out) 0), rs'))"

definition random_nonce :: "rand_src \<Rightarrow> bytes \<times> rand_src" where
  "random_nonce rs = (case random_bytes (replicate 12 0) rs of (_, n, rs') \<Rightarrow> (n, rs'))"

lemma length_random: "random_bytes out rs = (ok, bs, rs') \<Longrightarrow> length bs = length out"
  by (auto simp: random_bytes_def split: list.splits option.splits)

lemma length_random_nonce: "random_nonce rs = (n, rs') \<Longrightarrow> length n = 12"
  by (auto simp: random_nonce_def dest: length_random split: prod.splits)

section \<open>Message authentication\<close>

definition constant_time_memcmp :: "bytes \<Rightarrow> bytes \<Rightarrow> nat \<Rightarrow> byte" where
  "constant_time_memcmp a b n = fold (\<lambda>i diff. diff OR (a ! i XOR b ! i)) [0..<n] 0"

definition hmac_sha256 :: "ossl \<Rightarrow> bytes \<Rightarrow> bytes \<Rightarrow> bytes Result" where
  "hmac_sha256 os key message =
     (if key = [] then Err EC_INVALID_ARG
      else case os_hmac_sha256 os key message of
        None \<Rightarrow> Err EC_INTERNAL
      | Some out \<Rightarrow> Ok out)"

definition hmac_sha256_verify :: "ossl \<Rightarrow> bytes \<Rightarrow> bytes \<Rightarrow> bytes \<Rightarrow> unit Result" where
  "hmac_sha256_verify os key message expected =
     (if length expected \<noteq> 32 then Err EC_INVALID_ARG
      else case hmac_sha256 os key message of
        Ok mac \<Rightarrow> if constant_time_memcmp mac expected 32 \<noteq> 0 then Err EC_CRYPTO_HMAC_MISMATCH else Ok ()
      | r \<Rightarrow> Err (error r))"

lemma or_zero_iff: "(a OR b = (0 :: 'a::len word)) \<longleftrightarrow> a = 0 \<and> b = 0"
  by (auto simp: bit_eq_iff bit_simps)

lemma xor_zero_iff: "(a XOR b = (0 :: 'a::len word)) \<longleftrightarrow> a = b"
  by (auto simp: bit_eq_iff bit_simps)

lemma memcmp_fold:
  "fold (\<lambda>i diff. diff OR (a ! i XOR b ! i)) is d = 0 \<longleftrightarrow> d = 0 \<and> (\<forall>i \<in> set is. (a ! i :: byte) = b ! i)"
  by (induction "is" arbitrary: d) (auto simp: or_zero_iff xor_zero_iff)

lemma memcmp_iff:
  "length a = n \<Longrightarrow> length b = n \<Longrightarrow> constant_time_memcmp a b n = 0 \<longleftrightarrow> a = b"
  unfolding constant_time_memcmp_def memcmp_fold by (auto intro: nth_equalityI)

lemma hmac_ok:
  assumes "ossl_ok os" "key \<noteq> []"
  obtains t where "hmac_sha256 os key m = Ok t" "os_hmac_sha256 os key m = Some t" "length t = 32"
  using assms by (metis (no_types, lifting) hmac_sha256_def option.simps(5) ossl_ok_def)

lemma hmac_verify_iff:
  assumes "ossl_ok os" "key \<noteq> []" "length mac = 32"
  shows "hmac_sha256_verify os key m mac =
    (if os_hmac_sha256 os key m = Some mac then Ok () else Err EC_CRYPTO_HMAC_MISMATCH)"
proof -
  obtain t where t: "hmac_sha256 os key m = Ok t" "os_hmac_sha256 os key m = Some t" "length t = 32"
    by (rule hmac_ok [OF assms(1,2)])
  with memcmp_iff [of t 32 mac] assms(3) show ?thesis by (auto simp: hmac_sha256_verify_def)
qed

section \<open>Key derivation and AEAD\<close>

type_synonym SecretKey = bytes

record AuthRequest =
  rq_client_random :: bytes
  rq_salt :: bytes
  rq_identity :: bytes

record AuthResponse =
  rs_server_random :: bytes
  rs_salt :: bytes
  rs_encrypted_session_key :: bytes
  rs_nonce :: bytes
  rs_mac :: bytes

record DerivedKeys =
  dk_enc_key :: SecretKey
  dk_mac_key :: SecretKey

definition hkdf_sha256 :: "ossl \<Rightarrow> bytes \<Rightarrow> bytes \<Rightarrow> string \<Rightarrow> nat \<Rightarrow> SecretKey Result" where
  "hkdf_sha256 os salt ikm info out_length =
     (if out_length = 0 \<or> 255 * 32 < out_length then Err EC_INVALID_ARG
      else if ikm = [] then Err EC_INVALID_ARG
      else case os_hkdf_sha256 os salt ikm info out_length of
        None \<Rightarrow> Err EC_INTERNAL
      | Some okm \<Rightarrow> Ok okm)"

definition kSessionKeyLen :: nat where "kSessionKeyLen = 32"
definition kSessionInfo :: string where "kSessionInfo = ''udaf-psk-v1-session''"

definition psk_derive_session_keys :: "ossl \<Rightarrow> bytes \<Rightarrow> bytes \<Rightarrow> DerivedKeys Result" where
  "psk_derive_session_keys os psk salt =
     (case hkdf_sha256 os salt psk kSessionInfo kSessionKeyLen of
        Ok enc \<Rightarrow>
          (case hkdf_sha256 os salt enc ''udaf-psk-v1-mac'' kSessionKeyLen of
             Ok mac \<Rightarrow> Ok \<lparr>dk_enc_key = enc, dk_mac_key = mac\<rparr>
           | r \<Rightarrow> Err (error r))
      | r \<Rightarrow> Err (error r))"

text \<open>
  A buffer goes to OpenSSL with \<open>static_cast<int>\<close> of its size. (For an empty one the call is left
  out, as if made for no bytes.) The last 16 bytes of what is decrypted are the tag.
\<close>

definition with_int_size :: "bytes \<Rightarrow> bytes \<times> int" where
  "with_int_size buf = (buf, c_int (int (length buf)))"

definition psk_aead_encrypt :: "ossl \<Rightarrow> bytes \<Rightarrow> bytes \<Rightarrow> bytes \<Rightarrow> bytes \<Rightarrow> bytes Result" where
  "psk_aead_encrypt os key nonce plaintext aad =
     (if length key \<noteq> 32 then Err EC_INVALID_ARG
      else case os_gcm_encrypt os key nonce (with_int_size plaintext) (with_int_size aad) of
        None \<Rightarrow> Err EC_INTERNAL
      | Some out \<Rightarrow> Ok out)"

definition psk_aead_decrypt :: "ossl \<Rightarrow> bytes \<Rightarrow> bytes \<Rightarrow> bytes \<Rightarrow> bytes \<Rightarrow> bytes Result" where
  "psk_aead_decrypt os key nonce ciphertext aad =
     (if length key \<noteq> 32 \<or> length ciphertext < 16 then Err EC_INVALID_ARG
      else let body = length ciphertext - 16 in
        case os_gcm_decrypt os key nonce (with_int_size (take body ciphertext)) (drop body ciphertext) (with_int_size aad) of
          None \<Rightarrow> Err EC_CRYPTO_HMAC_MISMATCH
        | Some out \<Rightarrow> Ok out)"

lemma derive_ok:
  assumes "ossl_ok os" "psk \<noteq> []"
  obtains dk where "psk_derive_session_keys os psk salt = Ok dk" "length (dk_enc_key dk) = 32"
    "length (dk_mac_key dk) = 32"
proof -
  have hkdf: "\<exists>k. hkdf_sha256 os salt ikm info 32 = Ok k \<and> length k = 32" if "ikm \<noteq> []" for ikm info
  proof -
    have "(0 :: nat) < 32" "32 \<le> (255 * 32 :: nat)" by simp_all
    from assms(1) [unfolded ossl_ok_def, THEN conjunct2, THEN conjunct1, rule_format, OF that this]
    obtain k where "os_hkdf_sha256 os salt ikm info 32 = Some k" "length k = 32" by blast
    with that show ?thesis by (simp add: hkdf_sha256_def)
  qed
  obtain enc where e: "hkdf_sha256 os salt psk kSessionInfo 32 = Ok enc" "length enc = 32"
    using hkdf [OF assms(2)] by blast
  then have "enc \<noteq> []" by auto
  then obtain mac where m: "hkdf_sha256 os salt enc ''udaf-psk-v1-mac'' 32 = Ok mac" "length mac = 32"
    using hkdf by blast
  show ?thesis
    by (rule that [of "\<lparr>dk_enc_key = enc, dk_mac_key = mac\<rparr>"])
      (use e m in \<open>simp_all add: psk_derive_session_keys_def kSessionKeyLen_def\<close>)
qed

lemma with_int_size_small: "length buf < 2 ^ 31 \<Longrightarrow> with_int_size buf = (buf, int (length buf))"
  by (simp add: with_int_size_def)

lemma evp_range_small: "length buf < 2 ^ 31 \<Longrightarrow> evp_range buf (int (length buf))"
  by (simp add: evp_range_def)

lemma gcm_ok:
  assumes "ossl_ok os" "length k = 32" "length n = 12" "evp_range p v" "evp_range a w"
  obtains c t where "os_gcm_encrypt os k n (p, v) (a, w) = Some (c @ t)" "length c = nat v" "length t = 16"
    "os_gcm_decrypt os k n (c, v) t (a, w) = Some (take (nat v) p)"
  using assms(1) [unfolded ossl_ok_def, THEN conjunct2, THEN conjunct2, rule_format, OF assms(2-5)] by blast

lemma aead_roundtrip:
  assumes "ossl_ok os" "length key = 32" "length n = 12" "length p < 2 ^ 31" "length a < 2 ^ 31"
  obtains c where "psk_aead_encrypt os key n p a = Ok c" "psk_aead_decrypt os key n c a = Ok p"
    "length c = length p + 16"
proof -
  obtain c t where c: "os_gcm_encrypt os key n (p, int (length p)) (a, int (length a)) = Some (c @ t)"
    "length c = length p" "length t = 16" "os_gcm_decrypt os key n (c, int (length p)) t (a, int (length a)) = Some p"
    using gcm_ok [OF assms(1-3) evp_range_small [OF assms(4)] evp_range_small [OF assms(5)]] by auto
  have w: "with_int_size p = (p, int (length p))" "with_int_size a = (a, int (length a))"
    "with_int_size c = (c, int (length p))"
    using with_int_size_small [of c] with_int_size_small [of p] with_int_size_small [of a] assms(4,5) c(2) by simp_all
  show ?thesis
    by (rule that [of "c @ t"]) (simp_all add: psk_aead_encrypt_def psk_aead_decrypt_def assms(2) w c Let_def)
qed

text \<open>
  Past \<open>2 ^ 31\<close> bytes the size no longer fits: of a message of \<open>2 ^ 32 + m\<close> bytes the first \<open>m\<close> are
  encrypted, the call succeeds, and decryption gives those \<open>m\<close> bytes.
\<close>

lemma aead_truncates:
  assumes "ossl_ok os" "length key = 32" "length n = 12" "length p = 2 ^ 32 + m" "m < 2 ^ 31"
  shows "\<exists>c. psk_aead_encrypt os key n p [] = Ok c \<and> psk_aead_decrypt os key n c [] = Ok (take m p) \<and> length c = m + 16"
proof -
  have v: "c_int (int (length p)) = int m" using c_int_wraps [of 1 "int m"] assms(4,5) by simp
  have r: "evp_range p (int m)" "evp_range [] 0" using assms(4,5) by (simp_all add: evp_range_def)
  obtain c t where c: "os_gcm_encrypt os key n (p, int m) ([], 0) = Some (c @ t)" "length c = m" "length t = 16"
    "os_gcm_decrypt os key n (c, int m) t ([], 0) = Some (take m p)"
    using gcm_ok [OF assms(1-3) r] by auto
  have w: "with_int_size p = (p, int m)" "with_int_size [] = ([], 0)" "with_int_size c = (c, int m)"
    using v c(2) assms(5) by (simp_all add: with_int_size_def)
  show ?thesis
    by (rule exI [of _ "c @ t"]) (simp add: psk_aead_encrypt_def psk_aead_decrypt_def assms(2) w c Let_def)
qed

section \<open>The handshake\<close>

definition psk_handshake_client_new :: "bytes \<Rightarrow> rand_src \<Rightarrow> AuthRequest \<times> rand_src" where
  "psk_handshake_client_new identity rs =
     (case random_bytes (replicate 32 0) rs of (_, client_random, rs1) \<Rightarrow>
      case random_bytes (replicate 32 0) rs1 of (_, salt, rs2) \<Rightarrow>
        (\<lparr>rq_client_random = client_random, rq_salt = salt, rq_identity = identity\<rparr>, rs2))"

definition handshake_mac_data :: "AuthRequest \<Rightarrow> bytes \<Rightarrow> bytes \<Rightarrow> bytes \<Rightarrow> bytes" where
  "handshake_mac_data request server_random nonce enc =
     rq_client_random request @ server_random @ nonce @ enc"

definition psk_handshake_server_respond :: "ossl \<Rightarrow> bytes \<Rightarrow> AuthRequest \<Rightarrow> rand_src
    \<Rightarrow> AuthResponse Result \<times> rand_src" where
  "psk_handshake_server_respond os psk request rs =
     (if length psk \<noteq> 32 \<or> length (rq_client_random request) \<noteq> 32 \<or> length (rq_salt request) \<noteq> 32
      then (Err EC_INVALID_ARG, rs)
      else case random_bytes (replicate 32 0) rs of (_, server_random, rs1) \<Rightarrow>
      case random_bytes (replicate 32 0) rs1 of (_, salt, rs2) \<Rightarrow>
      case random_nonce rs2 of (nonce, rs3) \<Rightarrow>
      (case psk_derive_session_keys os psk (rq_salt request) of
         Ok dk \<Rightarrow>
           (case psk_aead_encrypt os (dk_enc_key dk) nonce server_random (rq_client_random request) of
              Ok enc \<Rightarrow>
                (case hmac_sha256 os (dk_mac_key dk) (handshake_mac_data request server_random nonce enc) of
                   Ok mac \<Rightarrow>
                     if length mac \<noteq> 32 then (Err EC_INTERNAL, rs3)
                     else (Ok \<lparr>rs_server_random = server_random, rs_salt = salt,
                             rs_encrypted_session_key = enc, rs_nonce = nonce, rs_mac = mac\<rparr>, rs3)
                 | r \<Rightarrow> (Err (error r), rs3))
            | r \<Rightarrow> (Err (error r), rs3))
       | r \<Rightarrow> (Err (error r), rs3)))"

definition psk_handshake_client_finalize :: "ossl \<Rightarrow> bytes \<Rightarrow> AuthRequest \<Rightarrow> AuthResponse \<Rightarrow> DerivedKeys Result" where
  "psk_handshake_client_finalize os psk request response =
     (if length psk \<noteq> 32 then Err EC_INVALID_ARG
      else case psk_derive_session_keys os psk (rq_salt request) of
        Ok dk \<Rightarrow>
          (case hmac_sha256_verify os (dk_mac_key dk)
              (handshake_mac_data request (rs_server_random response) (rs_nonce response)
                 (rs_encrypted_session_key response)) (rs_mac response) of
             Ok _ \<Rightarrow>
               (case psk_aead_decrypt os (dk_enc_key dk) (rs_nonce response)
                   (rs_encrypted_session_key response) (rq_client_random request) of
                  Ok _ \<Rightarrow> Ok \<lparr>dk_enc_key = dk_enc_key dk, dk_mac_key = dk_mac_key dk\<rparr>
                | r \<Rightarrow> Err (error r))
           | r \<Rightarrow> Err (error r))
      | r \<Rightarrow> Err (error r))"

lemma server_respond_ok:
  assumes "ossl_ok os" "length psk = 32" "length (rq_client_random req) = 32" "length (rq_salt req) = 32"
  obtains resp rs' dk where "psk_handshake_server_respond os psk req rs = (Ok resp, rs')"
    "psk_derive_session_keys os psk (rq_salt req) = Ok dk"
    "length (dk_enc_key dk) = 32" "length (dk_mac_key dk) = 32"
    "os_hmac_sha256 os (dk_mac_key dk) (handshake_mac_data req (rs_server_random resp) (rs_nonce resp)
       (rs_encrypted_session_key resp)) = Some (rs_mac resp)"
    "psk_aead_decrypt os (dk_enc_key dk) (rs_nonce resp) (rs_encrypted_session_key resp)
       (rq_client_random req) = Ok (rs_server_random resp)"
    "length (rs_server_random resp) = 32" "length (rs_salt resp) = 32" "length (rs_nonce resp) = 12"
    "length (rs_mac resp) = 32" "length (rs_encrypted_session_key resp) = 48"
proof -
  obtain b1 sr rs1 where 1: "random_bytes (replicate 32 0) rs = (b1, sr, rs1)" by (metis prod_cases3)
  obtain b2 sa rs2 where 2: "random_bytes (replicate 32 0) rs1 = (b2, sa, rs2)" by (metis prod_cases3)
  obtain n rs3 where 3: "random_nonce rs2 = (n, rs3)" by fastforce
  have len: "length sr = 32" "length sa = 32" "length n = 12"
    using length_random [OF 1] length_random [OF 2] length_random_nonce [OF 3] by simp_all
  have "psk \<noteq> []" using assms(2) by auto
  then obtain dk where dk: "psk_derive_session_keys os psk (rq_salt req) = Ok dk"
    "length (dk_enc_key dk) = 32" "length (dk_mac_key dk) = 32"
    by (rule derive_ok [OF assms(1)])
  have small: "length sr < 2 ^ 31" "length (rq_client_random req) < 2 ^ 31" using len(1) assms(3) by simp_all
  obtain c where c: "psk_aead_encrypt os (dk_enc_key dk) n sr (rq_client_random req) = Ok c"
    "psk_aead_decrypt os (dk_enc_key dk) n c (rq_client_random req) = Ok sr" "length c = length sr + 16"
    by (rule aead_roundtrip [OF assms(1) dk(2) len(3) small])
  have "dk_mac_key dk \<noteq> []" using dk(3) by auto
  then obtain t where t: "hmac_sha256 os (dk_mac_key dk) (handshake_mac_data req sr n c) = Ok t"
    "os_hmac_sha256 os (dk_mac_key dk) (handshake_mac_data req sr n c) = Some t" "length t = 32"
    by (rule hmac_ok [OF assms(1)])
  show ?thesis
    by (rule that [of "\<lparr>rs_server_random = sr, rs_salt = sa, rs_encrypted_session_key = c,
        rs_nonce = n, rs_mac = t\<rparr>" rs3 dk])
      (use assms 1 2 3 len dk c t in \<open>simp_all add: psk_handshake_server_respond_def\<close>)
qed

text \<open>
  C13. The client only accepts an authentic answer: when \<open>psk_handshake_client_finalize\<close>
  succeeds, the response carries the HMAC, under the key both sides derive from the pre-shared key
  and the client's salt, of the client's and the server's random numbers, the nonce and the
  encrypted key, and the encrypted key decrypts; the keys it returns are those derived ones.
\<close>

theorem client_accepts_authentic:
  assumes "ossl_ok os" "psk_handshake_client_finalize os psk req resp = Ok keys"
  shows "psk_derive_session_keys os psk (rq_salt req) = Ok keys \<and>
    os_hmac_sha256 os (dk_mac_key keys) (rq_client_random req @ rs_server_random resp @ rs_nonce resp
      @ rs_encrypted_session_key resp) = Some (rs_mac resp) \<and>
    (\<exists>k. psk_aead_decrypt os (dk_enc_key keys) (rs_nonce resp) (rs_encrypted_session_key resp)
      (rq_client_random req) = Ok k)"
proof -
  from assms(2) have psk: "psk \<noteq> []" by (auto simp: psk_handshake_client_finalize_def split: if_splits)
  obtain dk where dk: "psk_derive_session_keys os psk (rq_salt req) = Ok dk"
    "length (dk_enc_key dk) = 32" "length (dk_mac_key dk) = 32"
    by (rule derive_ok [OF assms(1) psk])
  from assms(2) dk(1) obtain k where v: "hmac_sha256_verify os (dk_mac_key dk) (handshake_mac_data req
      (rs_server_random resp) (rs_nonce resp) (rs_encrypted_session_key resp)) (rs_mac resp) = Ok ()"
    and k: "psk_aead_decrypt os (dk_enc_key dk) (rs_nonce resp) (rs_encrypted_session_key resp)
      (rq_client_random req) = Ok k"
    and keys: "keys = dk"
    by (auto simp: psk_handshake_client_finalize_def split: if_splits Result.splits)
  from v have "length (rs_mac resp) = 32"
    by (auto simp: hmac_sha256_verify_def split: if_splits)
  moreover have "dk_mac_key dk \<noteq> []" using dk(3) by auto
  ultimately have "os_hmac_sha256 os (dk_mac_key dk) (handshake_mac_data req (rs_server_random resp)
      (rs_nonce resp) (rs_encrypted_session_key resp)) = Some (rs_mac resp)"
    using hmac_verify_iff [OF assms(1)] v by (metis Result.distinct(5))
  with dk(1) k keys show ?thesis by (auto simp: handshake_mac_data_def)
qed

text \<open>A concrete choice of the primitives that has the documented properties.\<close>

definition sample_ossl :: ossl where
  "sample_ossl = \<lparr>os_hmac_sha256 = (\<lambda>k m. Some (take 32 (k @ m @ replicate 32 0))),
     os_hkdf_sha256 = (\<lambda>s k i n. Some (take n (k @ s @ replicate n 0))),
     os_gcm_encrypt = (\<lambda>k n (p, v) a. Some (take (nat v) p @ replicate 16 0)),
     os_gcm_decrypt = (\<lambda>k n (c, v) t a. Some (take (nat v) c))\<rparr>"

lemma sample_ossl_ok: "ossl_ok sample_ossl"
  unfolding ossl_ok_def
proof (intro conjI allI impI)
  fix k n p v and a :: bytes and w
  assume "evp_range p v"
  then show "\<exists>c t. os_gcm_encrypt sample_ossl k n (p, v) (a, w) = Some (c @ t) \<and> length c = nat v \<and> length t = 16
      \<and> os_gcm_decrypt sample_ossl k n (c, v) t (a, w) = Some (take (nat v) p)"
    by (intro exI [of _ "take (nat v) p"] exI [of _ "replicate 16 0"]) (auto simp: sample_ossl_def evp_range_def)
qed (auto simp: sample_ossl_def min_def)

theorem client_accepts_authentic_witness:
  "\<exists>resp. fst (psk_handshake_server_respond sample_ossl (replicate 32 1)
      \<lparr>rq_client_random = replicate 32 2, rq_salt = replicate 32 3, rq_identity = []\<rparr> []) = Ok resp \<and>
    os_hmac_sha256 sample_ossl (replicate 32 1) (replicate 32 2 @ rs_server_random resp @ rs_nonce resp
      @ rs_encrypted_session_key resp) = Some (rs_mac resp)"
proof -
  let ?psk = "replicate 32 1 :: bytes"
  let ?req = "\<lparr>rq_client_random = replicate 32 2, rq_salt = replicate 32 3, rq_identity = []\<rparr>"
  obtain resp rs' dk where r: "psk_handshake_server_respond sample_ossl ?psk ?req [] = (Ok resp, rs')"
    "psk_derive_session_keys sample_ossl ?psk (rq_salt ?req) = Ok dk"
    "length (dk_enc_key dk) = 32" "length (dk_mac_key dk) = 32"
    "os_hmac_sha256 sample_ossl (dk_mac_key dk) (handshake_mac_data ?req (rs_server_random resp) (rs_nonce resp)
       (rs_encrypted_session_key resp)) = Some (rs_mac resp)"
    "psk_aead_decrypt sample_ossl (dk_enc_key dk) (rs_nonce resp) (rs_encrypted_session_key resp)
       (rq_client_random ?req) = Ok (rs_server_random resp)" "length (rs_mac resp) = 32"
    by (rule server_respond_ok [OF sample_ossl_ok, of ?psk ?req "[]"]) simp_all
  have "dk_mac_key dk \<noteq> []" using r(4) by auto
  then have "psk_handshake_client_finalize sample_ossl ?psk ?req resp = Ok dk"
    using r(2,5,6,7) hmac_verify_iff [OF sample_ossl_ok, of "dk_mac_key dk" "rs_mac resp"]
    by (simp add: psk_handshake_client_finalize_def)
  from client_accepts_authentic [OF sample_ossl_ok this]
  have "os_hmac_sha256 sample_ossl (dk_mac_key dk) (replicate 32 2 @ rs_server_random resp @ rs_nonce resp
      @ rs_encrypted_session_key resp) = Some (rs_mac resp)" by simp
  moreover have "dk_mac_key dk = replicate 32 1"
    using r(2) by (auto simp: psk_derive_session_keys_def hkdf_sha256_def sample_ossl_def kSessionKeyLen_def)
  ultimately show ?thesis using r(1) by auto
qed

end
