(* ===== verification/Text_Codec.thy ===== *)
theory Text_Codec
  imports Interfaces
begin

text \<open>
  The text conversions the components take from the C++ standard library: string literals as
  bytes, decimal output (\<open>operator<<\<close> on integers), \<open>std::stoull\<close> and \<open>std::stoll\<close>,
  lower-case hexadecimal, and \<open>std::getline\<close>. With the inverse laws the components rest on.
\<close>

unbundle bit_operations_syntax

named_theorems text_simps \<open>which separators the printed forms avoid\<close>

section \<open>Literals and separators\<close>

definition str :: "string \<Rightarrow> bytes" where
  "str s = map of_char s"

abbreviation bar :: byte where "bar \<equiv> 124"
abbreviation newline :: byte where "newline \<equiv> 10"

lemma str_simps [simp]: "str [] = []" "str (c # cs) = of_char c # str cs" "length (str s) = length s"
  by (simp_all add: str_def)

lemma str_append: "str (s @ t) = str s @ str t"
  by (simp add: str_def)

section \<open>Decimal numbers\<close>

definition digit :: "nat \<Rightarrow> byte" where
  "digit d = of_nat (48 + d)"

fun dec_nat :: "nat \<Rightarrow> bytes" where
  "dec_nat n = (if n < 10 then [digit n] else dec_nat (n div 10) @ [digit (n mod 10)])"

declare dec_nat.simps [simp del]

definition dec_u64 :: "u64 \<Rightarrow> bytes" where
  "dec_u64 w = dec_nat (unat w)"

definition dec_int :: "int \<Rightarrow> bytes" where
  "dec_int k = (if k < 0 then 45 # dec_nat (nat (- k)) else dec_nat (nat k))"

definition is_digit :: "byte \<Rightarrow> bool" where
  "is_digit b = (48 \<le> unat b \<and> unat b \<le> 57)"

definition is_space :: "byte \<Rightarrow> bool" where
  "is_space b = (unat b = 32 \<or> (9 \<le> unat b \<and> unat b \<le> 13))"

definition digits_val :: "bytes \<Rightarrow> nat" where
  "digits_val ds = foldl (\<lambda>n b. n * 10 + (unat b - 48)) 0 ds"

text \<open>Leading space, a sign, and the digits that follow; what comes after them is ignored.\<close>

definition scan_number :: "bytes \<Rightarrow> (bool \<times> nat) option" where
  "scan_number s =
     (let s = dropWhile is_space s;
          neg = (s \<noteq> [] \<and> hd s = 45);
          s = (if s \<noteq> [] \<and> (hd s = 45 \<or> hd s = 43) then tl s else s);
          ds = takeWhile is_digit s
      in if ds = [] then None else Some (neg, digits_val ds))"

text \<open>\<open>None\<close> is the exception. \<open>stoull\<close> accepts a minus sign and wraps.\<close>

definition stoull :: "bytes \<Rightarrow> u64 option" where
  "stoull s = (case scan_number s of
      None \<Rightarrow> None
    | Some (neg, n) \<Rightarrow> if 2 ^ 64 \<le> n then None else Some (if neg then - of_nat n else of_nat n))"

definition stoll :: "bytes \<Rightarrow> int option" where
  "stoll s = (case scan_number s of
      None \<Rightarrow> None
    | Some (neg, n) \<Rightarrow>
        let k = (if neg then - int n else int n) in
        if k < - (2 ^ 63) \<or> 2 ^ 63 \<le> k then None else Some k)"

lemma unat_digit: "d < 10 \<Longrightarrow> unat (digit d) = 48 + d"
  unfolding digit_def unat_of_nat by simp

lemma is_digit_digit: "d < 10 \<Longrightarrow> is_digit (digit d)"
  by (simp add: is_digit_def unat_digit)

lemma dec_nat_digits: "list_all is_digit (dec_nat n)"
proof (induction n rule: dec_nat.induct)
  case (1 n)
  then show ?case by (subst dec_nat.simps) (simp add: is_digit_digit)
qed

lemma dec_nat_nonempty [simp]: "dec_nat n \<noteq> []"
  by (subst dec_nat.simps) simp

lemma digits_val_append: "digits_val (ds @ [b]) = digits_val ds * 10 + (unat b - 48)"
  by (simp add: digits_val_def)

lemma digits_val_dec: "digits_val (dec_nat n) = n"
proof (induction n rule: dec_nat.induct)
  case (1 n)
  show ?case
  proof (cases "n < 10")
    case True
    then show ?thesis by (subst dec_nat.simps) (simp add: digits_val_def unat_digit)
  next
    case False
    with 1 show ?thesis by (subst dec_nat.simps) (simp add: digits_val_append unat_digit)
  qed
qed

text \<open>A separator ends the number.\<close>

definition ends_number :: "bytes \<Rightarrow> bool" where
  "ends_number rest = (rest = [] \<or> \<not> is_digit (hd rest))"

lemma takeWhile_digits:
  "list_all is_digit ds \<Longrightarrow> ends_number rest \<Longrightarrow> takeWhile is_digit (ds @ rest) = ds"
  by (induction ds) (auto simp: ends_number_def intro: takeWhile_eq_Nil_iff [THEN iffD2] split: list.splits)

lemma dec_nat_hd: "is_digit (hd (dec_nat n @ rest))"
  using dec_nat_digits [of n] dec_nat_nonempty [of n] by (cases "dec_nat n") auto

lemma digit_not: "is_digit b \<Longrightarrow> \<not> is_space b \<and> b \<noteq> 45 \<and> b \<noteq> 43 \<and> b \<noteq> bar \<and> b \<noteq> newline"
  by (auto simp: is_digit_def is_space_def)

lemma scan_dec:
  assumes "ends_number rest"
  shows "scan_number (dec_nat n @ rest) = Some (False, n)"
    "scan_number (45 # dec_nat n @ rest) = Some (True, n)"
proof -
  have d: "dropWhile is_space (dec_nat n @ rest) = dec_nat n @ rest"
    using digit_not [OF dec_nat_hd [of n rest]] by (cases "dec_nat n @ rest") auto
  have t: "takeWhile is_digit (dec_nat n @ rest) = dec_nat n"
    by (rule takeWhile_digits [OF dec_nat_digits assms])
  show "scan_number (dec_nat n @ rest) = Some (False, n)"
    using digit_not [OF dec_nat_hd [of n rest]] by (simp add: scan_number_def Let_def d t digits_val_dec)
  have "\<not> is_space (45 :: byte)" by (simp add: is_space_def)
  then show "scan_number (45 # dec_nat n @ rest) = Some (True, n)"
    by (simp add: scan_number_def Let_def t digits_val_dec)
qed

lemma stoull_dec: "stoull (dec_u64 w) = Some w"
proof -
  have "unat w < 2 ^ 64" using unsigned_less [of w, where ?'a = nat] by simp
  then show ?thesis
    using scan_dec(1) [of "[]" "unat w"] by (simp add: stoull_def dec_u64_def ends_number_def)
qed

lemma stoll_dec: "- (2 ^ 63) \<le> k \<Longrightarrow> k < 2 ^ 63 \<Longrightarrow> stoll (dec_int k) = Some k"
  using scan_dec [of "[]"] by (auto simp: stoll_def dec_int_def ends_number_def Let_def)

section \<open>Hexadecimal\<close>

definition hex_of :: "byte \<Rightarrow> byte" where
  "hex_of d = (str ''0123456789abcdef'') ! unat (d AND 0xF)"

definition to_hex :: "bytes \<Rightarrow> bytes" where
  "to_hex bs = concat (map (\<lambda>b. [hex_of (drop_bit 4 b), hex_of b]) bs)"

lemma length_to_hex [simp]: "length (to_hex bs) = 2 * length bs"
  by (induction bs) (simp_all add: to_hex_def)

lemma nibble: "unat (d AND 0xF :: byte) < 16"
proof -
  have "(0xF :: byte) = mask 4" by (simp add: mask_eq_exp_minus_1)
  then have "(d AND 0xF) < 2 ^ 4" using and_mask_less' [of 4 d] by simp
  then show ?thesis by (simp add: word_less_nat_alt)
qed

lemma hex_of_mem: "hex_of d \<in> set (str ''0123456789abcdef'')"
  unfolding hex_of_def by (rule nth_mem) (use nibble [of d] in simp)

lemma hex_of_inj: "hex_of a = hex_of b \<longleftrightarrow> a AND 0xF = b AND 0xF"
proof -
  have d: "distinct (str ''0123456789abcdef'')" by (simp add: word_unat_eq_iff)
  have "hex_of a = hex_of b \<longleftrightarrow> unat (a AND 0xF) = unat (b AND 0xF)"
    unfolding hex_of_def by (rule nth_eq_iff_index_eq [OF d]) (use nibble [of a] nibble [of b] in simp_all)
  then show ?thesis by (simp add: word_unat_eq_iff [symmetric])
qed

lemma byte_of_nibbles:
  assumes "drop_bit 4 a AND 0xF = drop_bit 4 b AND (0xF :: byte)" "a AND 0xF = b AND 0xF"
  shows "a = b"
proof (rule bit_word_eqI)
  fix n assume n: "n < LENGTH(8)"
  have m: "(0xF :: byte) = mask 4" by (simp add: mask_eq_exp_minus_1)
  show "bit a n \<longleftrightarrow> bit b n"
  proof (cases "n < 4")
    case True
    then show ?thesis using arg_cong [OF assms(2), of "\<lambda>w. bit w n"] n by (simp add: m bit_simps)
  next
    case False
    then have "4 + (n - 4) = n" "n - 4 < 4" using n by simp_all
    then show ?thesis using arg_cong [OF assms(1), of "\<lambda>w. bit w (n - 4)"] n by (simp add: m bit_simps)
  qed
qed

lemma to_hex_inj: "to_hex a = to_hex b \<longleftrightarrow> a = b"
proof
  show "to_hex a = to_hex b \<Longrightarrow> a = b"
  proof (induction a arbitrary: b)
    case (Cons x a)
    then obtain y b' where b: "b = y # b'" by (cases b) (auto simp: to_hex_def)
    with Cons.prems have "hex_of (drop_bit 4 x) = hex_of (drop_bit 4 y)" "hex_of x = hex_of y" "to_hex a = to_hex b'"
      by (simp_all add: to_hex_def)
    with Cons.IH b show ?case by (auto simp: hex_of_inj intro: byte_of_nibbles)
  qed (simp add: to_hex_def)
qed simp

text \<open>A byte put together from two digits comes apart into them.\<close>

lemma low_nibble: "unat (b AND 0x0F :: byte) = unat b mod 16"
proof -
  have "(0x0F :: byte) = mask 4" by (simp add: mask_eq_exp_minus_1)
  then have "b AND 0x0F = take_bit 4 b" by (simp only: take_bit_eq_mask)
  then show ?thesis by (simp only: unsigned_take_bit_eq) (simp add: take_bit_eq_mod)
qed

lemma nibble_pair:
  assumes "hi < 16" "lo < 16"
  shows "unat (drop_bit 4 (of_nat (push_bit 4 hi OR lo) :: byte) AND 0x0F) = hi"
    "unat ((of_nat (push_bit 4 hi OR lo) :: byte) AND 0x0F) = lo"
proof -
  have "push_bit 4 hi AND lo = 0"
  proof (rule bit_eqI)
    fix n
    have "\<not> bit lo n" if "4 \<le> n"
    proof -
      have "lo < 2 ^ n" using assms(2) power_increasing [OF that, of "2::nat"] by simp
      then show ?thesis by (simp add: bit_iff_odd)
    qed
    then show "bit (push_bit 4 hi AND lo) n \<longleftrightarrow> bit (0::nat) n" by (auto simp: bit_simps)
  qed
  then have "push_bit 4 hi OR lo = 16 * hi + lo"
    using disjunctive_add_eq_or [of "push_bit 4 hi" lo] by (simp add: push_bit_eq_mult)
  then have u: "unat (of_nat (push_bit 4 hi OR lo) :: byte) = 16 * hi + lo"
    by (simp only: unat_of_nat) (use assms in simp)
  have "unat (drop_bit 4 (of_nat (push_bit 4 hi OR lo) :: byte)) = hi"
    by (simp only: unsigned_drop_bit_eq u) (use assms in \<open>simp add: drop_bit_eq_div take_bit_eq_mod\<close>)
  with assms(1) show "unat (drop_bit 4 (of_nat (push_bit 4 hi OR lo) :: byte) AND 0x0F) = hi"
    by (simp add: low_nibble)
  show "unat ((of_nat (push_bit 4 hi OR lo) :: byte) AND 0x0F) = lo" using assms by (simp only: low_nibble u) simp
qed
section \<open>Separated text\<close>

text \<open>\<open>plain s\<close>: neither the separator nor the end of a line occurs.\<close>

definition plain :: "bytes \<Rightarrow> bool" where
  "plain s = (bar \<notin> set s \<and> newline \<notin> set s)"

lemma plain_append [simp]: "plain (s @ t) \<longleftrightarrow> plain s \<and> plain t"
  by (auto simp: plain_def)

lemma plain_Cons [simp]: "plain (b # s) \<longleftrightarrow> b \<noteq> bar \<and> b \<noteq> newline \<and> plain s"
  by (auto simp: plain_def)

lemma plain_Nil [simp]: "plain []"
  by (simp add: plain_def)

lemma plain_dec_nat [simp, text_simps]: "plain (dec_nat n)"
  using dec_nat_digits [of n] digit_not by (auto simp: plain_def list_all_iff)

lemma plain_dec_u64 [simp, text_simps]: "plain (dec_u64 w)"
  by (simp add: dec_u64_def)

lemma plain_dec_int [simp, text_simps]: "plain (dec_int k)"
  by (simp add: dec_int_def)

lemma plain_to_hex [simp, text_simps]: "plain (to_hex bs)"
proof -
  have "hex_of d \<noteq> bar \<and> hex_of d \<noteq> newline" for d
    using hex_of_mem [of d] by (auto simp: word_unat_eq_iff)
  then show ?thesis by (induction bs) (simp_all add: to_hex_def)
qed

text \<open>\<open>cut_fields k s\<close>: the first \<open>k\<close> fields, each ended by a bar, and what follows the last bar.\<close>

fun cut_fields :: "nat \<Rightarrow> bytes \<Rightarrow> (bytes list \<times> bytes) option" where
  "cut_fields 0 s = Some ([], s)"
| "cut_fields (Suc k) s = (case dropWhile (\<lambda>b. b \<noteq> bar) s of
      [] \<Rightarrow> None
    | _ # rest \<Rightarrow> map_option (\<lambda>(fs, t). (takeWhile (\<lambda>b. b \<noteq> bar) s # fs, t)) (cut_fields k rest))"

lemma cut_field: "plain f \<Longrightarrow> cut_fields (Suc k) (f @ bar # rest) = map_option (\<lambda>(fs, t). (f # fs, t)) (cut_fields k rest)"
proof -
  assume "plain f"
  then have "dropWhile (\<lambda>b. b \<noteq> bar) (f @ bar # rest) = bar # rest" "takeWhile (\<lambda>b. b \<noteq> bar) (f @ bar # rest) = f"
    by (induction f) simp_all
  then show ?thesis by simp
qed

text \<open>
  Repeated \<open>std::getline\<close>: the text between the newlines, and a last piece only if it is not
  empty.
\<close>

fun lines_from :: "bytes \<Rightarrow> bytes \<Rightarrow> bytes list" where
  "lines_from acc [] = (if acc = [] then [] else [acc])"
| "lines_from acc (b # bs) = (if b = newline then acc # lines_from [] bs else lines_from (acc @ [b]) bs)"

definition lines_of :: "bytes \<Rightarrow> bytes list" where
  "lines_of s = lines_from [] s"

lemma lines_from_line: "newline \<notin> set l \<Longrightarrow> lines_from acc (l @ newline # s) = (acc @ l) # lines_of s"
  by (induction l arbitrary: acc) (simp_all add: lines_of_def)

lemma lines_of_line: "newline \<notin> set l \<Longrightarrow> lines_of (l @ newline # s) = l # lines_of s"
  using lines_from_line [of l "[]"] by (simp add: lines_of_def)

lemma lines_of_Nil [simp]: "lines_of [] = []"
  by (simp add: lines_of_def)

lemma lines_of_lines:
  "list_all (\<lambda>l. newline \<notin> set l) ls \<Longrightarrow> lines_of (concat (map (\<lambda>l. l @ [newline]) ls)) = ls"
  by (induction ls) (simp_all add: lines_of_line)

lemma lines_of_lines_append:
  "list_all (\<lambda>l. newline \<notin> set l) ls \<Longrightarrow> lines_of (concat (map (\<lambda>l. l @ [newline]) ls) @ rest) = ls @ lines_of rest"
  by (induction ls) (simp_all add: lines_of_line)

end
