(* ===== verification/Tls.thy ===== *)
theory Tls
  imports Crypto Text_Codec "HOL-Library.Multiset" "HOL-Library.Sublist"
begin

text \<open>
  \<open>src/crypto/tls_context.*\<close> (contexts of the TLS library and their factories), \<open>pki.*\<close> (the
  handshake driver over such a context) and \<open>pki_authenticator.*\<close>. The state of the TLS library is
  not known here: the model keeps the list of the calls the code makes (\<open>ssl_log\<close>), and what a call
  answers is an argument. A handle of the library is a number that no earlier call has answered; for
  a certificate it stands for the reference that the caller has to give back.

  Shown: every program over these classes uses and frees the library's contexts, connections and
  certificates as its interface demands and leaks none; each context it can use has been told what
  its factory is for; the callbacks stay inside the library's buffers.
\<close>

section \<open>Calls of the TLS library\<close>

datatype ssl_method = Server_method | Client_method

datatype ctx_setting = App_data | Min_tls13 | Max_tls13 | Psk_server_cb | Psk_client_cb | Identity_hint bytes
  | Groups_list bytes | Verify_peer | Load_verify bytes int | Cert_file bytes int | Key_file bytes int | Check_key int

datatype ssl_setting = Set_fd int | Moving_write_buffer | Accept_state | Connect_state | Ssl_accept | Ssl_connect
  | Ssl_write bytes int | Ssl_read int

datatype ssl_call = Ctx_new ssl_method "nat option" | Ctx_set nat ctx_setting | Ctx_free nat
  | Ssl_new nat "nat option" | Ssl_do nat ssl_setting | Ssl_free nat
  | Get_peer_certificate nat "nat option" | X509_digest nat bool | X509_free nat

type_synonym ssl_log = "ssl_call list"

fun ctx_bound :: "ssl_call \<Rightarrow> nat" where
  "ctx_bound (Ctx_new m (Some c)) = Suc c"
| "ctx_bound _ = 0"

fun ssl_bound :: "ssl_call \<Rightarrow> nat" where
  "ssl_bound (Ssl_new c (Some s)) = Suc s"
| "ssl_bound _ = 0"

definition next_ctx :: "ssl_log \<Rightarrow> nat" where
  "next_ctx w = fold max (map ctx_bound w) 0"

definition next_ssl :: "ssl_log \<Rightarrow> nat" where
  "next_ssl w = fold max (map ssl_bound w) 0"

definition ctx_new :: "ssl_method \<Rightarrow> bool \<Rightarrow> ssl_log \<Rightarrow> nat option \<times> ssl_log" where
  "ctx_new m ok w = (let c = (if ok then Some (next_ctx w) else None) in (c, w @ [Ctx_new m c]))"

definition ssl_new :: "nat \<Rightarrow> bool \<Rightarrow> ssl_log \<Rightarrow> nat option \<times> ssl_log" where
  "ssl_new c ok w = (let s = (if ok then Some (next_ssl w) else None) in (s, w @ [Ssl_new c s]))"

fun cert_bound :: "ssl_call \<Rightarrow> nat" where
  "cert_bound (Get_peer_certificate s (Some x)) = Suc x"
| "cert_bound _ = 0"

definition next_cert :: "ssl_log \<Rightarrow> nat" where
  "next_cert w = fold max (map cert_bound w) 0"

definition get_peer_certificate :: "nat \<Rightarrow> bool \<Rightarrow> ssl_log \<Rightarrow> nat option \<times> ssl_log" where
  "get_peer_certificate s has w = (let x = (if has then Some (next_cert w) else None) in (x, w @ [Get_peer_certificate s x]))"

definition ctx_set :: "nat \<Rightarrow> ctx_setting list \<Rightarrow> ssl_log \<Rightarrow> ssl_log" where
  "ctx_set c xs w = w @ map (Ctx_set c) xs"

definition ssl_do :: "nat \<Rightarrow> ssl_setting list \<Rightarrow> ssl_log \<Rightarrow> ssl_log" where
  "ssl_do s xs w = w @ map (Ssl_do s) xs"

section \<open>Contexts\<close>

datatype tls_mode = ServerPsk | ClientPsk | ServerPki | ClientPki

record tls_impl =
  ti_ctx :: "nat option"
  ti_mode :: tls_mode
  ti_psk :: bytes
  ti_identity :: bytes

record tls_context =
  tls_pimpl :: "tls_impl option"

definition impl_new :: "tls_mode \<Rightarrow> tls_impl" where
  "impl_new m = \<lparr>ti_ctx = None, ti_mode = m, ti_psk = [], ti_identity = []\<rparr>"

definition impl_destroy :: "tls_impl \<Rightarrow> ssl_log \<Rightarrow> ssl_log" where
  "impl_destroy i w = (case ti_ctx i of Some c \<Rightarrow> w @ [Ctx_free c] | None \<Rightarrow> w)"

definition tls_default :: tls_context where
  "tls_default = \<lparr>tls_pimpl = None\<rparr>"

definition tls_is_valid :: "tls_context \<Rightarrow> bool" where
  "tls_is_valid t = (tls_pimpl t \<noteq> None)"

definition tls_native_handle :: "tls_context \<Rightarrow> nat option" where
  "tls_native_handle t = (case tls_pimpl t of Some i \<Rightarrow> ti_ctx i | None \<Rightarrow> None)"

definition tls_mode_of :: "tls_context \<Rightarrow> tls_mode" where
  "tls_mode_of t = (case tls_pimpl t of Some i \<Rightarrow> ti_mode i | None \<Rightarrow> ServerPki)"

definition tls_destroy :: "tls_context \<Rightarrow> ssl_log \<Rightarrow> ssl_log" where
  "tls_destroy t w = (case tls_pimpl t of Some i \<Rightarrow> impl_destroy i w | None \<Rightarrow> w)"

text \<open>The new object and what is left in the old one.\<close>

definition tls_move :: "tls_context \<Rightarrow> tls_context \<times> tls_context" where
  "tls_move other = (\<lparr>tls_pimpl = tls_pimpl other\<rparr>, other\<lparr>tls_pimpl := None\<rparr>)"

definition tls_move_assign :: "tls_context \<Rightarrow> tls_context \<Rightarrow> ssl_log \<Rightarrow> tls_context \<times> tls_context \<times> ssl_log" where
  "tls_move_assign self other w =
     (self\<lparr>tls_pimpl := tls_pimpl other\<rparr>, other\<lparr>tls_pimpl := None\<rparr>, tls_destroy self w)"

text \<open>\<open>std::string::c_str\<close> as the library reads it: up to the first zero byte.\<close>

definition c_text :: "bytes \<Rightarrow> bytes" where
  "c_text s = takeWhile (\<lambda>b. b \<noteq> 0) s"

definition tls13_groups :: ctx_setting where
  "tls13_groups = Groups_list (str ''X25519:P-256:P-384'')"

definition create_psk :: "bool \<Rightarrow> tls_mode \<Rightarrow> bytes \<Rightarrow> bytes \<Rightarrow> ssl_log \<Rightarrow> tls_context option \<times> ssl_log" where
  "create_psk new_ok mode psk identity w =
     (if length psk \<noteq> 32 then (None, w)
      else
        let i = (impl_new mode)\<lparr>ti_psk := psk, ti_identity := identity\<rparr>;
            (c, w) = ctx_new (if mode = ServerPsk then Server_method else Client_method) new_ok w
        in case c of
             None \<Rightarrow> (None, tls_destroy \<lparr>tls_pimpl = Some i\<rparr> w)
           | Some c \<Rightarrow> (Some \<lparr>tls_pimpl = Some (i\<lparr>ti_ctx := Some c\<rparr>)\<rparr>,
               ctx_set c ([App_data, Min_tls13, Max_tls13, Psk_server_cb, Psk_client_cb]
                 @ (if mode = ClientPsk then [Identity_hint (c_text identity)] else []) @ [tls13_groups]) w))"

text \<open>What the library answers to the calls of the certificate factories; 1 is success.\<close>

record pki_answers =
  pk_new :: bool
  pk_ca :: int
  pk_cert :: int
  pk_key :: int
  pk_check :: int

definition create_server_pki :: "pki_answers \<Rightarrow> bytes \<Rightarrow> bytes \<Rightarrow> ssl_log \<Rightarrow> tls_context option \<times> ssl_log" where
  "create_server_pki ans cert_file key_file w =
     (let i = impl_new ServerPki; (c, w) = ctx_new Server_method (pk_new ans) w in
      case c of
        None \<Rightarrow> (None, tls_destroy \<lparr>tls_pimpl = Some i\<rparr> w)
      | Some c \<Rightarrow>
          let t = \<lparr>tls_pimpl = Some (i\<lparr>ti_ctx := Some c\<rparr>)\<rparr>;
              w = ctx_set c [Min_tls13, Max_tls13] w;
              w = ctx_set c [Cert_file (c_text cert_file) (pk_cert ans)] w
          in if pk_cert ans \<noteq> 1 then (None, tls_destroy t w)
             else let w = ctx_set c [Key_file (c_text key_file) (pk_key ans)] w in
             if pk_key ans \<noteq> 1 then (None, tls_destroy t w)
             else let w = ctx_set c [Check_key (pk_check ans)] w in
             if pk_check ans \<noteq> 1 then (None, tls_destroy t w)
             else (Some t, ctx_set c [tls13_groups] w))"

definition create_client_pki :: "pki_answers \<Rightarrow> bytes \<Rightarrow> bytes \<Rightarrow> bytes \<Rightarrow> ssl_log \<Rightarrow> tls_context option \<times> ssl_log" where
  "create_client_pki ans ca_file cert_file key_file w =
     (let i = impl_new ClientPki; (c, w) = ctx_new Client_method (pk_new ans) w in
      case c of
        None \<Rightarrow> (None, tls_destroy \<lparr>tls_pimpl = Some i\<rparr> w)
      | Some c \<Rightarrow>
          let t = \<lparr>tls_pimpl = Some (i\<lparr>ti_ctx := Some c\<rparr>)\<rparr>;
              w = ctx_set c [Min_tls13, Max_tls13, Verify_peer] w;
              w = (if ca_file \<noteq> [] then ctx_set c [Load_verify (c_text ca_file) (pk_ca ans)] w else w)
          in if ca_file \<noteq> [] \<and> pk_ca ans \<noteq> 1 then (None, tls_destroy t w)
             else if cert_file \<noteq> [] \<and> key_file \<noteq> [] then
               let w = ctx_set c [Cert_file (c_text cert_file) (pk_cert ans)] w in
               if pk_cert ans \<noteq> 1 then (None, tls_destroy t w)
               else let w = ctx_set c [Key_file (c_text key_file) (pk_key ans)] w in
               if pk_key ans \<noteq> 1 then (None, tls_destroy t w)
               else (Some t, ctx_set c [tls13_groups] w)
             else (Some t, ctx_set c [tls13_groups] w))"

section \<open>The callbacks for a pre-shared key\<close>

text \<open>
  The library passes buffers and says how long they are. \<open>impl\<close> is the application data of the
  context, \<open>None\<close> where a null pointer is found on the way to it. A write outside a buffer is
  undefined: \<open>None\<close>.
\<close>

definition mem_copy :: "bytes \<Rightarrow> bytes \<Rightarrow> bytes option" where
  "mem_copy buf src = (if length src \<le> length buf then Some (src @ drop (length src) buf) else None)"

definition put_byte :: "nat \<Rightarrow> byte \<Rightarrow> bytes \<Rightarrow> bytes option" where
  "put_byte k b buf = (if k < length buf then Some (buf[k := b]) else None)"

definition psk_server_cb :: "tls_impl option \<Rightarrow> bytes \<Rightarrow> u32 \<Rightarrow> (u32 \<times> bytes) option" where
  "psk_server_cb impl psk_out max_psk_len =
     (case impl of
        None \<Rightarrow> Some (0, psk_out)
      | Some i \<Rightarrow>
          if unat max_psk_len < length (ti_psk i) then Some (0, psk_out)
          else case mem_copy psk_out (ti_psk i) of
            None \<Rightarrow> None
          | Some out \<Rightarrow> Some (of_nat (length (ti_psk i)), out))"

definition write_identity :: "bytes \<Rightarrow> bytes \<Rightarrow> u32 \<Rightarrow> bytes option" where
  "write_identity identity identity_out max_identity_len =
     (if identity \<noteq> [] \<and> 0 < max_identity_len then
        let n = min (length identity) (unat (max_identity_len - 1)) in
        case mem_copy identity_out (take n identity) of
          None \<Rightarrow> None
        | Some out \<Rightarrow> put_byte n 0 out
      else if 0 < max_identity_len then put_byte 0 0 identity_out
      else Some identity_out)"

definition psk_client_cb :: "tls_impl option \<Rightarrow> bytes \<Rightarrow> u32 \<Rightarrow> bytes \<Rightarrow> u32 \<Rightarrow> (u32 \<times> bytes \<times> bytes) option" where
  "psk_client_cb impl identity_out max_identity_len psk_out max_psk_len =
     (case impl of
        None \<Rightarrow> Some (0, identity_out, psk_out)
      | Some i \<Rightarrow>
          case write_identity (ti_identity i) identity_out max_identity_len of
            None \<Rightarrow> None
          | Some ident \<Rightarrow>
              if unat max_psk_len < length (ti_psk i) then Some (0, ident, psk_out)
              else case mem_copy psk_out (ti_psk i) of
                None \<Rightarrow> None
              | Some out \<Rightarrow> Some (of_nat (length (ti_psk i)), ident, out))"

lemma c_text_append_zero: "c_text (s @ 0 # t) = c_text s"
  by (induction s) (auto simp: c_text_def)

text \<open>The identity is cut to the buffer, ends with a zero byte and stays inside it.\<close>

lemma write_identity_bounded:
  assumes "length buf = unat m"
  shows "\<exists>out. write_identity identity buf m = Some out \<and> length out = length buf \<and>
    (m = 0 \<or> c_text out = c_text (take (unat m - 1) identity))"
proof (cases "m = 0")
  case True
  then show ?thesis by (simp add: write_identity_def)
next
  case False
  then have m: "0 < m" "unat (m - 1) = unat m - 1" "0 < unat m"
    by (auto simp: word_neq_0_conv unat_minus_one unat_gt_0)
  show ?thesis
  proof (cases "identity = []")
    case True
    with m assms show ?thesis
      by (cases buf) (simp_all add: write_identity_def put_byte_def c_text_def)
  next
    case identity: False
    define n where "n = min (length identity) (unat m - 1)"
    have n: "n < unat m" "length (take n identity) = n" using m(3) by (auto simp: n_def)
    define out where "out = (take n identity @ drop n buf)[n := 0]"
    have "write_identity identity buf m = Some out"
      using identity m n assms n_def by (simp add: write_identity_def Let_def mem_copy_def put_byte_def out_def)
    moreover have "out = take n identity @ 0 # drop (Suc n) buf"
      using n assms by (simp add: out_def list_update_append Cons_nth_drop_Suc [symmetric])
    moreover have "take n identity = take (unat m - 1) identity" by (simp add: n_def min_def)
    ultimately show ?thesis using n assms by (auto simp: c_text_append_zero)
  qed
qed

text \<open>
  The callbacks stay inside the library's buffers: whatever sizes it announces, both are defined
  and change no other byte; each hands out the whole key if it fits, and else nothing; the identity is
  the longest prefix of the stored one that fits, ended by a zero byte.
\<close>

theorem psk_callbacks_bounded:
  assumes "length identity_out = unat max_identity_len" "length psk_out = unat max_psk_len"
  shows "let fits = length (ti_psk i) \<le> unat max_psk_len;
      key = (if fits then ti_psk i @ drop (length (ti_psk i)) psk_out else psk_out);
      len = (if fits then of_nat (length (ti_psk i)) else 0)
    in psk_server_cb (Some i) psk_out max_psk_len = Some (len, key) \<and> length key = length psk_out \<and>
      (\<exists>out. psk_client_cb (Some i) identity_out max_identity_len psk_out max_psk_len = Some (len, out, key) \<and>
        length out = length identity_out \<and>
        (max_identity_len = 0 \<or> c_text out = c_text (take (unat max_identity_len - 1) (ti_identity i))))"
proof -
  obtain out where "write_identity (ti_identity i) identity_out max_identity_len = Some out" "length out = length identity_out"
    "max_identity_len = 0 \<or> c_text out = c_text (take (unat max_identity_len - 1) (ti_identity i))"
    using write_identity_bounded [OF assms(1)] by blast
  then show ?thesis using assms(2)
    by (auto simp: Let_def psk_server_cb_def psk_client_cb_def mem_copy_def not_less)
qed

lemma psk_callbacks_bounded_witness:
  "\<exists>out. psk_client_cb (Some ((impl_new ClientPsk)\<lparr>ti_psk := [7], ti_identity := [1, 2, 3]\<rparr>)) [9, 9] 2 [8, 8] 2 = Some (1, out, [7, 8]) \<and>
    c_text out = [1]"
  using psk_callbacks_bounded [of "[9, 9]" 2 "[8, 8]" 2 "(impl_new ClientPsk)\<lparr>ti_psk := [7], ti_identity := [1, 2, 3]\<rparr>"]
  by (auto simp: c_text_def Let_def)

section \<open>The handshake driver\<close>

text \<open>What \<open>SSL_accept\<close> or \<open>SSL_connect\<close> answers, with \<open>SSL_get_error\<close>, is an argument of each step.\<close>

datatype PkiHandshakeStage = Init | WantsRead | WantsWrite | Done | Failed

datatype ssl_result = Ssl_done | Ssl_want_read | Ssl_want_write | Ssl_error

record pki_handshake =
  ph_ctx :: tls_context
  ph_ssl :: nat
  ph_fd :: int
  ph_stage :: PkiHandshakeStage

definition pki_create :: "tls_context option \<Rightarrow> int \<Rightarrow> bool \<Rightarrow> ssl_log \<Rightarrow> pki_handshake option \<times> ssl_log" where
  "pki_create ctx fd ssl_new_ok w =
     (case ctx of
        None \<Rightarrow> (None, w)
      | Some t \<Rightarrow>
          if \<not> tls_is_valid t \<or> fd < 0 then (None, tls_destroy t w)
          else case tls_native_handle t of
            None \<Rightarrow> (None, tls_destroy t w)
          | Some c \<Rightarrow>
              let (s, w) = ssl_new c ssl_new_ok w in
              case s of
                None \<Rightarrow> (None, tls_destroy t w)
              | Some s \<Rightarrow> (Some \<lparr>ph_ctx = t, ph_ssl = s, ph_fd = fd, ph_stage = Init\<rparr>,
                  ssl_do s [Set_fd fd, Moving_write_buffer,
                    if tls_mode_of t = ServerPki then Accept_state else Connect_state] w))"

text \<open>The destructor frees the connection, then the member \<open>ctx_\<close> goes.\<close>

definition pki_destroy :: "pki_handshake \<Rightarrow> ssl_log \<Rightarrow> ssl_log" where
  "pki_destroy h w = tls_destroy (ph_ctx h) (w @ [Ssl_free (ph_ssl h)])"

definition pki_step :: "ssl_result \<Rightarrow> pki_handshake \<Rightarrow> ssl_log \<Rightarrow> pki_handshake \<times> ssl_log" where
  "pki_step r h w =
     (if ph_stage h = Done \<or> ph_stage h = Failed then (h, w)
      else (h\<lparr>ph_stage := (case r of
            Ssl_done \<Rightarrow> Done
          | Ssl_want_read \<Rightarrow> WantsRead
          | Ssl_want_write \<Rightarrow> WantsWrite
          | Ssl_error \<Rightarrow> Failed)\<rparr>,
        ssl_do (ph_ssl h) [if tls_mode_of (ph_ctx h) = ServerPki then Ssl_accept else Ssl_connect] w))"

definition pki_is_done :: "pki_handshake \<Rightarrow> bool" where
  "pki_is_done h = (ph_stage h = Done)"

text \<open>\<open>cert\<close>: whether the peer has a certificate, and its digest; the inner \<open>None\<close> is a failing digest.\<close>

definition peer_fingerprint :: "bytes option option \<Rightarrow> pki_handshake \<Rightarrow> ssl_log \<Rightarrow> bytes Result \<times> ssl_log" where
  "peer_fingerprint cert h w =
     (if ph_stage h \<noteq> Done then (Err EC_NOT_IMPLEMENTED, w)
      else let (x, w) = get_peer_certificate (ph_ssl h) (cert \<noteq> None) w in
        case x of
          None \<Rightarrow> (Err EC_BIZ_FILE_NOT_FOUND, w)
        | Some x \<Rightarrow>
            let w = w @ [X509_digest x (the cert \<noteq> None)] in
            (case the cert of
               None \<Rightarrow> (Err EC_INTERNAL, w @ [X509_free x])
             | Some d \<Rightarrow> (Ok d, w @ [X509_free x])))"

text \<open>The length argument of \<open>SSL_write\<close> is an \<open>int\<close>.\<close>

definition int_length :: "bytes \<Rightarrow> int" where
  "int_length bs = c_int (int (length bs))"

text \<open>\<open>n\<close> is the return value of \<open>SSL_write\<close>; the buffer that is returned is zero-filled.\<close>

definition pki_encrypt :: "int \<Rightarrow> bytes \<Rightarrow> pki_handshake \<Rightarrow> ssl_log \<Rightarrow> bytes Result \<times> ssl_log" where
  "pki_encrypt n plaintext h w =
     (if ph_stage h \<noteq> Done then (Err EC_NOT_IMPLEMENTED, w)
      else let out = replicate (length plaintext + 32) 0;
               w = ssl_do (ph_ssl h) [Ssl_write plaintext (int_length plaintext)] w in
        if n \<le> 0 then (Err EC_INTERNAL, w)
        else (Ok (take (nat n) (out @ replicate (nat n) 0)), w))"

definition pki_decrypt :: "int \<Rightarrow> int \<times> bytes \<Rightarrow> bytes \<Rightarrow> pki_handshake \<Rightarrow> ssl_log \<Rightarrow> bytes Result \<times> ssl_log" where
  "pki_decrypt written received ciphertext h w =
     (if ph_stage h \<noteq> Done then (Err EC_NOT_IMPLEMENTED, w)
      else let w = ssl_do (ph_ssl h) [Ssl_write ciphertext (int_length ciphertext)] w in
        if written \<le> 0 then (Err EC_INTERNAL, w)
        else let w = ssl_do (ph_ssl h) [Ssl_read 4096] w in
        if fst received < 0 then (Err EC_INTERNAL, w)
        else (Ok (take (nat (fst received)) (snd received @ replicate 4096 0)), w))"

section \<open>The certificate authenticator\<close>

record pki_authenticator =
  pa_ctx :: tls_context

definition pki_auth_wrap :: "tls_context option \<times> ssl_log \<Rightarrow> pki_authenticator option \<times> ssl_log" where
  "pki_auth_wrap r = (case r of (None, w) \<Rightarrow> (None, w) | (Some t, w) \<Rightarrow> (Some \<lparr>pa_ctx = t\<rparr>, w))"

definition pki_auth_server :: "pki_answers \<Rightarrow> bytes \<Rightarrow> bytes \<Rightarrow> ssl_log \<Rightarrow> pki_authenticator option \<times> ssl_log" where
  "pki_auth_server ans cert_file key_file w = pki_auth_wrap (create_server_pki ans cert_file key_file w)"

definition pki_auth_client :: "pki_answers \<Rightarrow> bytes \<Rightarrow> bytes \<Rightarrow> bytes \<Rightarrow> ssl_log \<Rightarrow> pki_authenticator option \<times> ssl_log" where
  "pki_auth_client ans ca_file cert_file key_file w = pki_auth_wrap (create_client_pki ans ca_file cert_file key_file w)"

definition pki_auth_context :: "pki_authenticator \<Rightarrow> tls_context" where
  "pki_auth_context a = pa_ctx a"

definition pki_auth_destroy :: "pki_authenticator \<Rightarrow> ssl_log \<Rightarrow> ssl_log" where
  "pki_auth_destroy a w = tls_destroy (pa_ctx a) w"

definition pki_auth_begin :: "bytes Result" where
  "pki_auth_begin = Ok []"

definition pki_auth_process :: "bytes \<Rightarrow> bytes Result" where
  "pki_auth_process unused_peer_msg = Ok []"

definition pki_auth_done :: bool where
  "pki_auth_done = True"

definition pki_auth_encrypt :: "bytes \<Rightarrow> bytes Result" where
  "pki_auth_encrypt plaintext = Ok plaintext"

definition pki_auth_decrypt :: "bytes \<Rightarrow> bytes Result" where
  "pki_auth_decrypt ciphertext = Ok ciphertext"

definition pki_auth_session_keys :: "DerivedKeys Result" where
  "pki_auth_session_keys = Err EC_INTERNAL"

section \<open>What the library demands of its callers\<close>

text \<open>
  The live contexts, and the live connections with the context each belongs to. A call on an object
  that is not live, a second free, and freeing a context under a connection are errors. (The library
  counts references to a context and would allow the last; the application data would dangle.)
\<close>

type_synonym ssl_live = "nat multiset \<times> (nat \<times> nat) multiset"

fun ssl_check :: "ssl_call \<Rightarrow> ssl_live \<Rightarrow> ssl_live option" where
  "ssl_check (Ctx_new m None) (C, S) = Some (C, S)"
| "ssl_check (Ctx_new m (Some c)) (C, S) = (if c \<in># C then None else Some (add_mset c C, S))"
| "ssl_check (Ctx_set c x) (C, S) = (if c \<in># C then Some (C, S) else None)"
| "ssl_check (Ctx_free c) (C, S) = (if c \<in># C \<and> c \<notin># image_mset snd S then Some (C - {#c#}, S) else None)"
| "ssl_check (Ssl_new c None) (C, S) = (if c \<in># C then Some (C, S) else None)"
| "ssl_check (Ssl_new c (Some s)) (C, S) =
     (if c \<in># C \<and> s \<notin># image_mset fst S then Some (C, add_mset (s, c) S) else None)"
| "ssl_check (Ssl_do s x) (C, S) = (if s \<in># image_mset fst S then Some (C, S) else None)"
| "ssl_check (Ssl_free s) (C, S) =
     (if s \<in># image_mset fst S then Some (C, filter_mset (\<lambda>p. fst p \<noteq> s) S) else None)"
| "ssl_check (Get_peer_certificate s x) (C, S) = (if s \<in># image_mset fst S then Some (C, S) else None)"
| "ssl_check (X509_digest x ok) (C, S) = Some (C, S)"
| "ssl_check (X509_free x) (C, S) = Some (C, S)"

definition ssl_run :: "ssl_log \<Rightarrow> ssl_live option \<Rightarrow> ssl_live option" where
  "ssl_run w = fold (\<lambda>x st. Option.bind st (ssl_check x)) w"

definition ssl_live :: "ssl_log \<Rightarrow> ssl_live option" where
  "ssl_live w = ssl_run w (Some ({#}, {#}))"

lemma ssl_live_Nil [simp]: "ssl_live [] = Some ({#}, {#})"
  by (simp add: ssl_live_def ssl_run_def)

lemma ssl_live_snoc: "ssl_live (w @ [x]) = Option.bind (ssl_live w) (ssl_check x)"
  by (simp add: ssl_live_def ssl_run_def)

lemma fold_max_ge: "x \<in> set xs \<Longrightarrow> x \<le> fold max xs (n :: nat)"
  by (metis List.finite_set Max.set_eq_fold Max_ge list.set_intros(2))

lemma next_ctx_snoc: "next_ctx (w @ [x]) = max (ctx_bound x) (next_ctx w)"
  by (simp add: next_ctx_def)

lemma next_ssl_snoc: "next_ssl (w @ [x]) = max (ssl_bound x) (next_ssl w)"
  by (simp add: next_ssl_def)

lemma count_image_filter: "count (image_mset f (filter_mset P M)) s \<le> count (image_mset f M) s"
  by (intro mset_subset_eq_count image_mset_subseteq_mono multiset_filter_subset)

text \<open>The certificates whose reference has not been given back; a call on another one is an error.\<close>

fun cert_check :: "ssl_call \<Rightarrow> nat multiset \<Rightarrow> nat multiset option" where
  "cert_check (Get_peer_certificate s (Some x)) X = (if x \<in># X then None else Some (add_mset x X))"
| "cert_check (X509_digest x ok) X = (if x \<in># X then Some X else None)"
| "cert_check (X509_free x) X = (if x \<in># X then Some (X - {#x#}) else None)"
| "cert_check _ X = Some X"

definition cert_live :: "ssl_log \<Rightarrow> nat multiset option" where
  "cert_live w = fold (\<lambda>c st. Option.bind st (cert_check c)) w (Some {#})"

lemma cert_live_snoc: "cert_live (w @ [c]) = Option.bind (cert_live w) (cert_check c)"
  by (simp add: cert_live_def)

text \<open>Live handles were answered by some call, so the next handle is not among them, and none is live twice.\<close>

lemma ssl_live_wf:
  "ssl_live w = Some (C, S) \<Longrightarrow>
    (\<forall>c. c \<in># C \<longrightarrow> c < next_ctx w) \<and> (\<forall>s c. (s, c) \<in># S \<longrightarrow> s < next_ssl w \<and> c \<in># C) \<and>
    (\<forall>c. count C c \<le> 1) \<and> (\<forall>s. count (image_mset fst S) s \<le> 1)"
proof (induction w arbitrary: C S rule: rev_induct)
  case (snoc x w)
  then obtain C0 S0 where o: "ssl_live w = Some (C0, S0)" "ssl_check x (C0, S0) = Some (C, S)"
    by (cases "ssl_live w") (auto simp: ssl_live_snoc)
  note ih = snoc.IH [OF o(1)]
  show ?case
  proof (cases x)
    case (Ctx_new m c)
    with o(2) ih show ?thesis
      by (cases c) (auto simp: next_ctx_snoc next_ssl_snoc not_in_iff less_max_iff_disj split: if_splits)
  next
    case (Ssl_new c s)
    with o(2) ih show ?thesis
      by (cases s) (auto simp: next_ctx_snoc next_ssl_snoc less_max_iff_disj count_eq_zero_iff split: if_splits)
  next
    case (Ctx_free c)
    with o(2) have e: "C = C0 - {#c#}" "S = S0" "\<And>s. (s, c) \<notin># S0" by (auto split: if_splits simp: image_iff)
    have "c' \<in># C" if "(s, c') \<in># S" for s c'
      using ih that e(3) [of s] unfolding e(1,2) by (auto simp: in_diff_count)
    then show ?thesis
      using ih e(2) unfolding e(1) by (auto simp: Ctx_free next_ctx_snoc next_ssl_snoc dest: in_diffD intro: le_trans [OF diff_le_self])
  qed (use o(2) ih in \<open>auto simp: next_ctx_snoc next_ssl_snoc less_max_iff_disj split: if_splits
      intro: le_trans [OF count_image_filter]\<close>)
qed simp

lemma live_sub: "ssl_live w = Some (C, S) \<Longrightarrow> snd ` set_mset S \<subseteq> set_mset C"
  using ssl_live_wf [of w C S] by auto

subsection \<open>What the functions above do to the live objects\<close>

definition opt_mset :: "nat option \<Rightarrow> nat multiset" where
  "opt_mset c = (case c of Some c \<Rightarrow> {#c#} | None \<Rightarrow> {#})"

definition tls_ctxs :: "tls_context \<Rightarrow> nat multiset" where
  "tls_ctxs t = opt_mset (tls_native_handle t)"

lemmas tls_part_defs = tls_ctxs_def tls_native_handle_def opt_mset_def

lemma ctx_new_live: "ssl_live w = Some (C, S) \<Longrightarrow> ctx_new m ok w = (c, w') \<Longrightarrow> ssl_live w' = Some (C + opt_mset c, S)"
  using ssl_live_wf [of w C S] by (auto simp: ctx_new_def Let_def ssl_live_snoc opt_mset_def)

lemma ssl_new_live: "ssl_live w = Some (C, S) \<Longrightarrow> c \<in># C \<Longrightarrow> ssl_new c ok w = (s, w') \<Longrightarrow>
    ssl_live w' = Some (C, S + (case s of Some s \<Rightarrow> {#(s, c)#} | None \<Rightarrow> {#}))"
  using ssl_live_wf [of w C S] by (auto simp: ssl_new_def Let_def ssl_live_snoc) (metis less_irrefl)

lemma ctx_set_live: "ssl_live w = Some (C, S) \<Longrightarrow> c \<in># C \<Longrightarrow> ssl_live (ctx_set c xs w) = Some (C, S)"
  unfolding ctx_set_def
  by (induction xs rule: rev_induct) (simp_all add: ssl_live_snoc flip: append_assoc)

lemma ssl_do_live: "ssl_live w = Some (C, S) \<Longrightarrow> s \<in> fst ` set_mset S \<Longrightarrow> ssl_live (ssl_do s xs w) = Some (C, S)"
  unfolding ssl_do_def
  by (induction xs rule: rev_induct) (simp_all add: ssl_live_snoc flip: append_assoc)

lemma tls_destroy_live:
  assumes "ssl_live w = Some (C + tls_ctxs t, S)" "snd ` set_mset S \<subseteq> set_mset C"
  shows "ssl_live (tls_destroy t w) = Some (C, S)"
proof (cases "tls_native_handle t")
  case None
  with assms show ?thesis by (auto simp: tls_part_defs tls_destroy_def impl_destroy_def split: option.splits)
next
  case (Some c)
  then have d: "tls_destroy t w = w @ [Ctx_free c]" "tls_ctxs t = {#c#}"
    by (auto simp: tls_part_defs tls_destroy_def impl_destroy_def split: option.splits)
  with ssl_live_wf [OF assms(1)] have "c \<notin># C" by (auto simp: not_in_iff dest: spec [of _ c])
  with assms d show ?thesis by (auto simp: ssl_live_snoc)
qed

lemma tls_destroy_empty [simp]: "tls_native_handle t = None \<Longrightarrow> tls_destroy t w = w"
  by (auto simp: tls_part_defs tls_destroy_def impl_destroy_def split: option.splits)

definition made_ctxs :: "tls_context option \<Rightarrow> nat multiset" where
  "made_ctxs r = (case r of Some t \<Rightarrow> tls_ctxs t | None \<Rightarrow> {#})"

lemma create_failed_live:
  "ti_ctx i = Some c \<Longrightarrow> ssl_live w = Some (add_mset c C, S) \<Longrightarrow> snd ` set_mset S \<subseteq> set_mset C \<Longrightarrow>
   ssl_live (tls_destroy \<lparr>tls_pimpl = Some i\<rparr> w) = Some (C, S)"
  by (rule tls_destroy_live) (simp_all add: tls_part_defs)

lemma create_psk_live:
  "ssl_live w = Some (C, S) \<Longrightarrow> create_psk ok m psk ident w = (r, w') \<Longrightarrow> ssl_live w' = Some (C + made_ctxs r, S)"
  using ctx_new_live [of w C S "if m = ServerPsk then Server_method else Client_method" ok]
  by (auto simp: create_psk_def Let_def made_ctxs_def tls_part_defs impl_new_def split: prod.splits option.splits if_splits
      intro!: ctx_set_live)

lemma create_server_live:
  assumes "ssl_live w = Some (C, S)" "create_server_pki ans cert key w = (r, w')"
  shows "ssl_live w' = Some (C + made_ctxs r, S)"
  using ctx_new_live [OF assms(1), of Server_method "pk_new ans"] assms(2) live_sub [OF assms(1)]
  by (auto simp: create_server_pki_def Let_def made_ctxs_def tls_part_defs impl_new_def split: prod.splits option.splits if_splits
      intro!: ctx_set_live create_failed_live)

lemma create_client_live:
  assumes "ssl_live w = Some (C, S)" "create_client_pki ans ca cert key w = (r, w')"
  shows "ssl_live w' = Some (C + made_ctxs r, S)"
  using ctx_new_live [OF assms(1), of Client_method "pk_new ans"] assms(2) live_sub [OF assms(1)]
  by (auto simp: create_client_pki_def Let_def made_ctxs_def tls_part_defs impl_new_def split: prod.splits option.splits if_splits
      intro!: ctx_set_live create_failed_live)

section \<open>Programs\<close>

text \<open>
  A program has some pointers to objects of the three classes. \<open>Make i m\<close> assigns a new object,
  after which the old one is destroyed; \<open>Connect i j\<close> gives the context of pointer \<open>j\<close> to a new
  handshake; \<open>Move i j\<close> is a move assignment between two contexts, an authenticator's included
  (\<open>context()\<close> hands it out).
\<close>

datatype tls_obj = No_obj | Obj_ctx tls_context | Obj_auth pki_authenticator | Obj_hs pki_handshake

datatype tls_source = Make_default | Make_psk bool tls_mode bytes bytes
  | Make_server pki_answers bytes bytes | Make_client pki_answers bytes bytes bytes
  | Make_auth_server pki_answers bytes bytes | Make_auth_client pki_answers bytes bytes bytes

datatype tls_op = Make nat tls_source | Connect nat nat int bool | Move nat nat | Drop nat
  | Drive nat ssl_result | Encrypt nat int bytes | Decrypt nat int "int \<times> bytes" bytes
  | Fingerprint nat "bytes option option"

type_synonym tls_pool = "tls_obj list \<times> ssl_log"

definition obj_ptr :: "('a \<Rightarrow> tls_obj) \<Rightarrow> 'a option \<Rightarrow> tls_obj" where
  "obj_ptr f r = (case r of None \<Rightarrow> No_obj | Some x \<Rightarrow> f x)"

fun tls_make :: "tls_source \<Rightarrow> ssl_log \<Rightarrow> tls_obj \<times> ssl_log" where
  "tls_make Make_default w = (Obj_ctx tls_default, w)"
| "tls_make (Make_psk ok m psk ident) w = (case create_psk ok m psk ident w of (r, w) \<Rightarrow> (obj_ptr Obj_ctx r, w))"
| "tls_make (Make_server ans cert key) w = (case create_server_pki ans cert key w of (r, w) \<Rightarrow> (obj_ptr Obj_ctx r, w))"
| "tls_make (Make_client ans ca cert key) w =
     (case create_client_pki ans ca cert key w of (r, w) \<Rightarrow> (obj_ptr Obj_ctx r, w))"
| "tls_make (Make_auth_server ans cert key) w =
     (case pki_auth_server ans cert key w of (r, w) \<Rightarrow> (obj_ptr Obj_auth r, w))"
| "tls_make (Make_auth_client ans ca cert key) w =
     (case pki_auth_client ans ca cert key w of (r, w) \<Rightarrow> (obj_ptr Obj_auth r, w))"

fun obj_destroy :: "tls_obj \<Rightarrow> ssl_log \<Rightarrow> ssl_log" where
  "obj_destroy No_obj w = w"
| "obj_destroy (Obj_ctx t) w = tls_destroy t w"
| "obj_destroy (Obj_auth a) w = pki_auth_destroy a w"
| "obj_destroy (Obj_hs h) w = pki_destroy h w"

fun obj_context :: "tls_obj \<Rightarrow> tls_context option" where
  "obj_context (Obj_ctx t) = Some t"
| "obj_context (Obj_auth a) = Some (pki_auth_context a)"
| "obj_context _ = None"

fun obj_with :: "tls_obj \<Rightarrow> tls_context \<Rightarrow> tls_obj" where
  "obj_with (Obj_ctx _) t = Obj_ctx t"
| "obj_with (Obj_auth a) t = Obj_auth (a\<lparr>pa_ctx := t\<rparr>)"
| "obj_with x t = x"

definition obj_assign :: "nat \<Rightarrow> tls_obj \<Rightarrow> tls_pool \<Rightarrow> tls_pool" where
  "obj_assign i x p = (case p of (xs, w) \<Rightarrow> (xs[i := x], obj_destroy (xs ! i) w))"

fun tls_step :: "tls_op \<Rightarrow> tls_pool \<Rightarrow> tls_pool" where
  "tls_step (Make i m) (xs, w) =
     (if i < length xs then case tls_make m w of (x, w) \<Rightarrow> obj_assign i x (xs, w) else (xs, w))"
| "tls_step (Connect i j fd ok) (xs, w) =
     (if i < length xs \<and> j < length xs then case xs ! j of
        Obj_ctx t \<Rightarrow> (case pki_create (Some t) fd ok w of (r, w) \<Rightarrow> obj_assign i (obj_ptr Obj_hs r) (xs[j := No_obj], w))
      | _ \<Rightarrow> (xs, w) else (xs, w))"
| "tls_step (Move i j) (xs, w) =
     (if i < length xs \<and> j < length xs \<and> i \<noteq> j then case (obj_context (xs ! i), obj_context (xs ! j)) of
        (Some t, Some u) \<Rightarrow> (case tls_move_assign t u w of (t, u, w) \<Rightarrow>
          (xs[i := obj_with (xs ! i) t, j := obj_with (xs ! j) u], w))
      | _ \<Rightarrow> (xs, w) else (xs, w))"
| "tls_step (Drop i) (xs, w) = (if i < length xs then obj_assign i No_obj (xs, w) else (xs, w))"
| "tls_step (Drive i r) (xs, w) =
     (if i < length xs then case xs ! i of
        Obj_hs h \<Rightarrow> (case pki_step r h w of (h, w) \<Rightarrow> (xs[i := Obj_hs h], w)) | _ \<Rightarrow> (xs, w) else (xs, w))"
| "tls_step (Encrypt i n msg) (xs, w) =
     (if i < length xs then case xs ! i of Obj_hs h \<Rightarrow> (xs, snd (pki_encrypt n msg h w)) | _ \<Rightarrow> (xs, w) else (xs, w))"
| "tls_step (Decrypt i n rcv msg) (xs, w) =
     (if i < length xs then case xs ! i of Obj_hs h \<Rightarrow> (xs, snd (pki_decrypt n rcv msg h w)) | _ \<Rightarrow> (xs, w) else (xs, w))"
| "tls_step (Fingerprint i cert) (xs, w) =
     (if i < length xs then case xs ! i of Obj_hs h \<Rightarrow> (xs, snd (peer_fingerprint cert h w)) | _ \<Rightarrow> (xs, w) else (xs, w))"

definition tls_run :: "tls_op list \<Rightarrow> nat \<Rightarrow> tls_pool" where
  "tls_run ops n = fold tls_step ops (replicate n No_obj, [])"

subsection \<open>Ownership\<close>

fun obj_ctxs :: "tls_obj \<Rightarrow> nat multiset" where
  "obj_ctxs No_obj = {#}"
| "obj_ctxs (Obj_ctx t) = tls_ctxs t"
| "obj_ctxs (Obj_auth a) = tls_ctxs (pa_ctx a)"
| "obj_ctxs (Obj_hs h) = tls_ctxs (ph_ctx h)"

fun obj_ssls :: "tls_obj \<Rightarrow> (nat \<times> nat) multiset" where
  "obj_ssls (Obj_hs h) = (case tls_native_handle (ph_ctx h) of Some c \<Rightarrow> {#(ph_ssl h, c)#} | None \<Rightarrow> {#})"
| "obj_ssls _ = {#}"

text \<open>The constructor is private: a handshake always has a context.\<close>

fun obj_ok :: "tls_obj \<Rightarrow> bool" where
  "obj_ok (Obj_hs h) = (tls_native_handle (ph_ctx h) \<noteq> None)"
| "obj_ok _ = True"

definition pool_ctxs :: "tls_obj list \<Rightarrow> nat multiset" where
  "pool_ctxs xs = sum_list (map obj_ctxs xs)"

definition pool_ssls :: "tls_obj list \<Rightarrow> (nat \<times> nat) multiset" where
  "pool_ssls xs = sum_list (map obj_ssls xs)"

definition tls_owned :: "tls_pool \<Rightarrow> bool" where
  "tls_owned p = (case p of (xs, w) \<Rightarrow> list_all obj_ok xs \<and> ssl_live w = Some (pool_ctxs xs, pool_ssls xs))"

lemma sum_list_take_out: "i < length xs \<Longrightarrow> f No_obj = {#} \<Longrightarrow>
    sum_list (map f (xs[i := x])) = sum_list (map f (xs[i := No_obj])) + (f x :: 'b multiset)"
  by (induction xs arbitrary: i) (auto simp: less_Suc_eq_0_disj ac_simps)

lemma pool_update:
  assumes "i < length xs"
  shows "pool_ctxs (xs[i := x]) = pool_ctxs (xs[i := No_obj]) + obj_ctxs x"
    "pool_ssls (xs[i := x]) = pool_ssls (xs[i := No_obj]) + obj_ssls x"
  unfolding pool_ctxs_def pool_ssls_def by (rule sum_list_take_out [OF assms]; simp)+

lemma pool_at: "i < length xs \<Longrightarrow> pool_ctxs xs = pool_ctxs (xs[i := No_obj]) + obj_ctxs (xs ! i) \<and>
    pool_ssls xs = pool_ssls (xs[i := No_obj]) + obj_ssls (xs ! i)"
  using pool_update [of i xs "xs ! i"] by simp

lemma pool_sub: "snd ` set_mset (pool_ssls xs) \<subseteq> set_mset (pool_ctxs xs)"
proof (induction xs)
  case (Cons x xs)
  then show ?case by (cases x) (auto simp: pool_ctxs_def pool_ssls_def tls_part_defs split: option.splits)
qed (simp add: pool_ssls_def)

lemma list_all_update: "list_all P xs \<Longrightarrow> P x \<Longrightarrow> list_all P (xs[i := x])"
  by (auto simp: list_all_iff dest: set_update_subset_insert [THEN subsetD])

lemma obj_destroy_live:
  assumes "ssl_live w = Some (C + obj_ctxs x, S + obj_ssls x)" "snd ` set_mset S \<subseteq> set_mset C" "obj_ok x"
  shows "ssl_live (obj_destroy x w) = Some (C, S)"
proof (cases x)
  case (Obj_hs h)
  with assms(3) obtain c where c: "tls_native_handle (ph_ctx h) = Some c" by auto
  let ?s = "ph_ssl h"
  have live: "ssl_live w = Some (C + {#c#}, S + {#(?s, c)#})" using assms(1) by (simp add: Obj_hs c tls_ctxs_def opt_mset_def)
  have "count (image_mset fst (S + {#(?s, c)#})) ?s \<le> 1" using ssl_live_wf [OF live] by blast
  then have "?s \<notin># image_mset fst S" by (simp add: count_eq_zero_iff)
  then have "fst p \<noteq> ?s" if "p \<in># S" for p using that by force
  then have "filter_mset (\<lambda>p. fst p \<noteq> ?s) S = S" by (auto intro!: filter_mset_eq_conv [THEN iffD2])
  then have "ssl_live (w @ [Ssl_free ?s]) = Some (C + tls_ctxs (ph_ctx h), S)"
    using live by (simp add: ssl_live_snoc tls_ctxs_def opt_mset_def c)
  then show ?thesis using assms(2) by (simp add: Obj_hs pki_destroy_def tls_destroy_live)
qed (use assms in \<open>simp_all add: pki_auth_destroy_def tls_destroy_live\<close>)

lemma tls_make_live:
  assumes "ssl_live w = Some (C, S)" "tls_make m w = (x, w')"
  shows "ssl_live w' = Some (C + obj_ctxs x, S) \<and> obj_ssls x = {#} \<and> obj_ok x"
  using create_psk_live [OF assms(1)] create_server_live [OF assms(1)] create_client_live [OF assms(1)] assms
  by (cases m) (auto simp: pki_auth_server_def pki_auth_client_def pki_auth_wrap_def obj_ptr_def made_ctxs_def
      tls_default_def tls_part_defs split: prod.splits option.splits)

lemma pki_create_live:
  assumes "ssl_live w = Some (C + tls_ctxs t, S)" "snd ` set_mset S \<subseteq> set_mset C" "pki_create (Some t) fd ok w = (r, w')"
  shows "ssl_live w' = Some (C + obj_ctxs (obj_ptr Obj_hs r), S + obj_ssls (obj_ptr Obj_hs r)) \<and> obj_ok (obj_ptr Obj_hs r)"
proof (cases "\<not> tls_is_valid t \<or> fd < 0 \<or> tls_native_handle t = None")
  case True
  then have "r = None \<and> w' = tls_destroy t w" using assms(3) by (auto simp: pki_create_def split: if_splits)
  then show ?thesis using tls_destroy_live [OF assms(1,2)] by (simp add: obj_ptr_def)
next
  case False
  then obtain c where c: "tls_native_handle t = Some c" by blast
  then have C: "tls_ctxs t = {#c#}" by (simp add: tls_ctxs_def opt_mset_def)
  obtain s w1 where n: "ssl_new c ok w = (s, w1)" by fastforce
  note l = ssl_new_live [OF assms(1) _ n, unfolded C, simplified]
  show ?thesis
  proof (cases s)
    case None
    with False c n assms(3) have "r = None \<and> w' = tls_destroy t w1" by (simp add: pki_create_def)
    then show ?thesis using tls_destroy_live [of w1 C t S] l None assms(2) by (simp add: obj_ptr_def C)
  next
    case (Some k)
    with False c n assms(3) have "r = Some \<lparr>ph_ctx = t, ph_ssl = k, ph_fd = fd, ph_stage = Init\<rparr>"
      "w' = ssl_do k [Set_fd fd, Moving_write_buffer, if tls_mode_of t = ServerPki then Accept_state else Connect_state] w1"
      by (auto simp: pki_create_def)
    with l c Some show ?thesis by (auto simp: obj_ptr_def C intro!: ssl_do_live)
  qed
qed

lemma obj_assign_owned:
  assumes "i < length xs" "list_all obj_ok xs" "obj_ok x"
    and "ssl_live w = Some (pool_ctxs xs + obj_ctxs x, pool_ssls xs + obj_ssls x)"
  shows "tls_owned (obj_assign i x (xs, w))"
proof -
  let ?ys = "xs[i := x]"
  have "ssl_live w = Some (pool_ctxs ?ys + obj_ctxs (xs ! i), pool_ssls ?ys + obj_ssls (xs ! i))"
    using assms(4) pool_at [OF assms(1)] by (simp add: pool_update [OF assms(1), of x] ac_simps)
  then have "ssl_live (obj_destroy (xs ! i) w) = Some (pool_ctxs ?ys, pool_ssls ?ys)"
    by (rule obj_destroy_live [OF _ pool_sub]) (use assms in \<open>simp add: list_all_length\<close>)
  then show ?thesis by (simp add: obj_assign_def tls_owned_def list_all_update assms)
qed

lemma obj_context_parts:
  "obj_context x = Some t \<Longrightarrow> obj_ctxs x = tls_ctxs t \<and> obj_ssls x = {#} \<and> obj_ok x \<and>
    obj_ctxs (obj_with x u) = tls_ctxs u \<and> obj_ssls (obj_with x u) = {#} \<and> obj_ok (obj_with x u)"
  by (cases x) (simp_all add: pki_auth_context_def)

lemma move_owned:
  assumes "tls_owned (xs, w)" "i < length xs" "j < length xs" "i \<noteq> j"
    and "obj_context (xs ! i) = Some t" "obj_context (xs ! j) = Some u" "tls_move_assign t u w = (t', u', w')"
  shows "tls_owned (xs[i := obj_with (xs ! i) t', j := obj_with (xs ! j) u'], w')"
proof -
  let ?r = "xs[j := No_obj, i := No_obj]"
  have two: "xs[i := a, j := b] = xs[j := b, i := a]" for a b using assms(4) by (rule list_update_swap)
  have pools: "pool_ctxs (xs[j := b, i := a]) = pool_ctxs ?r + obj_ctxs b + obj_ctxs a"
      "pool_ssls (xs[j := b, i := a]) = pool_ssls ?r + obj_ssls b + obj_ssls a" for a b
    using pool_update [of i "xs[j := b]" a] pool_update [of j "xs[i := No_obj]" b] assms(2,3)
    unfolding two by simp_all
  have e: "tls_ctxs t' = tls_ctxs u" "tls_ctxs u' = {#}" "w' = tls_destroy t w"
    using assms(7) by (auto simp: tls_move_assign_def tls_part_defs)
  note parts = obj_context_parts [OF assms(5)] obj_context_parts [OF assms(6)]
  have "pool_ctxs xs = pool_ctxs ?r + tls_ctxs u + tls_ctxs t" "pool_ssls xs = pool_ssls ?r"
    using pools [of "xs ! j" "xs ! i"] parts by simp_all
  then have "ssl_live w = Some (pool_ctxs ?r + tls_ctxs u + tls_ctxs t, pool_ssls ?r)"
    using assms(1) by (simp add: tls_owned_def)
  then have "ssl_live (tls_destroy t w) = Some (pool_ctxs ?r + tls_ctxs u, pool_ssls ?r)"
    by (rule tls_destroy_live) (use pool_sub [of ?r] in auto)
  moreover have "list_all obj_ok (xs[i := obj_with (xs ! i) t', j := obj_with (xs ! j) u'])"
    using assms(1) parts by (auto simp: tls_owned_def intro!: list_all_update)
  ultimately show ?thesis
    using pools [of "obj_with (xs ! j) u'" "obj_with (xs ! i) t'"] parts e by (simp add: tls_owned_def two)
qed

lemma same_live_owned:
  "tls_owned (xs, w) \<Longrightarrow> ssl_live w' = ssl_live w \<Longrightarrow> tls_owned (xs, w')"
  by (simp add: tls_owned_def)

lemma hs_live_ssl:
  assumes "tls_owned (xs, w)" "i < length xs" "xs ! i = Obj_hs h"
  shows "ssl_live (ssl_do (ph_ssl h) ys w) = ssl_live w"
proof -
  obtain c where c: "tls_native_handle (ph_ctx h) = Some c"
    using assms by (force simp: tls_owned_def list_all_length)
  have "pool_ssls xs = pool_ssls (xs[i := No_obj]) + {#(ph_ssl h, c)#}"
    using pool_at [OF assms(2)] assms(3) c by simp
  then show ?thesis using assms(1) ssl_do_live [of w "pool_ctxs xs" "pool_ssls xs" "ph_ssl h" ys] by (force simp: tls_owned_def)
qed

lemma hs_cert_ssl:
  assumes "tls_owned (xs, w)" "i < length xs" "xs ! i = Obj_hs h"
  shows "ssl_live (snd (peer_fingerprint cert h w)) = ssl_live w"
proof -
  have "ssl_live (w @ [Get_peer_certificate (ph_ssl h) x]) = ssl_live (ssl_do (ph_ssl h) [Ssl_accept] w)" for x
    by (cases "ssl_live w") (auto simp: ssl_live_snoc ssl_do_def)
  then have g: "ssl_live (w @ [Get_peer_certificate (ph_ssl h) x]) = ssl_live w" for x
    using hs_live_ssl [OF assms] by simp
  moreover have "ssl_live (v @ [X509_digest x ok]) = ssl_live v" "ssl_live (v @ [X509_free x]) = ssl_live v" for v x ok
    by (cases "ssl_live v"; auto simp: ssl_live_snoc)+
  ultimately show ?thesis
    by (simp add: peer_fingerprint_def get_peer_certificate_def Let_def split: option.splits flip: append_assoc del: append_assoc)
qed

lemma drive_owned:
  assumes "tls_owned (xs, w)" "i < length xs" "xs ! i = Obj_hs h" "pki_step r h w = (h', w')"
  shows "tls_owned (xs[i := Obj_hs h'], w')"
proof -
  have "ph_ctx h' = ph_ctx h" "ph_ssl h' = ph_ssl h" "ssl_live w' = ssl_live w"
    using assms(4) hs_live_ssl [OF assms(1-3)] by (auto simp: pki_step_def split: if_splits)
  moreover have "obj_ok (xs ! i)" using assms(1,2) by (simp add: tls_owned_def list_all_length)
  ultimately show ?thesis
    using assms pool_at [OF assms(2)] pool_update [OF assms(2), of "Obj_hs h'"]
    by (auto simp: tls_owned_def list_all_update)
qed

lemma connect_owned:
  assumes "tls_owned (xs, w)" "i < length xs" "j < length xs" "xs ! j = Obj_ctx t" "pki_create (Some t) fd ok w = (r, w')"
  shows "tls_owned (obj_assign i (obj_ptr Obj_hs r) (xs[j := No_obj], w'))"
proof -
  let ?ys = "xs[j := No_obj]"
  have "ssl_live w = Some (pool_ctxs ?ys + tls_ctxs t, pool_ssls ?ys)"
    using assms(1,4) pool_at [OF assms(3)] by (simp add: tls_owned_def)
  note made = pki_create_live [OF this pool_sub assms(5)]
  show ?thesis
    by (rule obj_assign_owned) (use assms(1,2) made in \<open>simp_all add: tls_owned_def list_all_update\<close>)
qed

lemma make_owned:
  assumes "tls_owned (xs, w)" "i < length xs" "tls_make m w = (x, w')"
  shows "tls_owned (obj_assign i x (xs, w'))"
  by (rule obj_assign_owned) (use assms tls_make_live [OF _ assms(3), of "pool_ctxs xs" "pool_ssls xs"] in \<open>simp_all add: tls_owned_def\<close>)

lemma drop_owned: "tls_owned (xs, w) \<Longrightarrow> i < length xs \<Longrightarrow> tls_owned (obj_assign i No_obj (xs, w))"
  by (rule obj_assign_owned) (simp_all add: tls_owned_def)

lemma tls_step_owned: "tls_owned p \<Longrightarrow> tls_owned (tls_step op p)"
proof (induction op p rule: tls_step.induct)
  case (6 i n msg xs w)
  then show ?case using hs_live_ssl [of xs w i]
    by (auto simp: pki_encrypt_def Let_def split: tls_obj.splits intro: same_live_owned)
next
  case (7 i n rcv msg xs w)
  have two: "ssl_do s [b] (ssl_do s [a] w) = ssl_do s [a, b] w" for s a b by (simp add: ssl_do_def)
  show ?case using 7 hs_live_ssl [of xs w i]
    by (auto simp: pki_decrypt_def Let_def two split: tls_obj.splits intro: same_live_owned)
next
  case (8 i cert xs w)
  then show ?case using hs_cert_ssl [of xs w i] by (auto split: tls_obj.splits intro: same_live_owned)
qed (auto intro: make_owned connect_owned move_owned drop_owned drive_owned split: prod.splits tls_obj.splits option.splits)

interpretation tls_sys: guarded_system tls_owned tls_step
  by unfold_locales (rule tls_step_owned)

lemma pool_empty: "pool_ctxs (replicate n No_obj) = {#} \<and> pool_ssls (replicate n No_obj) = {#}"
  by (induction n) (simp_all add: pool_ctxs_def pool_ssls_def)

lemma destroy_all_live:
  "list_all obj_ok xs \<Longrightarrow> ssl_live w = Some (pool_ctxs xs, pool_ssls xs) \<Longrightarrow> ssl_live (fold obj_destroy xs w) = Some ({#}, {#})"
proof (induction xs arbitrary: w)
  case (Cons x xs)
  have "ssl_live (obj_destroy x w) = Some (pool_ctxs xs, pool_ssls xs)"
    by (rule obj_destroy_live [OF _ pool_sub]) (use Cons.prems in \<open>simp_all add: pool_ctxs_def pool_ssls_def ac_simps\<close>)
  with Cons show ?case by simp
qed (simp add: pool_ctxs_def pool_ssls_def)

subsection \<open>Certificates\<close>

text \<open>Only one function asks for a certificate; it gives back what it gets.\<close>

lemma cert_live_ignores:
  "(\<And>c X. c \<in> set v \<Longrightarrow> cert_check c X = Some X) \<Longrightarrow> cert_live (w @ v) = cert_live w"
proof (induction v arbitrary: w)
  case (Cons c v)
  have "cert_live ((w @ [c]) @ v) = cert_live (w @ [c])" using Cons by (intro Cons.IH) simp
  also have "\<dots> = cert_live w" using Cons.prems [of c] by (cases "cert_live w") (simp_all add: cert_live_snoc)
  finally show ?case by simp
qed simp

lemma cert_live_simps [simp]:
  "cert_live (w @ [Ctx_new m r]) = cert_live w" "cert_live (w @ [Ctx_free d]) = cert_live w"
  "cert_live (w @ [Ssl_new d r]) = cert_live w" "cert_live (w @ [Ssl_free d]) = cert_live w"
  "cert_live (ctx_set d xs w) = cert_live w" "cert_live (ssl_do d ys w) = cert_live w"
  by (auto simp: ctx_set_def ssl_do_def intro!: cert_live_ignores)

lemma tls_destroy_certs [simp]: "cert_live (tls_destroy t w) = cert_live w"
  by (simp add: tls_destroy_def impl_destroy_def split: option.splits)

lemma obj_destroy_certs [simp]: "cert_live (obj_destroy x w) = cert_live w"
  by (cases x) (simp_all add: pki_auth_destroy_def pki_destroy_def)

lemma create_certs:
  "create_psk ok m psk ident w = (r, w') \<Longrightarrow> cert_live w' = cert_live w"
  "create_server_pki ans cert key w = (r, w') \<Longrightarrow> cert_live w' = cert_live w"
  "create_client_pki ans ca cert key w = (r, w') \<Longrightarrow> cert_live w' = cert_live w"
  by (auto simp: create_psk_def create_server_pki_def create_client_pki_def ctx_new_def Let_def split: if_splits)

lemma tls_make_certs: "tls_make m w = (x, w') \<Longrightarrow> cert_live w' = cert_live w"
  by (cases m) (auto simp: pki_auth_server_def pki_auth_client_def pki_auth_wrap_def split: prod.splits option.splits
      dest: create_certs)

lemma pki_create_certs: "pki_create t fd ok w = (r, w') \<Longrightarrow> cert_live w' = cert_live w"
  by (auto simp: pki_create_def ssl_new_def Let_def split: option.splits if_splits)

lemma peer_fingerprint_certs:
  assumes "cert_live w = Some {#}"
  shows "cert_live (snd (peer_fingerprint cert h w)) = Some {#}"
  using assms
  by (simp add: peer_fingerprint_def get_peer_certificate_def Let_def cert_live_snoc split: option.splits flip: append_assoc del: append_assoc)

lemma tls_step_certs: "cert_live (snd p) = Some {#} \<Longrightarrow> cert_live (snd (tls_step op p)) = Some {#}"
proof (induction op p rule: tls_step.induct)
  case (8 i cert xs w)
  then show ?case by (auto simp: peer_fingerprint_certs split: tls_obj.splits)
qed (auto simp: obj_assign_def tls_move_assign_def pki_step_def pki_encrypt_def pki_decrypt_def Let_def
    split: prod.splits tls_obj.splits option.splits dest: tls_make_certs pki_create_certs)

interpretation tls_cert_sys: guarded_system "\<lambda>p. cert_live (snd p) = Some {#}" tls_step
  by unfold_locales (rule tls_step_certs)

text \<open>
  C17. Whatever a program does with contexts, authenticators and handshakes, and whatever the TLS
  library answers, its calls are as the library demands: no call on an object that was freed, no
  double free, no context freed under a connection. The live contexts and connections are those
  its objects own, each owned once, and destroying the objects frees them all; between operations no
  reference to a peer's certificate is held.
\<close>

theorem tls_ownership:
  "case tls_run ops n of (xs, w) \<Rightarrow>
    ssl_live w = Some (pool_ctxs xs, pool_ssls xs) \<and> ssl_live (fold obj_destroy xs w) = Some ({#}, {#}) \<and>
    cert_live w = Some {#} \<and> cert_live (fold obj_destroy xs w) = Some {#}"
proof -
  obtain xs w where r: "tls_run ops n = (xs, w)" by fastforce
  have "tls_owned (replicate n No_obj, [])" by (simp add: tls_owned_def list_all_iff pool_empty)
  then have "tls_owned (xs, w)" using tls_sys.fold_ok r unfolding tls_run_def by metis
  moreover have "cert_live w = Some {#}"
    using tls_cert_sys.fold_ok [of "(replicate n No_obj, [])" ops] r by (simp add: tls_run_def cert_live_def)
  moreover have "cert_live (fold obj_destroy xs w) = cert_live w" by (induction xs arbitrary: w) simp_all
  ultimately show ?thesis using destroy_all_live [of xs w] r by (simp add: tls_owned_def)
qed

subsection \<open>Configuration\<close>

definition ctx_settings :: "nat \<Rightarrow> ssl_log \<Rightarrow> ctx_setting list" where
  "ctx_settings c w = concat (map (\<lambda>x. case x of Ctx_set d y \<Rightarrow> if d = c then [y] else [] | _ \<Rightarrow> []) w)"

fun cert_loaded :: "ctx_setting \<Rightarrow> bool" where
  "cert_loaded (Cert_file f r) = (r = 1)"
| "cert_loaded _ = False"

fun key_loaded :: "ctx_setting \<Rightarrow> bool" where
  "key_loaded (Key_file f r) = (r = 1)"
| "key_loaded _ = False"

text \<open>
  What a context must have been told before it is used, depending on the factory it is from: only
  \<open>create_psk\<close> stores a key.
\<close>

definition factory_ready :: "tls_impl \<Rightarrow> ctx_setting list \<Rightarrow> bool" where
  "factory_ready i xs =
     (if ti_psk i \<noteq> [] then
        length (ti_psk i) = 32 \<and> App_data \<in> set xs \<and> Psk_server_cb \<in> set xs \<and> Psk_client_cb \<in> set xs \<and>
        (ti_mode i = ClientPsk \<longrightarrow> Identity_hint (c_text (ti_identity i)) \<in> set xs)
      else (case ti_mode i of
          ServerPki \<Rightarrow> list_ex cert_loaded xs \<and> list_ex key_loaded xs \<and> Check_key 1 \<in> set xs
        | ClientPki \<Rightarrow> Verify_peer \<in> set xs
        | _ \<Rightarrow> False))"

definition tls_ready :: "ssl_log \<Rightarrow> tls_context \<Rightarrow> bool" where
  "tls_ready w t = (case tls_pimpl t of
      None \<Rightarrow> True
    | Some i \<Rightarrow> (case ti_ctx i of
        None \<Rightarrow> False
      | Some c \<Rightarrow> Min_tls13 \<in> set (ctx_settings c w) \<and> Max_tls13 \<in> set (ctx_settings c w) \<and>
          tls13_groups \<in> set (ctx_settings c w) \<and> factory_ready i (ctx_settings c w)))"

fun obj_ready :: "ssl_log \<Rightarrow> tls_obj \<Rightarrow> bool" where
  "obj_ready w (Obj_ctx t) = tls_ready w t"
| "obj_ready w (Obj_auth a) = tls_ready w (pa_ctx a)"
| "obj_ready w (Obj_hs h) = tls_ready w (ph_ctx h)"
| "obj_ready w No_obj = True"

lemma settings_append: "ctx_settings c (w @ v) = ctx_settings c w @ ctx_settings c v"
  by (simp add: ctx_settings_def)

lemma settings_set: "ctx_settings c (ctx_set c xs w) = ctx_settings c w @ xs"
  by (induction xs rule: rev_induct) (simp_all add: ctx_settings_def ctx_set_def)

lemma settings_new: "ctx_settings c [Ctx_new m d] = []"
  by (simp add: ctx_settings_def)

lemma tls_ready_mono: "tls_ready w t \<Longrightarrow> tls_ready (w @ v) t"
  by (auto simp: tls_ready_def settings_append factory_ready_def split: option.splits tls_mode.splits)

lemma obj_ready_mono: "obj_ready w x \<Longrightarrow> prefix w w' \<Longrightarrow> obj_ready w' x"
  by (cases x) (auto simp: prefix_def tls_ready_mono)

text \<open>Every function only adds calls to the log.\<close>

lemmas log_defs = ctx_set_def ssl_do_def tls_destroy_def impl_destroy_def ctx_new_def ssl_new_def

lemma obj_destroy_prefix: "prefix w (obj_destroy x w)"
  by (cases x) (auto simp: pki_auth_destroy_def pki_destroy_def log_defs split: option.splits)

lemma create_prefix:
  "create_psk ok m psk ident w = (r, w') \<Longrightarrow> prefix w w'"
  "create_server_pki ans cert key w = (r, w') \<Longrightarrow> prefix w w'"
  "create_client_pki ans ca cert key w = (r, w') \<Longrightarrow> prefix w w'"
  by (auto simp: create_psk_def create_server_pki_def create_client_pki_def Let_def log_defs impl_new_def split: if_splits)

lemma tls_make_prefix: "tls_make m w = (x, w') \<Longrightarrow> prefix w w'"
  by (cases m) (auto simp: pki_auth_server_def pki_auth_client_def pki_auth_wrap_def split: prod.splits option.splits
      dest: create_prefix)

lemma pki_create_prefix: "pki_create t fd ok w = (r, w') \<Longrightarrow> prefix w w'"
  by (auto simp: pki_create_def Let_def log_defs split: option.splits if_splits)

lemma create_ready:
  "create_psk ok m psk ident w = (Some t, w') \<Longrightarrow> tls_ready w' t"
  "create_server_pki ans cert key w = (Some t, w') \<Longrightarrow> tls_ready w' t"
  "create_client_pki ans ca cert key w = (Some t, w') \<Longrightarrow> tls_ready w' t"
  by (auto simp: create_psk_def create_server_pki_def create_client_pki_def tls_ready_def factory_ready_def settings_set
      impl_new_def Let_def split: prod.splits option.splits if_splits)

definition pool_ready :: "tls_pool \<Rightarrow> bool" where
  "pool_ready p = (case p of (xs, w) \<Rightarrow> list_all (obj_ready w) xs)"

lemma pool_ready_grow: "pool_ready (xs, w) \<Longrightarrow> prefix w w' \<Longrightarrow> pool_ready (xs, w')"
  by (auto simp: pool_ready_def list_all_iff intro: obj_ready_mono)

lemma pool_ready_put: "pool_ready (xs, w) \<Longrightarrow> obj_ready w x \<Longrightarrow> pool_ready (xs[i := x], w)"
  by (simp add: pool_ready_def list_all_update)

lemma assign_ready: "pool_ready (xs, w) \<Longrightarrow> obj_ready w x \<Longrightarrow> pool_ready (obj_assign i x (xs, w))"
  unfolding obj_assign_def prod.case by (rule pool_ready_grow [OF pool_ready_put obj_destroy_prefix])

lemma make_ready: "tls_make m w = (x, w') \<Longrightarrow> obj_ready w' x"
  by (cases m) (auto simp: obj_ptr_def pki_auth_server_def pki_auth_client_def pki_auth_wrap_def tls_default_def tls_ready_def [of _ "\<lparr>tls_pimpl = None\<rparr>"]
      split: prod.splits option.splits dest: create_ready)

lemma pki_create_ready: "tls_ready w t \<Longrightarrow> pki_create (Some t) fd ok w = (r, w') \<Longrightarrow> obj_ready w' (obj_ptr Obj_hs r)"
proof -
  assume a: "tls_ready w t" "pki_create (Some t) fd ok w = (r, w')"
  then have "tls_ready w' t" using pki_create_prefix [OF a(2)] by (auto simp: prefix_def tls_ready_mono)
  with a(2) show ?thesis by (auto simp: pki_create_def obj_ptr_def Let_def split: if_splits option.splits prod.splits)
qed

lemma obj_context_ready:
  "obj_context x = Some t \<Longrightarrow> obj_ready w x = tls_ready w t \<and> obj_ready w (obj_with x u) = tls_ready w u"
  by (cases x) (auto simp: pki_auth_context_def)

lemma move_ready:
  assumes "pool_ready (xs, w)" "j < length xs" "obj_context (xs ! i) = Some t" "obj_context (xs ! j) = Some u"
    and "tls_move_assign t u w = (t', u', w')"
  shows "pool_ready (xs[i := obj_with (xs ! i) t', j := obj_with (xs ! j) u'], w')"
proof -
  have "tls_ready w u" using assms(1,2) obj_context_ready [OF assms(4)] by (auto simp: pool_ready_def list_all_length)
  then have "tls_ready w t'" "tls_ready w u'" and g: "prefix w w'"
    using assms(5) obj_destroy_prefix [of w "Obj_ctx t"] by (auto simp: tls_move_assign_def tls_ready_def)
  then show ?thesis
    using obj_context_ready [OF assms(3)] obj_context_ready [OF assms(4)] assms(1)
    by (intro pool_ready_grow [OF _ g] pool_ready_put) auto
qed

lemma drive_ready:
  assumes "pool_ready (xs, w)" "i < length xs" "xs ! i = Obj_hs h" "pki_step r h w = (h', w')"
  shows "pool_ready (xs[i := Obj_hs h'], w')"
proof -
  have g: "prefix w w'" and "ph_ctx h' = ph_ctx h"
    using assms(4) by (auto simp: pki_step_def log_defs split: if_splits)
  moreover have "tls_ready w (ph_ctx h)" using assms(1-3) by (force simp: pool_ready_def list_all_length)
  ultimately show ?thesis using assms(1) by (intro pool_ready_grow [OF _ g] pool_ready_put) auto
qed

lemma crypt_prefix: "prefix w (snd (pki_encrypt n msg h w))" "prefix w (snd (pki_decrypt n rcv msg h w))"
  "prefix w (snd (peer_fingerprint cert h w))"
  by (auto simp: pki_encrypt_def pki_decrypt_def peer_fingerprint_def get_peer_certificate_def Let_def log_defs split: option.splits)

lemma tls_step_ready: "pool_ready p \<Longrightarrow> pool_ready (tls_step op p)"
proof (induction op p rule: tls_step.induct)
  case (1 i m xs w)
  obtain x w' where m: "tls_make m w = (x, w')" by fastforce
  with 1 show ?case
    by (auto intro!: assign_ready make_ready [OF m] pool_ready_grow [OF _ tls_make_prefix [OF m]])
next
  case (2 i j fd ok xs w)
  then show ?case
    by (auto split: tls_obj.splits prod.splits
        intro!: assign_ready intro: pool_ready_put pool_ready_grow [OF _ pki_create_prefix] pki_create_ready)
      (auto simp: pool_ready_def list_all_length dest!: spec [of _ j] intro: pki_create_ready)
next
  case (3 i j xs w)
  then show ?case by (auto split: option.splits prod.splits intro: move_ready)
qed (auto intro: assign_ready drive_ready pool_ready_grow [OF _ crypt_prefix(1)] pool_ready_grow [OF _ crypt_prefix(2)]
    pool_ready_grow [OF _ crypt_prefix(3)]
    split: tls_obj.splits prod.splits)

interpretation tls_ready_sys: guarded_system pool_ready tls_step
  by unfold_locales (rule tls_step_ready)

text \<open>
  C18. Every context that a program can use, on its own, in an authenticator or in a handshake, has
  been told what its factory is for: TLS 1.3 as lowest and highest version and the list of groups
  (the answers to these calls the code ignores); from \<open>create_psk\<close>, whatever mode it was asked for,
  both callbacks and their data, with a 32-byte key, and for a client the identity; from
  \<open>create_server_pki\<close>, a certificate and a key that the library has loaded and found to belong
  together; from \<open>create_client_pki\<close>, the verification of the server. (The server verifies nobody:
  \<open>server_asks_no_certificate\<close>.)
\<close>

theorem tls_contexts_ready: "pool_ready (tls_run ops n)"
  unfolding tls_run_def by (rule tls_ready_sys.fold_ok) (simp add: pool_ready_def list_all_iff)

text \<open>A program that gets a context, another one and a handshake from the first.\<close>

lemma tls_sample_program:
  "let ans = \<lparr>pk_new = True, pk_ca = 1, pk_cert = 1, pk_key = 1, pk_check = 1\<rparr>;
      ops = [Make 0 (Make_server ans [1] [2]), Make 1 (Make_psk True ClientPsk (replicate 32 7) [5]), Connect 2 0 5 True]
   in fst (tls_run ops 3) ! 0 = No_obj \<and> fst (tls_run ops 3) ! 1 \<noteq> No_obj \<and> fst (tls_run ops 3) ! 2 \<noteq> No_obj"
  by code_simp

text \<open>\<open>create_psk\<close> does not check its mode: it makes a usable server context for certificates without one.\<close>

lemma psk_mode_unchecked:
  "\<exists>t w'. create_psk True ServerPki (replicate 32 7) ident [] = (Some t, w') \<and> tls_mode_of t = ServerPki \<and>
    \<not> list_ex cert_loaded (ctx_settings 0 w')"
  by (simp add: create_psk_def ctx_new_def next_ctx_def ctx_set_def impl_new_def tls_mode_of_def ctx_settings_def
      tls13_groups_def Let_def)

text \<open>The server never asks its client for a certificate, whatever the library answers.\<close>

lemma server_asks_no_certificate:
  "create_server_pki ans cert key w = (Some t, w') \<Longrightarrow> tls_native_handle t = Some c \<Longrightarrow> ctx_settings c w = [] \<Longrightarrow>
    Verify_peer \<notin> set (ctx_settings c w')"
  by (auto simp: create_server_pki_def Let_def ctx_new_def settings_set settings_append settings_new
      tls13_groups_def impl_new_def tls_native_handle_def split: if_splits)

text \<open>\<open>decrypt\<close> sends what it should decrypt to the peer, before it reads anything.\<close>

lemma decrypt_sends:
  "pki_is_done h \<Longrightarrow> \<exists>v. snd (pki_decrypt n rcv msg h w) = w @ Ssl_do (ph_ssl h) (Ssl_write msg (int_length msg)) # v"
  by (auto simp: pki_is_done_def pki_decrypt_def ssl_do_def Let_def)

text \<open>\<open>encrypt\<close> writes the plaintext to the peer and returns a buffer without it.\<close>

lemma pki_encrypt_zeros: "pki_encrypt n p h w = (Ok c, w') \<Longrightarrow> set c \<subseteq> {0}"
  by (auto simp: pki_encrypt_def Let_def split: if_splits dest: in_set_takeD)

lemma pki_final_stages: "ph_stage h \<in> {Done, Failed} \<Longrightarrow> pki_step r h w = (h, w)"
  by (auto simp: pki_step_def)

end
