(* ===== verification/Posix_File.thy ===== *)
theory Posix_File
  imports Interfaces
begin

text \<open>
  The part of a POSIX file that \<open>src/platform/fs/wal.cpp\<close> uses, and its wrappers
  \<open>write_at\<close>, \<open>read_at\<close>, \<open>ftruncate_wrapped\<close>, \<open>seek_set\<close>, \<open>seek_end\<close>,
  \<open>open_wal_file\<close>. An open file has its bytes, its offset and a schedule of what the
  next system calls do: succeed, be interrupted by a signal, fail, or transfer fewer bytes
  than asked. An exhausted schedule means success. The wrappers loop as the code loops, with
  the number of pending schedule entries and the bytes still to go as the measure.

  A schedule is benign when no call fails for good. The lemmas show that under a benign
  schedule the wrappers transfer everything that was asked for, so interruptions and short
  transfers are invisible to their callers.
\<close>

section \<open>System calls\<close>

datatype io_fault = F_ok | F_eintr | F_fail | F_short nat

datatype 'a sysret = Ret 'a | Eintr | Fail

text \<open>
  \<open>f_append_only\<close>: whether \<open>pwrite\<close> on an \<open>O_APPEND\<close> descriptor ignores its offset
  and appends, as Linux documents, or obeys it, as POSIX says.
\<close>

record pfile =
  f_content :: bytes
  f_pos :: nat
  f_sched :: "io_fault list"
  f_append_only :: bool

definition next_fault :: "pfile \<Rightarrow> io_fault \<times> pfile" where
  "next_fault f = (case f_sched f of
      [] \<Rightarrow> (F_ok, f)
    | x # xs \<Rightarrow> (x, f\<lparr>f_sched := xs\<rparr>))"

text \<open>A write past the end fills the gap with zeros.\<close>

definition store_at :: "nat \<Rightarrow> bytes \<Rightarrow> bytes \<Rightarrow> bytes" where
  "store_at off bs c =
     take off c @ replicate (off - length c) 0 @ bs @ drop (off + length bs) c"

definition do_pwrite :: "bytes \<Rightarrow> nat \<Rightarrow> pfile \<Rightarrow> pfile" where
  "do_pwrite bs off f =
     f\<lparr>f_content := (if f_append_only f then f_content f @ bs else store_at off bs (f_content f))\<rparr>"

definition pwrite_sys :: "bytes \<Rightarrow> nat \<Rightarrow> pfile \<Rightarrow> nat sysret \<times> pfile" where
  "pwrite_sys bs off f = (case next_fault f of (x, f') \<Rightarrow>
     (case x of
        F_ok \<Rightarrow> (Ret (length bs), do_pwrite bs off f')
      | F_short n \<Rightarrow> (let ys = take n bs in (Ret (length ys), do_pwrite ys off f'))
      | F_eintr \<Rightarrow> (Eintr, f')
      | F_fail \<Rightarrow> (Fail, f')))"

text \<open>A negative offset is refused (EINVAL).\<close>

definition pread_sys :: "nat \<Rightarrow> int \<Rightarrow> pfile \<Rightarrow> bytes sysret \<times> pfile" where
  "pread_sys n off f = (if off < 0 then (Fail, f) else case next_fault f of (x, f') \<Rightarrow>
     (case x of
        F_ok \<Rightarrow> (Ret (slice (nat off) n (f_content f')), f')
      | F_short k \<Rightarrow> (Ret (slice (nat off) (min k n) (f_content f')), f')
      | F_eintr \<Rightarrow> (Eintr, f')
      | F_fail \<Rightarrow> (Fail, f')))"

text \<open>\<open>lseek\<close>, \<open>fstat\<close>: no interruption is documented; -1 on failure.\<close>

definition lseek_set :: "nat \<Rightarrow> pfile \<Rightarrow> int \<times> pfile" where
  "lseek_set off f = (case next_fault f of (x, f') \<Rightarrow>
     if x = F_fail then (-1, f') else (int off, f'\<lparr>f_pos := off\<rparr>))"

definition lseek_cur :: "pfile \<Rightarrow> int \<times> pfile" where
  "lseek_cur f = (case next_fault f of (x, f') \<Rightarrow>
     if x = F_fail then (-1, f') else (int (f_pos f'), f'))"

definition lseek_end :: "pfile \<Rightarrow> int \<times> pfile" where
  "lseek_end f = (case next_fault f of (x, f') \<Rightarrow>
     if x = F_fail then (-1, f')
     else (int (length (f_content f')), f'\<lparr>f_pos := length (f_content f')\<rparr>))"

definition fstat_size :: "pfile \<Rightarrow> nat option \<times> pfile" where
  "fstat_size f = (case next_fault f of (x, f') \<Rightarrow>
     if x = F_fail then (None, f') else (Some (length (f_content f')), f'))"

definition ftruncate_sys :: "nat \<Rightarrow> pfile \<Rightarrow> unit sysret \<times> pfile" where
  "ftruncate_sys n f = (case next_fault f of (x, f') \<Rightarrow>
     (case x of
        F_eintr \<Rightarrow> (Eintr, f')
      | F_fail \<Rightarrow> (Fail, f')
      | _ \<Rightarrow> (Ret (), f'\<lparr>f_content := take n (f_content f') @ replicate (n - length (f_content f')) 0\<rparr>)))"

definition fsync_sys :: "pfile \<Rightarrow> unit sysret \<times> pfile" where
  "fsync_sys f = (case next_fault f of (x, f') \<Rightarrow>
     (case x of F_eintr \<Rightarrow> (Eintr, f') | F_fail \<Rightarrow> (Fail, f') | _ \<Rightarrow> (Ret (), f')))"

lemma next_fault_sched: "next_fault f = (x, f') \<Longrightarrow> length (f_sched f') \<le> length (f_sched f)"
  by (auto simp: next_fault_def split: list.splits)

lemma next_fault_less:
  "next_fault f = (x, f') \<Longrightarrow> x \<noteq> F_ok \<Longrightarrow> length (f_sched f') < length (f_sched f)"
  by (auto simp: next_fault_def split: list.splits)

text \<open>An interrupted call has used up an entry of the schedule.\<close>

lemma sysret_sched_less:
  "pwrite_sys bs off f = (Eintr, f') \<Longrightarrow> length (f_sched f') < length (f_sched f)"
  "pread_sys n i f = (Eintr, f') \<Longrightarrow> length (f_sched f') < length (f_sched f)"
  "ftruncate_sys n f = (Eintr, f') \<Longrightarrow> length (f_sched f') < length (f_sched f)"
  by (auto simp: pwrite_sys_def pread_sys_def ftruncate_sys_def Let_def do_pwrite_def
      dest: next_fault_less split: prod.splits io_fault.splits if_splits)

lemma sysret_sched:
  "pwrite_sys bs off f = (r, f') \<Longrightarrow> length (f_sched f') \<le> length (f_sched f)"
  "pread_sys n i f = (r', f') \<Longrightarrow> length (f_sched f') \<le> length (f_sched f)"
  "ftruncate_sys n f = (r'', f') \<Longrightarrow> length (f_sched f') \<le> length (f_sched f)"
  by (auto simp: pwrite_sys_def pread_sys_def ftruncate_sys_def Let_def do_pwrite_def
      dest: next_fault_sched split: prod.splits io_fault.splits if_splits)

section \<open>The wrappers of the log\<close>

definition seek_set :: "nat \<Rightarrow> pfile \<Rightarrow> int \<times> pfile" where
  "seek_set off f = lseek_set off f"

definition seek_end :: "pfile \<Rightarrow> int \<times> pfile" where
  "seek_end f = lseek_end f"

text \<open>\<open>tot\<close> bytes are already transferred; \<open>None\<close> is the return value -1.\<close>

function write_loop :: "bytes \<Rightarrow> nat \<Rightarrow> nat \<Rightarrow> pfile \<Rightarrow> nat option \<times> pfile" where
  "write_loop bs off tot f =
     (if tot < length bs then
        (case pwrite_sys (drop tot bs) (off + tot) f of
           (Eintr, f') \<Rightarrow> write_loop bs off tot f'
         | (Fail, f') \<Rightarrow> (None, f')
         | (Ret n, f') \<Rightarrow> if n = 0 then (Some tot, f') else write_loop bs off (tot + n) f')
      else (Some tot, f))"
  by pat_completeness auto
termination
  by (relation "measure (\<lambda>(bs, off, tot, f). length (f_sched f) + (length bs - tot))")
    (auto dest!: sysret_sched(1) [OF sym] sysret_sched_less(1) [OF sym])

definition write_at :: "bytes \<Rightarrow> nat \<Rightarrow> pfile \<Rightarrow> nat option \<times> pfile" where
  "write_at bs off f = write_loop bs off 0 f"

text \<open>\<open>got\<close> holds the bytes already in the buffer; the loop wants \<open>n\<close> of them.\<close>

function read_loop_at :: "nat \<Rightarrow> int \<Rightarrow> bytes \<Rightarrow> pfile \<Rightarrow> bytes option \<times> pfile" where
  "read_loop_at n off got f =
     (if length got < n then
        (case pread_sys (n - length got) (off + int (length got)) f of
           (Eintr, f') \<Rightarrow> read_loop_at n off got f'
         | (Fail, f') \<Rightarrow> (None, f')
         | (Ret bs, f') \<Rightarrow> if bs = [] then (Some got, f') else read_loop_at n off (got @ bs) f')
      else (Some got, f))"
  by pat_completeness auto
termination
  by (relation "measure (\<lambda>(n, off, got, f). length (f_sched f) + (n - length got))")
    (auto dest!: sysret_sched(2) [OF sym] sysret_sched_less(2) [OF sym] simp flip: length_greater_0_conv)

definition read_at :: "nat \<Rightarrow> int \<Rightarrow> pfile \<Rightarrow> bytes option \<times> pfile" where
  "read_at n off f = read_loop_at n off [] f"

function ftruncate_wrapped :: "nat \<Rightarrow> pfile \<Rightarrow> bool \<times> pfile" where
  "ftruncate_wrapped n f =
     (case ftruncate_sys n f of
        (Eintr, f') \<Rightarrow> ftruncate_wrapped n f'
      | (Fail, f') \<Rightarrow> (False, f')
      | (Ret _, f') \<Rightarrow> (True, f'))"
  by pat_completeness auto
termination
  by (relation "measure (\<lambda>(n, f). length (f_sched f))")
    (auto dest!: sysret_sched_less(3) [OF sym])

text \<open>\<open>open\<close> in a loop: the schedule says what each attempt returns.\<close>

fun open_wal_file :: "io_fault list \<Rightarrow> bool \<times> io_fault list" where
  "open_wal_file [] = (True, [])"
| "open_wal_file (F_eintr # xs) = open_wal_file xs"
| "open_wal_file (F_fail # xs) = (False, xs)"
| "open_wal_file (_ # xs) = (True, xs)"

declare write_loop.simps [simp del] read_loop_at.simps [simp del] ftruncate_wrapped.simps [simp del]

section \<open>Benign schedules\<close>

definition benign :: "io_fault list \<Rightarrow> bool" where
  "benign xs = (F_fail \<notin> set xs \<and> F_short 0 \<notin> set xs)"

lemma benign_Nil [simp]: "benign []"
  by (simp add: benign_def)

lemma benign_Cons [simp]: "benign (x # xs) \<longleftrightarrow> x \<noteq> F_fail \<and> x \<noteq> F_short 0 \<and> benign xs"
  by (auto simp: benign_def)

lemma next_fault_benign:
  "next_fault f = (x, f') \<Longrightarrow> benign (f_sched f) \<Longrightarrow> x \<noteq> F_fail \<and> x \<noteq> F_short 0 \<and> benign (f_sched f')"
  by (auto simp: next_fault_def split: list.splits)

lemma next_fault_upd:
  assumes "next_fault f = (x, f')"
  obtains s where "f' = f\<lparr>f_sched := s\<rparr>"
  using assms by (cases f) (auto simp: next_fault_def split: list.splits)

lemma store_at_end: "off = length c \<Longrightarrow> store_at off bs c = c @ bs"
  by (simp add: store_at_def)

lemma write_loop_benign:
  assumes "benign (f_sched f)" "off + tot = length (f_content f)" "tot \<le> length bs"
  shows "\<exists>s. write_loop bs off tot f =
      (Some (length bs), f\<lparr>f_content := f_content f @ drop tot bs, f_sched := s\<rparr>) \<and> benign s"
  using assms
proof (induction bs off tot f rule: write_loop.induct)
  case (1 bs off tot f)
  show ?case
  proof (cases "tot < length bs")
    case False
    with 1 have "tot = length bs" by simp
    then show ?thesis using 1 by (intro exI [of _ "f_sched f"]) (simp add: write_loop.simps)
  next
    case True
    obtain x f' where nf: "next_fault f = (x, f')" by fastforce
    note b = next_fault_benign [OF nf 1(3)]
    obtain s' where f': "f' = f\<lparr>f_sched := s'\<rparr>"
      by (rule next_fault_upd [OF nf])
    have app: "do_pwrite ys (off + tot) f' =
        f\<lparr>f_content := f_content f @ ys, f_sched := s'\<rparr>" for ys
      using 1(4) by (simp add: do_pwrite_def f' store_at_end)
    show ?thesis
    proof (cases x)
      case F_ok
      then have sys: "pwrite_sys (drop tot bs) (off + tot) f =
          (Ret (length bs - tot), f\<lparr>f_content := f_content f @ drop tot bs, f_sched := s'\<rparr>)"
        by (simp add: pwrite_sys_def nf app)
      from 1(1) [OF True sys [symmetric] refl] True sys 1(4) b f' show ?thesis
        by (auto simp: write_loop.simps [of bs off tot f] write_loop.simps [of bs off "length bs"])
    next
      case F_eintr
      then have sys: "pwrite_sys (drop tot bs) (off + tot) f = (Eintr, f')"
        by (simp add: pwrite_sys_def nf)
      have "\<exists>s. write_loop bs off tot f' =
          (Some (length bs), f'\<lparr>f_content := f_content f' @ drop tot bs, f_sched := s\<rparr>) \<and> benign s"
        by (rule 1(2) [OF True sys [symmetric] refl]) (use True 1(4) b f' in auto)
      with True sys f' show ?thesis by (simp add: write_loop.simps [of bs off tot f])
    next
      case F_fail
      with b show ?thesis by simp
    next
      case (F_short n)
      define k where "k = min n (length bs - tot)"
      have k: "0 < k" "tot + k \<le> length bs" using b F_short True by (auto simp: k_def)
      from F_short have sys: "pwrite_sys (drop tot bs) (off + tot) f =
          (Ret k, f\<lparr>f_content := f_content f @ take n (drop tot bs), f_sched := s'\<rparr>)"
        by (simp add: pwrite_sys_def nf app k_def Let_def min.commute)
      let ?g = "f\<lparr>f_content := f_content f @ take n (drop tot bs), f_sched := s'\<rparr>"
      have len: "length (take n (drop tot bs)) = k" by (simp add: k_def min.commute)
      have "\<exists>s. write_loop bs off (tot + k) ?g =
          (Some (length bs), ?g\<lparr>f_content := f_content ?g @ drop (tot + k) bs, f_sched := s\<rparr>) \<and> benign s"
        using 1(1) [OF True sys [symmetric] refl] k b f' 1(4) len by simp
      moreover have "take n (drop tot bs) @ drop (tot + k) bs = drop tot bs"
        using append_take_drop_id [of k "drop tot bs"]
        by (auto simp: k_def min_def add.commute split: if_splits)
      ultimately show ?thesis using True sys k
        by (simp add: write_loop.simps [of bs off tot f])
    qed
  qed
qed

lemma write_at_benign:
  assumes "benign (f_sched f)" "off = length (f_content f)"
  obtains s where "write_at bs off f = (Some (length bs), f\<lparr>f_content := f_content f @ bs, f_sched := s\<rparr>)"
    "benign s"
  using write_loop_benign [of f off 0 bs] assms by (auto simp: write_at_def)

lemma slice_take_split:
  "k \<le> n \<Longrightarrow> slice i k c @ slice (i + length (slice i k c)) (n - length (slice i k c)) c = slice i n c"
proof -
  assume k: "k \<le> n"
  have "slice i n c = take k (drop i c) @ take (n - k) (drop k (drop i c))"
    using k by (metis le_add_diff_inverse slice_def take_add)
  then show ?thesis
    using k by (cases "k \<le> length c - i") (auto simp: slice_def add.commute)
qed

lemma read_loop_benign:
  assumes "benign (f_sched f)" "length got \<le> n"
  shows "\<exists>s. read_loop_at n (int i) got f =
      (Some (got @ slice (i + length got) (n - length got) (f_content f)), f\<lparr>f_sched := s\<rparr>) \<and> benign s"
  using assms
proof (induction n "int i" got f rule: read_loop_at.induct)
  case (1 n got f)
  show ?case
  proof (cases "length got < n")
    case False
    with 1 show ?thesis by (intro exI [of _ "f_sched f"]) (simp add: read_loop_at.simps)
  next
    case True
    obtain x f' where nf: "next_fault f = (x, f')" by fastforce
    note b = next_fault_benign [OF nf 1(3)]
    obtain s' where f': "f' = f\<lparr>f_sched := s'\<rparr>" by (rule next_fault_upd [OF nf])
    have nat: "nat (int i + int (length got)) = i + length got" by simp
    have nonneg: "\<not> int i + int (length got) < 0" by simp
    let ?sys = "pread_sys (n - length got) (int i + int (length got)) f"
    let ?c = "f_content f" and ?i = "i + length got" and ?m = "n - length got"
    have some: "\<exists>s. read_loop_at n (int i) got f = (Some (got @ slice ?i ?m ?c), f\<lparr>f_sched := s\<rparr>) \<and> benign s"
      if sys: "?sys = (Ret (slice ?i k ?c), f')" and k: "k \<le> ?m" "0 < k" for k
    proof (cases "slice ?i k ?c = []")
      case True
      with k have "slice ?i ?m ?c = []" by (auto simp: slice_def)
      with True sys \<open>length got < n\<close> f' b show ?thesis
        by (intro exI [of _ s']) (simp add: read_loop_at.simps [of n "int i" got f])
    next
      case False
      have "\<exists>s. read_loop_at n (int i) (got @ slice ?i k ?c) f' =
          (Some ((got @ slice ?i k ?c) @ slice (i + length (got @ slice ?i k ?c))
             (n - length (got @ slice ?i k ?c)) (f_content f')), f'\<lparr>f_sched := s\<rparr>) \<and> benign s"
        by (rule 1(1) [OF \<open>length got < n\<close> sys [symmetric] refl False])
          (use True k b in auto)
      then show ?thesis
        using False sys \<open>length got < n\<close> f' slice_take_split [OF k(1), of ?i ?c]
        by (simp add: read_loop_at.simps [of n "int i" got f] add.assoc)
    qed
    show ?thesis
    proof (cases x)
      case F_ok
      with nf nat f' have "?sys = (Ret (slice ?i ?m ?c), f')" by (simp add: pread_sys_def)
      with True show ?thesis by (intro some) auto
    next
      case F_eintr
      then have sys: "?sys = (Eintr, f')" using nf by (simp add: pread_sys_def)
      have "\<exists>s. read_loop_at n (int i) got f' =
          (Some (got @ slice ?i ?m (f_content f')), f'\<lparr>f_sched := s\<rparr>) \<and> benign s"
        by (rule 1(2) [OF True sys [symmetric] refl]) (use True b in auto)
      with True sys f' show ?thesis by (simp add: read_loop_at.simps [of n "int i" got f])
    next
      case F_fail
      with b show ?thesis by simp
    next
      case (F_short k)
      with nf nat f' have "?sys = (Ret (slice ?i (min k ?m) ?c), f')" by (simp add: pread_sys_def)
      moreover have "0 < k" using b F_short by (cases k) auto
      ultimately show ?thesis using True by (intro some [of "min k ?m"]) auto
    qed
  qed
qed

lemma read_at_benign:
  assumes "benign (f_sched f)"
  obtains s where "read_at n (int i) f = (Some (slice i n (f_content f)), f\<lparr>f_sched := s\<rparr>)" "benign s"
  using read_loop_benign [of f "[]" n i] assms by (auto simp: read_at_def)

lemma seek_set_benign:
  assumes "benign (f_sched f)"
  obtains s where "seek_set n f = (int n, f\<lparr>f_sched := s, f_pos := n\<rparr>)" "benign s"
proof -
  obtain x f' where nf: "next_fault f = (x, f')" by fastforce
  obtain s where "f' = f\<lparr>f_sched := s\<rparr>" by (rule next_fault_upd [OF nf])
  with next_fault_benign [OF nf assms] nf that show ?thesis
    by (auto simp: seek_set_def lseek_set_def)
qed

lemma lseek_cur_benign:
  assumes "benign (f_sched f)"
  obtains s where "lseek_cur f = (int (f_pos f), f\<lparr>f_sched := s\<rparr>)" "benign s"
proof -
  obtain x f' where nf: "next_fault f = (x, f')" by fastforce
  obtain s where "f' = f\<lparr>f_sched := s\<rparr>" by (rule next_fault_upd [OF nf])
  with next_fault_benign [OF nf assms] nf that show ?thesis
    by (auto simp: lseek_cur_def)
qed

lemma seek_end_benign:
  assumes "benign (f_sched f)"
  obtains s where "seek_end f = (int (length (f_content f)), f\<lparr>f_sched := s, f_pos := length (f_content f)\<rparr>)"
    "benign s"
proof -
  obtain x f' where nf: "next_fault f = (x, f')" by fastforce
  obtain s where "f' = f\<lparr>f_sched := s\<rparr>" by (rule next_fault_upd [OF nf])
  with next_fault_benign [OF nf assms] nf that show ?thesis
    by (auto simp: seek_end_def lseek_end_def)
qed

lemma fstat_benign:
  assumes "benign (f_sched f)"
  obtains s where "fstat_size f = (Some (length (f_content f)), f\<lparr>f_sched := s\<rparr>)" "benign s"
proof -
  obtain x f' where nf: "next_fault f = (x, f')" by fastforce
  obtain s where "f' = f\<lparr>f_sched := s\<rparr>" by (rule next_fault_upd [OF nf])
  with next_fault_benign [OF nf assms] nf that show ?thesis
    by (auto simp: fstat_size_def)
qed

lemma fsync_benign:
  assumes "benign (f_sched f)"
  obtains r s where "fsync_sys f = (r, f\<lparr>f_sched := s\<rparr>)" "r \<noteq> Fail" "benign s"
proof -
  obtain x f' where nf: "next_fault f = (x, f')" by fastforce
  obtain s where "f' = f\<lparr>f_sched := s\<rparr>" by (rule next_fault_upd [OF nf])
  with next_fault_benign [OF nf assms] nf that show ?thesis
    by (cases x) (auto simp: fsync_sys_def)
qed

lemma ftruncate_benign_ex:
  assumes "benign (f_sched f)" "n \<le> length (f_content f)"
  shows "\<exists>s. ftruncate_wrapped n f = (True, f\<lparr>f_sched := s, f_content := take n (f_content f)\<rparr>) \<and> benign s"
  using assms
proof (induction n f rule: ftruncate_wrapped.induct)
  case (1 n f)
  obtain x f' where nf: "next_fault f = (x, f')" by fastforce
  obtain s where f': "f' = f\<lparr>f_sched := s\<rparr>" by (rule next_fault_upd [OF nf])
  note b = next_fault_benign [OF nf 1(2)]
  show ?case
  proof (cases "x = F_eintr")
    case True
    then have sys: "ftruncate_sys n f = (Eintr, f')" by (simp add: ftruncate_sys_def nf)
    have "\<exists>s. ftruncate_wrapped n f' = (True, f'\<lparr>f_sched := s, f_content := take n (f_content f')\<rparr>) \<and> benign s"
      by (rule 1(1) [OF sys [symmetric] refl]) (use b 1(3) f' in auto)
    with sys f' show ?thesis by (simp add: ftruncate_wrapped.simps [of n f])
  next
    case False
    with b 1(3) have "ftruncate_sys n f = (Ret (), f'\<lparr>f_content := take n (f_content f')\<rparr>)"
      by (cases x) (auto simp: ftruncate_sys_def nf f')
    with b f' show ?thesis
      by (intro exI [of _ s]) (simp add: ftruncate_wrapped.simps [of n f])
  qed
qed

lemma ftruncate_benign:
  assumes "benign (f_sched f)" "n \<le> length (f_content f)"
  obtains s where "ftruncate_wrapped n f = (True, f\<lparr>f_sched := s, f_content := take n (f_content f)\<rparr>)"
    "benign s"
  using ftruncate_benign_ex [OF assms] by auto

section \<open>What every schedule leaves alone\<close>

text \<open>Whatever the calls return, reading and seeking do not change the bytes of the file
and never lengthen the schedule.\<close>

definition reads_only :: "pfile \<Rightarrow> pfile \<Rightarrow> bool" where
  "reads_only f g = (f_content g = f_content f \<and> f_append_only g = f_append_only f
     \<and> length (f_sched g) \<le> length (f_sched f))"

lemma reads_only_refl [simp]: "reads_only f f"
  by (simp add: reads_only_def)

lemma reads_only_trans [trans]: "reads_only f g \<Longrightarrow> reads_only g h \<Longrightarrow> reads_only f h"
  by (auto simp: reads_only_def)

lemma next_fault_reads: "next_fault f = (x, f') \<Longrightarrow> reads_only f f' \<and> f_pos f' = f_pos f"
  by (auto simp: next_fault_def reads_only_def split: list.splits)

lemma pread_reads: "pread_sys n i f = (r, f') \<Longrightarrow> reads_only f f' \<and> f_pos f' = f_pos f"
  by (auto simp: pread_sys_def dest: next_fault_reads split: prod.splits io_fault.splits if_splits)

lemma read_loop_reads:
  "read_loop_at n i got f = (r, f') \<Longrightarrow> reads_only f f' \<and> f_pos f' = f_pos f"
proof (induction n i got f arbitrary: r f' rule: read_loop_at.induct)
  case (1 n i got f)
  obtain x g where sys: "pread_sys (n - length got) (i + int (length got)) f = (x, g)" by fastforce
  note g = pread_reads [OF sys]
  show ?case
  proof (cases "length got < n")
    case False
    with 1(3) show ?thesis by (auto simp: read_loop_at.simps [of n i got f])
  next
    case True
    note eq = 1(3) [unfolded read_loop_at.simps [of n i got f] sys]
    show ?thesis
    proof (cases x)
      case (Ret bs)
      show ?thesis
      proof (cases "bs = []")
        case False
        with eq True Ret have "read_loop_at n i (got @ bs) g = (r, f')" by simp
        with 1(1) [OF True sys [symmetric] Ret False] g show ?thesis
          by (auto intro: reads_only_trans)
      qed (use eq True Ret g in simp)
    next
      case Eintr
      with eq True have "read_loop_at n i got g = (r, f')" by simp
      with 1(2) [OF True sys [symmetric] Eintr] g show ?thesis
        by (auto intro: reads_only_trans)
    qed (use eq True g in simp)
  qed
qed

lemma read_at_reads: "read_at n i f = (r, f') \<Longrightarrow> reads_only f f' \<and> f_pos f' = f_pos f"
  by (auto simp: read_at_def dest: read_loop_reads)

lemma seek_reads:
  "seek_set n f = (r, f') \<Longrightarrow> reads_only f f'"
  "lseek_cur f = (r, f') \<Longrightarrow> reads_only f f' \<and> f_pos f' = f_pos f"
  "fstat_size f = (q, f') \<Longrightarrow> reads_only f f' \<and> f_pos f' = f_pos f"
  by (auto simp: seek_set_def lseek_set_def lseek_cur_def fstat_size_def reads_only_def
      dest!: next_fault_reads split: prod.splits if_splits)

end
