(* ===== verification/Wal.thy ===== *)
theory Wal
  imports Posix_File
begin

text \<open>
  The write-ahead log of \<open>src/platform/fs/wal.hpp\<close> and \<open>wal.cpp\<close>: its file layout,
  its private readers and writers and its public operations, in the order of the source.
  A \<open>Wal\<close> is the record \<open>wal\<close>: configuration, file and the three atomics. Every
  operation runs under the class's mutex, so it is one state transformer. \<open>now_ns\<close> is an
  argument of \<open>wal_append\<close>; \<open>Result<void>\<close> is \<open>unit Result\<close> (see
  \<open>result_void_simulates\<close>). Integers keep their width: 64-bit sequence numbers and
  counters, 32-bit lengths and checksums. File offsets are natural numbers: \<open>off_t\<close> does
  not overflow on files that fit a disk.
\<close>

unbundle bit_operations_syntax

section \<open>Layout\<close>

type_synonym WalEntryType = byte

definition ADD_NODE :: WalEntryType where "ADD_NODE = 1"
definition REMOVE_NODE :: WalEntryType where "REMOVE_NODE = 2"
definition CONNECT :: WalEntryType where "CONNECT = 3"
definition DISCONNECT :: WalEntryType where "DISCONNECT = 4"
definition LIFECYCLE_STATE :: WalEntryType where "LIFECYCLE_STATE = 5"
definition CUSTOM :: WalEntryType where "CUSTOM = 100"

definition kSchemaVersion :: u32 where "kSchemaVersion = 1"
definition kFileMagic :: u32 where "kFileMagic = 0xDA1F00D5"
definition kFileHeaderSize :: nat where "kFileHeaderSize = 16"
definition kEntryHeaderSize :: nat where "kEntryHeaderSize = 40"

record WalEntry =
  we_schema :: u32
  we_seq :: u64
  we_ts :: u64
  we_type :: WalEntryType
  we_action :: bytes
  we_payload :: bytes

record WalConfig =
  wc_path :: string
  wc_max_size_bytes :: u64
  wc_max_entries :: u32
  wc_fsync_on_append :: bool

record wal =
  w_cfg :: WalConfig
  w_file :: pfile
  w_next_seq :: u64
  w_size_bytes :: u64
  w_entry_count :: u64

definition fnv1a_step :: "u32 \<Rightarrow> byte \<Rightarrow> u32" where
  "fnv1a_step h b = (h XOR ucast b) * 0x01000193"

definition fnv1a :: "bytes \<Rightarrow> u32" where
  "fnv1a bs = foldl fnv1a_step 0x811C9DC5 bs"

definition set_file :: "pfile \<Rightarrow> wal \<Rightarrow> wal" where
  "set_file f w = w\<lparr>w_file := f\<rparr>"

section \<open>File header\<close>

definition file_header :: bytes where
  "file_header = put_le 4 kFileMagic @ put_le 4 kSchemaVersion @ put_le 8 (0 :: u64)"

definition write_file_header :: "wal \<Rightarrow> unit Result \<times> wal" where
  "write_file_header w =
     (case write_at file_header 0 (w_file w) of
        (n, f) \<Rightarrow>
          if n \<noteq> Some kFileHeaderSize then (Err EC_INTERNAL, set_file f w)
          else (Ok (), (set_file f w)\<lparr>w_size_bytes := of_nat kFileHeaderSize\<rparr>))"

text \<open>The scan looks at entry headers only, and stops at the first that is not one.\<close>

lemma lseek_cur_cases:
  "lseek_cur f = (cur, f') \<Longrightarrow> cur = int (f_pos f) \<or> cur = -1"
  by (auto simp: lseek_cur_def next_fault_def split: prod.splits if_splits list.splits)

lemma read_at_negative: "n > 0 \<Longrightarrow> i < 0 \<Longrightarrow> read_at n i f = (None, f)"
  by (simp add: read_at_def read_loop_at.simps [of n i "[]"] pread_sys_def)

lemma seek_set_pos: "seek_set n f = (r, f') \<Longrightarrow> \<not> r < 0 \<Longrightarrow> f_pos f' = n"
  by (auto simp: seek_set_def lseek_set_def split: prod.splits if_splits)

lemma fstat_some: "fstat_size f = (Some n, f') \<Longrightarrow> n = length (f_content f)"
  by (auto simp: fstat_size_def dest!: next_fault_reads simp: reads_only_def
      split: prod.splits if_splits)

lemma scan_advances:
  assumes "lseek_cur f = (cur, f1)" "fstat_size f1 = (Some sz, f2)" "\<not> int sz \<le> cur"
    and "read_at 40 cur f2 = (Some hdr, f3)" "seek_set (nat cur + 40 + n) f3 = (r, f4)" "\<not> r < 0"
  shows "length (f_content f4) - f_pos f4 < length (f_content f) - f_pos f"
proof -
  have c: "f_content f4 = f_content f" "f_content f1 = f_content f"
    using assms by (auto dest!: seek_reads read_at_reads simp: reads_only_def)
  have "\<not> cur < 0" using assms(4) read_at_negative [of 40 cur f2] by auto
  then have "cur = int (f_pos f)" using lseek_cur_cases [OF assms(1)] by auto
  moreover from this have "f_pos f < length (f_content f)"
    using fstat_some [OF assms(2)] assms(3) c by simp
  ultimately show ?thesis using seek_set_pos [OF assms(5,6)] c by simp
qed

function scan_loop :: "pfile \<Rightarrow> u64 \<Rightarrow> u64 \<Rightarrow> (u64 \<times> u64) \<times> pfile" where
  "scan_loop f max_seq count =
     (case lseek_cur f of (cur, f1) \<Rightarrow>
      case fstat_size f1 of
        (None, f2) \<Rightarrow> ((max_seq, count), f2)
      | (Some sz, f2) \<Rightarrow>
        if int sz \<le> cur then ((max_seq, count), f2)
        else case read_at 40 cur f2 of
          (None, f3) \<Rightarrow> ((max_seq, count), f3)
        | (Some hdr, f3) \<Rightarrow>
          if length hdr < kEntryHeaderSize then ((max_seq, count), f3)
          else if get_le (slice 0 4 hdr) \<noteq> kFileMagic \<or> get_le (slice 4 4 hdr) \<noteq> kSchemaVersion
          then ((max_seq, count), f3)
          else
            (case seek_set (nat cur + 40 + (unat (get_le (slice 25 4 hdr) :: u32)
                + unat (get_le (slice 29 4 hdr) :: u32))) f3 of (r, f4) \<Rightarrow>
              if r < 0 then ((max max_seq (get_le (slice 8 8 hdr)), count + 1), f4)
              else scan_loop f4 (max max_seq (get_le (slice 8 8 hdr))) (count + 1)))"
  by pat_completeness auto
termination
  by (relation "measure (\<lambda>(f, m, c). length (f_content f) - f_pos f)")
    (auto dest!: scan_advances [OF sym sym _ sym sym])

declare scan_loop.simps [simp del]

definition scan_entries_for_max_seq :: "pfile \<Rightarrow> (u64 \<times> u64) \<times> pfile" where
  "scan_entries_for_max_seq f =
     (case seek_set kFileHeaderSize f of (r, f1) \<Rightarrow>
        if 0 \<le> r then scan_loop f1 0 0 else ((0, 0), f1))"

definition read_file_header :: "wal \<Rightarrow> u64 Result \<times> wal" where
  "read_file_header w =
     (case read_at kFileHeaderSize 0 (w_file w) of
        (None, f) \<Rightarrow> (Err EC_INTERNAL, set_file f w)
      | (Some buf, f) \<Rightarrow>
        if length buf < kFileHeaderSize then (Ok 1, (set_file f w)\<lparr>w_next_seq := 1\<rparr>)
        else if get_le (slice 0 4 buf) \<noteq> kFileMagic then (Err EC_SERIALIZE_VERSION_MISMATCH, set_file f w)
        else if get_le (slice 4 4 buf) \<noteq> kSchemaVersion
        then (Err EC_SERIALIZE_VERSION_MISMATCH, set_file f w)
        else
          case fstat_size f of (st, f1) \<Rightarrow>
          case scan_entries_for_max_seq f1 of ((max_seq, count), f2) \<Rightarrow>
          case seek_set kFileHeaderSize f2 of (_, f3) \<Rightarrow>
            let cur = (if max_seq + 1 = 0 then 1 else max_seq + 1)
            in (Ok cur, (set_file f3 w)
                 \<lparr>w_size_bytes := (case st of None \<Rightarrow> w_size_bytes w | Some n \<Rightarrow> of_nat n),
                  w_entry_count := count, w_next_seq := cur\<rparr>))"

section \<open>Opening a log\<close>

text \<open>
  What \<open>Wal::create\<close> finds in the file system: whether the path has a parent directory,
  whether \<open>create_directories\<close> reports an error and the parent exists afterwards, the
  bytes of the file if it exists, what the attempts to open it return, and the schedule of
  the system calls on it afterwards.
\<close>

record fs_env =
  fe_has_parent :: bool
  fe_mkdir_error :: bool
  fe_parent_exists :: bool
  fe_file :: "bytes option"
  fe_open_sched :: "io_fault list"
  fe_sched :: "io_fault list"
  fe_append_only :: bool

definition wal_ctor :: "WalConfig \<Rightarrow> pfile \<Rightarrow> wal" where
  "wal_ctor cfg f = \<lparr>w_cfg = cfg, w_file = f, w_next_seq = 1, w_size_bytes = 0, w_entry_count = 0\<rparr>"

definition wal_create :: "WalConfig \<Rightarrow> fs_env \<Rightarrow> wal Result" where
  "wal_create cfg env =
     (if fe_has_parent env \<and> fe_mkdir_error env \<and> \<not> fe_parent_exists env
      then Err EC_BIZ_FILE_NOT_FOUND
      else if \<not> fst (open_wal_file (fe_open_sched env)) then Err EC_BIZ_FILE_NOT_FOUND
      else
        let w = wal_ctor cfg \<lparr>f_content = (case fe_file env of None \<Rightarrow> [] | Some c \<Rightarrow> c),
                  f_pos = 0, f_sched = fe_sched env, f_append_only = fe_append_only env\<rparr>
        in case fe_file env of
             None \<Rightarrow>
               (case write_file_header w of
                  (Err c, _) \<Rightarrow> Err c
                | (_, w1) \<Rightarrow> Ok (w1\<lparr>w_next_seq := 1\<rparr>))
           | Some _ \<Rightarrow>
               (case read_file_header w of
                  (Err c, _) \<Rightarrow> Err c
                | (_, w1) \<Rightarrow> Ok w1))"

section \<open>Entries\<close>

text \<open>The lengths are cast to 32 bits; bytes 33 to 35 are zero.\<close>

definition act_len :: "WalEntry \<Rightarrow> u32" where
  "act_len e = of_nat (length (we_action e))"

definition pay_len :: "WalEntry \<Rightarrow> u32" where
  "pay_len e = of_nat (length (we_payload e))"

definition entry_head36 :: "WalEntry \<Rightarrow> bytes" where
  "entry_head36 e = put_le 4 kFileMagic @ put_le 4 (we_schema e) @ put_le 8 (we_seq e)
     @ put_le 8 (we_ts e) @ [we_type e] @ put_le 4 (act_len e) @ put_le 4 (pay_len e) @ [0, 0, 0]"

definition mix_checksum :: "bytes \<Rightarrow> bytes \<Rightarrow> bytes \<Rightarrow> u32" where
  "mix_checksum head action payload =
     (let c0 = fnv1a head;
          c1 = (if 0 < length action then c0 XOR fnv1a action else c0)
      in if 0 < length payload then c1 XOR fnv1a payload else c1)"

definition entry_header :: "WalEntry \<Rightarrow> bytes" where
  "entry_header e = entry_head36 e @ put_le 4 (mix_checksum (entry_head36 e)
     (take (unat (act_len e)) (we_action e)) (take (unat (pay_len e)) (we_payload e)))"

text \<open>A body of length zero is not written; anything short of the whole body is an error.\<close>

definition write_body :: "bytes \<Rightarrow> nat \<Rightarrow> pfile \<Rightarrow> bool \<times> pfile" where
  "write_body bs off f =
     (if 0 < length bs
      then (case write_at bs off f of (n, f') \<Rightarrow> (n = Some (length bs), f'))
      else (True, f))"

definition write_entry :: "WalEntry \<Rightarrow> wal \<Rightarrow> u64 Result \<times> wal" where
  "write_entry e w =
     (case seek_end (w_file w) of (end_off, f1) \<Rightarrow>
      if end_off < 0 then (Err EC_INTERNAL, set_file f1 w)
      else case write_at (entry_header e) (nat end_off) f1 of (n1, f2) \<Rightarrow>
      if n1 \<noteq> Some kEntryHeaderSize then (Err EC_INTERNAL, set_file f2 w)
      else case read_at 40 end_off f2 of (_, f3) \<Rightarrow>
      case write_body (take (unat (act_len e)) (we_action e)) (nat end_off + kEntryHeaderSize) f3 of
        (ok2, f4) \<Rightarrow>
      if \<not> ok2 then (Err EC_INTERNAL, set_file f4 w)
      else case write_body (take (unat (pay_len e)) (we_payload e))
          (nat end_off + kEntryHeaderSize + unat (act_len e)) f4 of (ok3, f5) \<Rightarrow>
      if \<not> ok3 then (Err EC_INTERNAL, set_file f5 w)
      else (Ok (we_seq e), (set_file f5 w)
        \<lparr>w_size_bytes := w_size_bytes w + (of_nat kEntryHeaderSize + ucast (act_len e) + ucast (pay_len e)),
         w_entry_count := w_entry_count w + 1\<rparr>))"

definition read_body :: "nat \<Rightarrow> int \<Rightarrow> pfile \<Rightarrow> bytes option \<times> pfile" where
  "read_body n off f =
     (if 0 < n then
        (case read_at n off f of
           (Some bs, f') \<Rightarrow> (if length bs = n then Some bs else None, f')
         | (None, f') \<Rightarrow> (None, f'))
      else (Some [], f))"

definition read_entry :: "pfile \<Rightarrow> WalEntry Result \<times> pfile" where
  "read_entry f =
     (case lseek_cur f of (cur, f1) \<Rightarrow>
      if cur < 0 \<or> nat cur < kFileHeaderSize then (Err EC_PROTOCOL_TRUNCATED_BUFFER, f1)
      else case seek_set (nat cur) f1 of (r, f2) \<Rightarrow>
      if r < 0 then (Err EC_INTERNAL, f2)
      else case read_at kEntryHeaderSize cur f2 of
        (None, f3) \<Rightarrow> (Err EC_INTERNAL, f3)
      | (Some header, f3) \<Rightarrow>
        if length header < kEntryHeaderSize then (Err EC_PROTOCOL_TRUNCATED_BUFFER, f3)
        else
          let magic = (get_le (slice 0 4 header) :: u32);
              schema = (get_le (slice 4 4 header) :: u32);
              alen = unat (get_le (slice 25 4 header) :: u32);
              plen = unat (get_le (slice 29 4 header) :: u32)
          in if magic \<noteq> kFileMagic then (Err EC_SERIALIZE_VERSION_MISMATCH, f3)
             else if schema \<noteq> kSchemaVersion then (Err EC_SERIALIZE_VERSION_MISMATCH, f3)
             else case read_body alen (cur + int kEntryHeaderSize) f3 of
               (None, f4) \<Rightarrow> (Err EC_PROTOCOL_TRUNCATED_BUFFER, f4)
             | (Some action, f4) \<Rightarrow>
               case read_body plen (cur + int kEntryHeaderSize + int alen) f4 of
                 (None, f5) \<Rightarrow> (Err EC_PROTOCOL_TRUNCATED_BUFFER, f5)
               | (Some payload, f5) \<Rightarrow>
                 if mix_checksum (take 36 header) action payload \<noteq> get_le (slice 36 4 header)
                 then (Err EC_SERIALIZE_DECODE_FAILED, f5)
                 else case seek_set (nat cur + kEntryHeaderSize + alen + plen) f5 of (_, f6) \<Rightarrow>
                   (Ok \<lparr>we_schema = schema, we_seq = get_le (slice 8 8 header),
                        we_ts = get_le (slice 16 8 header), we_type = header ! 24,
                        we_action = action, we_payload = payload\<rparr>, f6))"

lemma read_body_reads: "read_body n i f = (r, f') \<Longrightarrow> reads_only f f' \<and> f_pos f' = f_pos f"
  by (auto simp: read_body_def dest!: read_at_reads split: if_splits prod.splits option.splits)

lemma read_at_short_reads: "read_at n i f = (r, f') \<Longrightarrow> reads_only f f'"
  using read_at_reads by blast

text \<open>An entry that was read moves the offset forward, or a seek has failed on the way.\<close>

lemma seek_set_moves:
  assumes "seek_set n f = (r, f')" "f_pos f < n"
  shows "f_pos f < f_pos f' \<or> (f_pos f' = f_pos f \<and> length (f_sched f') < length (f_sched f))"
  using assms
  by (auto simp: seek_set_def lseek_set_def dest: next_fault_less next_fault_reads
      split: prod.splits if_splits)

lemma read_entry_reads:
  assumes "read_entry f = (r, f')"
  shows "reads_only f f'"
  using assms
  by (auto simp: read_entry_def Let_def
      dest!: read_at_short_reads read_body_reads [THEN conjunct1] seek_reads(1) seek_reads(2) [THEN conjunct1]
      split: prod.splits if_splits option.splits) (auto simp: reads_only_def)

lemma read_entry_moves:
  assumes "read_entry f = (Ok e, f')"
  shows "f_pos f < f_pos f' \<or> (f_pos f' = f_pos f \<and> length (f_sched f') < length (f_sched f))"
proof -
  obtain cur f1 r f2 where s1: "lseek_cur f = (cur, f1)" "seek_set (nat cur) f1 = (r, f2)"
    by fastforce
  from assms s1 have ok: "\<not> cur < 0" "\<not> r < 0"
    by (auto simp: read_entry_def split: if_splits)
  have cur: "nat cur = f_pos f" using lseek_cur_cases [OF s1(1)] ok by auto
  have f2: "reads_only f f2" "f_pos f2 = f_pos f"
    using seek_reads(2) [OF s1(1)] seek_reads(1) [OF s1(2)] seek_set_pos [OF s1(2) ok(2)] cur
    by (auto intro: reads_only_trans)
  from assms s1 ok obtain header f3 action f4 payload f5 r6 n where
    s2: "read_at kEntryHeaderSize cur f2 = (Some header, f3)"
      "read_body (unat (get_le (slice 25 4 header) :: u32)) (cur + int kEntryHeaderSize) f3 = (Some action, f4)"
      "read_body (unat (get_le (slice 29 4 header) :: u32))
         (cur + int kEntryHeaderSize + int (unat (get_le (slice 25 4 header) :: u32))) f4 = (Some payload, f5)"
      "seek_set n f5 = (r6, f')" "nat cur < n"
    by (auto simp: read_entry_def Let_def kEntryHeaderSize_def split: if_splits prod.splits option.splits)
  have "reads_only f f5 \<and> f_pos f5 = f_pos f"
    using f2 read_at_reads [OF s2(1)] read_body_reads [OF s2(2)] read_body_reads [OF s2(3)]
    by (auto simp: reads_only_def)
  with seek_set_moves [OF s2(4)] s2(5) cur show ?thesis
    by (auto simp: reads_only_def)
qed

text \<open>
  The loop that \<open>replay\<close>, \<open>replay_stream\<close> and \<open>truncate\<close> share: until the offset
  reaches the end of the file, read an entry and hand it to the body, which says whether to
  go on. An entry that cannot be read ends it with that error.
\<close>

lemma wal_loop_decreases:
  assumes "lseek_cur f = (cur, f1)" "fstat_size f1 = (Some sz, f2)" "\<not> int sz \<le> cur"
    and "read_entry f2 = (Ok e, f3)"
  shows "length (f_sched f3) + (length (f_content f3) - f_pos f3)
    < length (f_sched f) + (length (f_content f) - f_pos f)"
proof -
  have r: "reads_only f f2" "f_pos f2 = f_pos f" "reads_only f2 f3" "reads_only f f1"
    using seek_reads(2) [OF assms(1)] seek_reads(3) [OF assms(2)] read_entry_reads [OF assms(4)]
    by (auto intro: reads_only_trans)
  have sz: "sz = length (f_content f)"
    using fstat_some [OF assms(2)] r(4) by (simp add: reads_only_def)
  show ?thesis
  proof (cases "cur = -1")
    case True
    then have "length (f_sched f1) < length (f_sched f)"
      using assms(1) by (auto simp: lseek_cur_def dest: next_fault_less split: prod.splits if_splits)
    with r read_entry_moves [OF assms(4)] seek_reads(3) [OF assms(2)] show ?thesis
      by (auto simp: reads_only_def)
  next
    case False
    with lseek_cur_cases [OF assms(1)] assms(3) sz have "f_pos f < length (f_content f)" by auto
    with r read_entry_moves [OF assms(4)] show ?thesis by (auto simp: reads_only_def)
  qed
qed

function wal_loop :: "('a \<Rightarrow> WalEntry \<Rightarrow> 'a \<times> bool) \<Rightarrow> pfile \<Rightarrow> 'a \<Rightarrow> 'a Result \<times> pfile" where
  "wal_loop body f acc =
     (case lseek_cur f of (cur, f1) \<Rightarrow>
      case fstat_size f1 of
        (None, f2) \<Rightarrow> (Err EC_INTERNAL, f2)
      | (Some sz, f2) \<Rightarrow>
        if int sz \<le> cur then (Ok acc, f2)
        else case read_entry f2 of
          (Err c, f3) \<Rightarrow> (Err c, f3)
        | (Uninitialized, f3) \<Rightarrow> (Uninitialized, f3)
        | (Ok e, f3) \<Rightarrow>
          (case body acc e of (acc', go) \<Rightarrow>
             if go then wal_loop body f3 acc' else (Ok acc', f3)))"
  by pat_completeness auto
termination
  by (relation "measure (\<lambda>(b, f, acc). length (f_sched f) + (length (f_content f) - f_pos f))")
    (auto dest!: wal_loop_decreases [OF sym sym _ sym])

declare wal_loop.simps [simp del]

section \<open>Public operations\<close>

definition wal_fsync :: "wal \<Rightarrow> unit Result \<times> wal" where
  "wal_fsync w =
     (case fsync_sys (w_file w) of (r, f) \<Rightarrow>
        (if r = Fail then Err EC_INTERNAL else Ok (), set_file f w))"

definition wal_append :: "u64 \<Rightarrow> WalEntryType \<Rightarrow> bytes \<Rightarrow> bytes \<Rightarrow> wal \<Rightarrow> u64 Result \<times> wal" where
  "wal_append now_ns type action payload w =
     (let e = \<lparr>we_schema = kSchemaVersion, we_seq = w_next_seq w, we_ts = now_ns,
               we_type = type, we_action = action, we_payload = payload\<rparr>;
          w1 = w\<lparr>w_next_seq := w_next_seq w + 1\<rparr>;
          undo = (\<lambda>w'. w'\<lparr>w_next_seq := w_next_seq w' - 1\<rparr>)
      in if 0 < wc_max_entries (w_cfg w) \<and> ucast (wc_max_entries (w_cfg w)) \<le> w_entry_count w1
         then (Err EC_RES_DISK_FULL, undo w1)
         else if 0 < wc_max_size_bytes (w_cfg w) \<and>
           wc_max_size_bytes (w_cfg w) < w_size_bytes w1 + of_nat kEntryHeaderSize
             + of_nat (length action) + of_nat (length payload)
         then (Err EC_RES_DISK_FULL, undo w1)
         else case write_entry e w1 of
           (Err c, w2) \<Rightarrow> (Err c, undo w2)
         | (_, w2) \<Rightarrow>
             (if wc_fsync_on_append (w_cfg w)
              then (case fsync_sys (w_file w2) of (_, f) \<Rightarrow> (Ok (we_seq e), set_file f w2))
              else (Ok (we_seq e), w2)))"

definition wal_replay :: "wal \<Rightarrow> WalEntry list Result \<times> wal" where
  "wal_replay w =
     (case seek_set kFileHeaderSize (w_file w) of (r, f1) \<Rightarrow>
      if r < 0 then (Err EC_INTERNAL, set_file f1 w)
      else case wal_loop (\<lambda>out e. (out @ [e], True)) f1 [] of
        (Ok out, f2) \<Rightarrow> (Ok out, (set_file f2 w)\<lparr>w_entry_count := of_nat (length out)\<rparr>)
      | (r, f2) \<Rightarrow> (r, set_file f2 w))"

text \<open>The callback has a state of its own; an empty \<open>std::function\<close> is \<open>None\<close>.\<close>

definition wal_replay_stream :: "('a \<Rightarrow> WalEntry \<Rightarrow> 'a \<times> bool) option \<Rightarrow> 'a \<Rightarrow> wal \<Rightarrow> 'a Result \<times> wal" where
  "wal_replay_stream callback acc w =
     (case callback of
        None \<Rightarrow> (Err EC_INVALID_ARG, w)
      | Some body \<Rightarrow>
        (case seek_set kFileHeaderSize (w_file w) of (r, f1) \<Rightarrow>
         if r < 0 then (Err EC_INTERNAL, set_file f1 w)
         else case wal_loop body f1 acc of (r, f2) \<Rightarrow> (r, set_file f2 w)))"

fun write_entries :: "WalEntry list \<Rightarrow> wal \<Rightarrow> unit Result \<times> wal" where
  "write_entries [] w = (Ok (), w)"
| "write_entries (e # es) w =
     (case write_entry e w of
        (Err c, w1) \<Rightarrow> (Err c, w1)
      | (_, w1) \<Rightarrow> write_entries es w1)"

definition wal_truncate :: "u64 \<Rightarrow> wal \<Rightarrow> unit Result \<times> wal" where
  "wal_truncate keep_sequence w =
     (case seek_set kFileHeaderSize (w_file w) of (r, f1) \<Rightarrow>
      if r < 0 then (Err EC_INTERNAL, set_file f1 w)
      else case wal_loop (\<lambda>(kept, n) e.
            (if keep_sequence \<le> we_seq e
             then (kept @ [e], n + (of_nat kEntryHeaderSize + of_nat (length (we_action e))
                 + of_nat (length (we_payload e))))
             else (kept, n), True)) f1 ([], of_nat kFileHeaderSize :: u64) of
        (Err c, f2) \<Rightarrow> (Err c, set_file f2 w)
      | (Uninitialized, f2) \<Rightarrow> (Uninitialized, set_file f2 w)
      | (Ok (kept, kept_bytes), f2) \<Rightarrow>
        (case ftruncate_wrapped kFileHeaderSize f2 of (ok, f3) \<Rightarrow>
         if \<not> ok then (Err EC_INTERNAL, set_file f3 w)
         else if kept = [] then
           (Ok (), (set_file f3 w)\<lparr>w_entry_count := 0, w_size_bytes := of_nat kFileHeaderSize\<rparr>)
         else case seek_set kFileHeaderSize f3 of (r, f4) \<Rightarrow>
         if r < 0 then (Err EC_INTERNAL, set_file f4 w)
         else case write_entries kept (set_file f4 w) of
           (Err c, w1) \<Rightarrow> (Err c, w1)
         | (_, w1) \<Rightarrow>
             (Ok (), w1\<lparr>w_entry_count := of_nat (length kept), w_size_bytes := kept_bytes\<rparr>)))"

definition wal_truncate_all :: "wal \<Rightarrow> unit Result \<times> wal" where
  "wal_truncate_all w =
     (case ftruncate_wrapped kFileHeaderSize (w_file w) of (ok, f1) \<Rightarrow>
      if \<not> ok then (Err EC_INTERNAL, set_file f1 w)
      else case seek_set kFileHeaderSize f1 of (r, f2) \<Rightarrow>
      if r < 0 then (Err EC_INTERNAL, set_file f2 w)
      else (Ok (), (set_file f2 w)\<lparr>w_entry_count := 0, w_size_bytes := of_nat kFileHeaderSize\<rparr>))"

definition current_sequence :: "wal \<Rightarrow> u64" where
  "current_sequence w = w_next_seq w"

definition size_bytes :: "wal \<Rightarrow> u64" where
  "size_bytes w = w_size_bytes w"

definition entry_count :: "wal \<Rightarrow> u64" where
  "entry_count w = w_entry_count w"

end
