(* ===== verification/Wal_Log.thy ===== *)
theory Wal_Log
  imports Wal
begin

text \<open>
  The write-ahead log as what it promises: a list of entries. \<open>wal_rep w es\<close> says that the
  bytes of the file are a header and the encodings of \<open>es\<close>, that the size and count
  fields agree with them and that no pending system call fails for good. Under it every
  public operation is its obvious counterpart on lists (append at the end, read all, keep
  those from a sequence number on), interruptions and short transfers included; reopening
  the file restores the sequence counter; a run of operations keeps sequence numbers
  strictly increasing. The last sections treat damaged files.
\<close>

unbundle bit_operations_syntax

section \<open>Encoding of one entry\<close>

definition enc_entry :: "WalEntry \<Rightarrow> bytes" where
  "enc_entry e = entry_header e @ take (unat (act_len e)) (we_action e)
     @ take (unat (pay_len e)) (we_payload e)"

definition entry_ok :: "WalEntry \<Rightarrow> bool" where
  "entry_ok e = (we_schema e = kSchemaVersion \<and> length (we_action e) < 2 ^ 32
     \<and> length (we_payload e) < 2 ^ 32)"

text \<open>What reaches the file of an entry whose lengths do not fit 32 bits.\<close>

definition clip :: "WalEntry \<Rightarrow> WalEntry" where
  "clip e = e\<lparr>we_action := take (unat (act_len e)) (we_action e),
              we_payload := take (unat (pay_len e)) (we_payload e)\<rparr>"

lemma unat_lens:
  "unat (act_len e) = length (we_action e) mod 2 ^ 32"
  "unat (pay_len e) = length (we_payload e) mod 2 ^ 32"
  by (simp_all add: act_len_def pay_len_def unat_of_nat)

lemma entry_ok_lens:
  assumes "entry_ok e"
  shows "unat (act_len e) = length (we_action e)" "unat (pay_len e) = length (we_payload e)"
  using assms by (simp_all add: unat_lens entry_ok_def)

lemma clip_ok: "entry_ok e \<Longrightarrow> clip e = e"
  by (simp add: clip_def entry_ok_lens)

lemma clip_fields [simp]:
  "we_schema (clip e) = we_schema e" "we_seq (clip e) = we_seq e" "we_ts (clip e) = we_ts e"
  "we_type (clip e) = we_type e"
  by (simp_all add: clip_def)

lemma length_clip:
  "length (we_action (clip e)) = unat (act_len e)" "length (we_payload (clip e)) = unat (pay_len e)"
  by (simp_all add: clip_def unat_lens mod_le_divisor le_trans)

lemma entry_ok_clip: "we_schema e = kSchemaVersion \<Longrightarrow> entry_ok (clip e)"
  by (simp add: entry_ok_def length_clip unat_lens)

lemma clip_lens [simp]: "act_len (clip e) = act_len e" "pay_len (clip e) = pay_len e"
  unfolding act_len_def [of "clip e"] pay_len_def [of "clip e"] length_clip by simp_all

lemma enc_entry_clip: "enc_entry (clip e) = enc_entry e"
proof -
  have "take (unat (act_len e)) (we_action (clip e)) = take (unat (act_len e)) (we_action e)"
    "take (unat (pay_len e)) (we_payload (clip e)) = take (unat (pay_len e)) (we_payload e)"
    by (simp_all add: clip_def)
  then show ?thesis by (simp add: enc_entry_def entry_header_def entry_head36_def)
qed

lemma length_entry_head36 [simp]: "length (entry_head36 e) = 36"
  by (simp add: entry_head36_def)

lemma length_entry_header [simp]: "length (entry_header e) = 40"
  by (simp add: entry_header_def)

lemma length_enc_entry:
  "length (enc_entry e) = 40 + unat (act_len e) + unat (pay_len e)"
  using length_clip [of e] by (simp add: enc_entry_def clip_def)

lemma enc_entry_ne [simp]: "enc_entry e \<noteq> []"
  using length_enc_entry [of e] by force

text \<open>The fields of a header that was written.\<close>

lemma header_fields:
  "get_le (slice 0 4 (entry_header e)) = kFileMagic"
  "get_le (slice 4 4 (entry_header e)) = we_schema e"
  "get_le (slice 8 8 (entry_header e)) = we_seq e"
  "get_le (slice 16 8 (entry_header e)) = we_ts e"
  "entry_header e ! 24 = we_type e"
  "get_le (slice 25 4 (entry_header e)) = act_len e"
  "get_le (slice 29 4 (entry_header e)) = pay_len e"
  "take 36 (entry_header e) = entry_head36 e"
  "get_le (slice 36 4 (entry_header e)) = mix_checksum (entry_head36 e)
     (take (unat (act_len e)) (we_action e)) (take (unat (pay_len e)) (we_payload e))"
  by (simp_all add: entry_header_def entry_head36_def slice_def nth_append)

lemma slice_app: "slice (length xs + i) n (xs @ ys) = slice i n ys"
  by (simp add: slice_def)

lemma slice_prefix: "i + n \<le> length xs \<Longrightarrow> slice i n (xs @ ys) = slice i n xs"
  by (simp add: slice_def)

lemma read_body_benign:
  assumes "benign (f_sched f)" "i + n \<le> length (f_content f)"
  obtains s where "read_body n (int i) f = (Some (slice i n (f_content f)), f\<lparr>f_sched := s\<rparr>)" "benign s"
proof (cases "n = 0")
  case True
  with assms(1) show ?thesis by (intro that [of "f_sched f"]) (simp_all add: read_body_def)
next
  case False
  obtain s where "read_at n (int i) f = (Some (slice i n (f_content f)), f\<lparr>f_sched := s\<rparr>)" "benign s"
    by (rule read_at_benign [OF assms(1)])
  with False assms(2) show ?thesis by (intro that [of s]) (simp_all add: read_body_def)
qed

lemma write_body_benign:
  assumes "benign (f_sched f)" "off = length (f_content f)"
  obtains s where "write_body bs off f = (True, f\<lparr>f_content := f_content f @ bs, f_sched := s\<rparr>)" "benign s"
proof (cases "bs = []")
  case True
  with assms(1) show ?thesis by (intro that [of "f_sched f"]) (simp_all add: write_body_def)
next
  case False
  obtain s where "write_at bs off f = (Some (length bs), f\<lparr>f_content := f_content f @ bs, f_sched := s\<rparr>)" "benign s"
    by (rule write_at_benign [OF assms])
  with False show ?thesis by (intro that [of s]) (simp_all add: write_body_def)
qed

text \<open>What \<open>read_entry\<close> makes of the bytes at its offset, whoever wrote them.\<close>

definition header_lens :: "bytes \<Rightarrow> nat \<times> nat" where
  "header_lens hdr = (unat (get_le (slice 25 4 hdr) :: u32), unat (get_le (slice 29 4 hdr) :: u32))"

definition header_entry :: "bytes \<Rightarrow> bytes \<Rightarrow> bytes \<Rightarrow> WalEntry" where
  "header_entry hdr a p = \<lparr>we_schema = get_le (slice 4 4 hdr), we_seq = get_le (slice 8 8 hdr),
     we_ts = get_le (slice 16 8 hdr), we_type = hdr ! 24, we_action = a, we_payload = p\<rparr>"

lemma read_entry_header:
  assumes b: "benign (f_sched f)" and hdr: "length hdr = 40"
    and c: "f_content f = pre @ hdr @ post" "f_pos f = length pre" "16 \<le> length pre"
    and m: "get_le (slice 0 4 hdr) = kFileMagic" "get_le (slice 4 4 hdr) = kSchemaVersion"
  obtains s where "benign s" "read_entry f = (let f3 = f\<lparr>f_sched := s\<rparr>; cur = int (length pre);
      alen = unat (get_le (slice 25 4 hdr) :: u32); plen = unat (get_le (slice 29 4 hdr) :: u32) in
      case read_body alen (cur + int kEntryHeaderSize) f3 of
         (None, f4) \<Rightarrow> (Err EC_PROTOCOL_TRUNCATED_BUFFER, f4)
       | (Some action, f4) \<Rightarrow>
         case read_body plen (cur + int kEntryHeaderSize + int alen) f4 of
           (None, f5) \<Rightarrow> (Err EC_PROTOCOL_TRUNCATED_BUFFER, f5)
         | (Some payload, f5) \<Rightarrow>
           if mix_checksum (take 36 hdr) action payload \<noteq> get_le (slice 36 4 hdr)
           then (Err EC_SERIALIZE_DECODE_FAILED, f5)
           else case seek_set (nat cur + kEntryHeaderSize + alen + plen) f5 of (_, f6) \<Rightarrow>
             (Ok (header_entry hdr action payload), f6))"
proof -
  let ?p = "length pre"
  obtain s1 where s1: "lseek_cur f = (int ?p, f\<lparr>f_sched := s1\<rparr>)" "benign s1"
    by (rule lseek_cur_benign [OF b, unfolded c(2)])
  obtain s2 where s2: "seek_set ?p (f\<lparr>f_sched := s1\<rparr>) = (int ?p, f\<lparr>f_sched := s2, f_pos := ?p\<rparr>)" "benign s2"
    using seek_set_benign [of "f\<lparr>f_sched := s1\<rparr>" ?p] s1 by auto
  let ?f2 = "f\<lparr>f_sched := s2, f_pos := ?p\<rparr>"
  have "slice ?p 40 (f_content ?f2) = hdr" using hdr by (simp add: c slice_def)
  then obtain s3 where s3: "read_at kEntryHeaderSize (int ?p) ?f2 = (Some hdr, ?f2\<lparr>f_sched := s3\<rparr>)" "benign s3"
    using read_at_benign [of ?f2 kEntryHeaderSize ?p] s2 by (auto simp: kEntryHeaderSize_def)
  have eq: "?f2\<lparr>f_sched := s3\<rparr> = f\<lparr>f_sched := s3\<rparr>" using c(2) by (cases f) simp
  have len: "length hdr = kEntryHeaderSize" using hdr by (simp add: kEntryHeaderSize_def)
  show ?thesis
    by (rule that [OF s3(2)])
      (use c(3) len m s2(1) s3(1)[unfolded eq] in \<open>simp add: read_entry_def s1 Let_def header_entry_def
        kFileHeaderSize_def split: option.split prod.split\<close>)
qed

lemma read_entry_raw:
  assumes b: "benign (f_sched f)" and hdr: "length hdr = 40"
    and c: "f_content f = pre @ hdr @ a @ p @ post" "f_pos f = length pre" "16 \<le> length pre"
    and m: "get_le (slice 0 4 hdr) = kFileMagic" "get_le (slice 4 4 hdr) = kSchemaVersion"
      "header_lens hdr = (length a, length p)"
  obtains s where "benign s" "if mix_checksum (take 36 hdr) a p \<noteq> get_le (slice 36 4 hdr)
    then fst (read_entry f) = Err EC_SERIALIZE_DECODE_FAILED
    else read_entry f = (Ok (header_entry hdr a p), f\<lparr>f_sched := s, f_pos := length (pre @ hdr @ a @ p)\<rparr>)"
proof -
  let ?p = "length pre"
  obtain s3 where s3: "benign s3" "read_entry f = (let f3 = f\<lparr>f_sched := s3\<rparr>; cur = int (length pre);
      alen = unat (get_le (slice 25 4 hdr) :: u32); plen = unat (get_le (slice 29 4 hdr) :: u32) in
      case read_body alen (cur + int kEntryHeaderSize) f3 of
         (None, f4) \<Rightarrow> (Err EC_PROTOCOL_TRUNCATED_BUFFER, f4)
       | (Some action, f4) \<Rightarrow>
         case read_body plen (cur + int kEntryHeaderSize + int alen) f4 of
           (None, f5) \<Rightarrow> (Err EC_PROTOCOL_TRUNCATED_BUFFER, f5)
         | (Some payload, f5) \<Rightarrow>
           if mix_checksum (take 36 hdr) action payload \<noteq> get_le (slice 36 4 hdr)
           then (Err EC_SERIALIZE_DECODE_FAILED, f5)
           else case seek_set (nat cur + kEntryHeaderSize + alen + plen) f5 of (_, f6) \<Rightarrow>
             (Ok (header_entry hdr action payload), f6))"
    by (rule read_entry_header [OF b hdr c(1-3) m(1,2)])
  let ?f3 = "f\<lparr>f_sched := s3\<rparr>"
  have "slice (?p + 40) (length a) (f_content ?f3) = a" "?p + 40 + length a \<le> length (f_content ?f3)"
    using hdr by (simp_all add: c slice_def)
  then obtain s4 where s4: "read_body (length a) (int ?p + int kEntryHeaderSize) ?f3 =
      (Some a, ?f3\<lparr>f_sched := s4\<rparr>)" "benign s4"
    using read_body_benign [of ?f3 "?p + 40" "length a"] s3 by (auto simp: kEntryHeaderSize_def)
  let ?f4 = "?f3\<lparr>f_sched := s4\<rparr>"
  have "slice (?p + 40 + length a) (length p) (f_content ?f4) = p"
    "?p + 40 + length a + length p \<le> length (f_content ?f4)"
    using hdr by (simp_all add: c slice_def)
  then obtain s5 where s5: "read_body (length p) (int ?p + int kEntryHeaderSize + int (length a)) ?f4 =
      (Some p, ?f4\<lparr>f_sched := s5\<rparr>)" "benign s5"
    using read_body_benign [of ?f4 "?p + 40 + length a" "length p"] s4 by (auto simp: kEntryHeaderSize_def)
  let ?f5 = "?f4\<lparr>f_sched := s5\<rparr>"
  let ?q = "?p + kEntryHeaderSize + length a + length p"
  obtain r6 s6 where s6: "seek_set ?q ?f5 = (r6, ?f5\<lparr>f_sched := s6, f_pos := ?q\<rparr>)" "benign s6"
    by (rule seek_set_benign [of ?f5 ?q]) (use s5 that in auto)
  have q: "length (pre @ hdr @ a @ p) = ?q" using hdr by (simp add: kEntryHeaderSize_def)
  have m3: "unat (get_le (slice 25 4 hdr) :: u32) = length a" "unat (get_le (slice 29 4 hdr) :: u32) = length p"
    using m(3) by (simp_all add: header_lens_def)
  have s6': "snd (seek_set ?q ?f5) = ?f5\<lparr>f_sched := s6, f_pos := ?q\<rparr>" by (simp only: s6(1) snd_conv)
  show ?thesis
    by (rule that [OF s6(2)], unfold q s3(2) Let_def m3 s4(1) s5(1))
      (use s4(1) s5(1) s6' in \<open>simp add: case_prod_unfold del: add.assoc\<close>)
qed

lemma read_entry_written:
  assumes b: "benign (f_sched f)" and ok: "entry_ok e"
    and c: "f_content f = pre @ enc_entry e @ post" "f_pos f = length pre" "16 \<le> length pre"
  obtains s where "read_entry f = (Ok e, f\<lparr>f_sched := s, f_pos := length (pre @ enc_entry e)\<rparr>)" "benign s"
proof -
  note len = entry_ok_lens [OF ok]
  have enc: "enc_entry e = entry_header e @ we_action e @ we_payload e"
    by (simp add: enc_entry_def len)
  have e: "header_entry (entry_header e) (we_action e) (we_payload e) = e"
    by (simp add: header_entry_def header_fields)
  obtain s where "benign s" "if mix_checksum (take 36 (entry_header e)) (we_action e) (we_payload e)
        \<noteq> get_le (slice 36 4 (entry_header e))
    then fst (read_entry f) = Err EC_SERIALIZE_DECODE_FAILED
    else read_entry f = (Ok (header_entry (entry_header e) (we_action e) (we_payload e)),
        f\<lparr>f_sched := s, f_pos := length (pre @ entry_header e @ we_action e @ we_payload e)\<rparr>)"
    by (rule read_entry_raw [OF b, of "entry_header e" pre "we_action e" "we_payload e" post])
      (use c ok in \<open>simp_all add: enc header_fields header_lens_def len entry_ok_def\<close>)
  with that show ?thesis by (simp add: header_fields len e enc)
qed

section \<open>The reading loop\<close>

primrec run_body :: "('a \<Rightarrow> WalEntry \<Rightarrow> 'a \<times> bool) \<Rightarrow> WalEntry list \<Rightarrow> 'a \<Rightarrow> 'a" where
  "run_body body [] acc = acc"
| "run_body body (e # es) acc =
     (case body acc e of (acc', go) \<Rightarrow> if go then run_body body es acc' else acc')"

abbreviation enc_log :: "WalEntry list \<Rightarrow> bytes" where
  "enc_log es \<equiv> concat (map enc_entry es)"

lemma wal_loop_written:
  assumes "benign (f_sched f)" "\<forall>e \<in> set es. entry_ok e"
    and "f_content f = pre @ enc_log es" "f_pos f = length pre" "16 \<le> length pre"
  shows "\<exists>s p. wal_loop body f acc = (Ok (run_body body es acc), f\<lparr>f_sched := s, f_pos := p\<rparr>) \<and> benign s"
  using assms
proof (induction es arbitrary: f pre acc)
  case Nil
  obtain s1 where s1: "lseek_cur f = (int (length pre), f\<lparr>f_sched := s1\<rparr>)" "benign s1"
    using lseek_cur_benign [OF Nil(1)] Nil(4) by metis
  obtain s2 where s2: "fstat_size (f\<lparr>f_sched := s1\<rparr>) = (Some (length pre), f\<lparr>f_sched := s2\<rparr>)" "benign s2"
    using fstat_benign [of "f\<lparr>f_sched := s1\<rparr>"] s1 Nil(3) by auto
  have "f\<lparr>f_sched := s2\<rparr> = f\<lparr>f_sched := s2, f_pos := f_pos f\<rparr>" by (cases f) simp
  with s1 s2 show ?case
    by (intro exI [of _ s2] exI [of _ "f_pos f"]) (simp add: wal_loop.simps [of body f])
next
  case (Cons e es)
  obtain s1 where s1: "lseek_cur f = (int (length pre), f\<lparr>f_sched := s1\<rparr>)" "benign s1"
    using lseek_cur_benign [OF Cons.prems(1)] Cons.prems(4) by metis
  let ?n = "length pre + length (enc_entry e) + length (enc_log es)"
  obtain s2 where s2: "fstat_size (f\<lparr>f_sched := s1\<rparr>) = (Some ?n, f\<lparr>f_sched := s2\<rparr>)" "benign s2"
    using fstat_benign [of "f\<lparr>f_sched := s1\<rparr>"] s1 Cons.prems(3) by (auto simp: add.assoc)
  have lt: "\<not> int ?n \<le> int (length pre)" using enc_entry_ne [of e] by (cases "enc_entry e") auto
  let ?f2 = "f\<lparr>f_sched := s2\<rparr>" and ?pre = "pre @ enc_entry e"
  obtain s3 where s3: "read_entry ?f2 = (Ok e, ?f2\<lparr>f_sched := s3, f_pos := length ?pre\<rparr>)" "benign s3"
    using read_entry_written [of ?f2 e pre "enc_log es"] s2 Cons.prems by auto
  let ?f3 = "?f2\<lparr>f_sched := s3, f_pos := length ?pre\<rparr>"
  obtain acc' go where body: "body acc e = (acc', go)" by fastforce
  show ?case
  proof (cases go)
    case False
    with s1 s2 s3 lt body show ?thesis
      by (intro exI [of _ s3] exI [of _ "length ?pre"]) (simp add: wal_loop.simps [of body f])
  next
    case True
    have "\<exists>s p. wal_loop body ?f3 acc' = (Ok (run_body body es acc'), ?f3\<lparr>f_sched := s, f_pos := p\<rparr>) \<and> benign s"
      by (rule Cons.IH [of _ ?pre]) (use Cons.prems s3 in auto)
    then obtain s p where "wal_loop body ?f3 acc' = (Ok (run_body body es acc'), ?f3\<lparr>f_sched := s, f_pos := p\<rparr>)"
      "benign s" by blast
    with s1 s2 s3 lt body True show ?thesis
      by (intro exI [of _ s] exI [of _ p]) (simp add: wal_loop.simps [of body f])
  qed
qed

section \<open>The file holds a list of entries\<close>

definition header_ok :: "bytes \<Rightarrow> bool" where
  "header_ok h = (length h = 16 \<and> get_le (slice 0 4 h) = kFileMagic \<and> get_le (slice 4 4 h) = kSchemaVersion)"

lemma header_ok_file_header: "header_ok file_header"
  by (simp add: header_ok_def file_header_def slice_def)

definition file_rep :: "pfile \<Rightarrow> WalEntry list \<Rightarrow> bool" where
  "file_rep f es = (benign (f_sched f) \<and> (\<forall>e \<in> set es. entry_ok e)
     \<and> header_ok (take 16 (f_content f)) \<and> drop 16 (f_content f) = enc_log es)"

lemma file_repD:
  assumes "file_rep f es"
  shows "benign (f_sched f)" "\<forall>e \<in> set es. entry_ok e"
    "f_content f = take 16 (f_content f) @ enc_log es" "length (take 16 (f_content f)) = 16"
    "length (f_content f) = 16 + length (enc_log es)"
proof -
  show "benign (f_sched f)" "\<forall>e \<in> set es. entry_ok e" using assms by (simp_all add: file_rep_def)
  have d: "drop 16 (f_content f) = enc_log es" using assms by (simp add: file_rep_def)
  show "f_content f = take 16 (f_content f) @ enc_log es"
    unfolding d [symmetric] by (rule append_take_drop_id [symmetric])
  show l: "length (take 16 (f_content f)) = 16"
    using assms by (simp add: file_rep_def header_ok_def)
  then show "length (f_content f) = 16 + length (enc_log es)"
    unfolding d [symmetric] by simp
qed

lemma file_rep_upd:
  "file_rep f es \<Longrightarrow> benign s \<Longrightarrow> file_rep (f\<lparr>f_sched := s\<rparr>) es"
  "file_rep f es \<Longrightarrow> file_rep (f\<lparr>f_pos := p\<rparr>) es"
  by (simp_all add: file_rep_def)

definition wal_rep :: "wal \<Rightarrow> WalEntry list \<Rightarrow> bool" where
  "wal_rep w es = (file_rep (w_file w) es \<and> w_size_bytes w = of_nat (length (f_content (w_file w)))
     \<and> w_entry_count w = of_nat (length es))"

lemma file_rep_append:
  assumes "file_rep f es" "we_schema e = kSchemaVersion"
  shows "file_rep (f\<lparr>f_content := f_content f @ enc_entry e\<rparr>) (es @ [clip e])"
proof -
  have "16 \<le> length (f_content f)" using file_repD(5) [OF assms(1)] by simp
  then have "take 16 (f_content f @ enc_entry e) = take 16 (f_content f)"
    "drop 16 (f_content f @ enc_entry e) = drop 16 (f_content f) @ enc_entry e"
    by simp_all
  moreover have "\<forall>x \<in> set (es @ [clip e]). entry_ok x"
    using file_repD(2) [OF assms(1)] entry_ok_clip [OF assms(2)] by simp
  ultimately show ?thesis
    using assms(1) by (simp add: file_rep_def enc_entry_clip)
qed

lemma write_entry_benign:
  assumes "benign (f_sched (w_file w))"
  obtains s p where "write_entry e w = (Ok (we_seq e), w\<lparr>w_file := (w_file w)
      \<lparr>f_content := f_content (w_file w) @ enc_entry e, f_sched := s, f_pos := p\<rparr>,
      w_size_bytes := w_size_bytes w + of_nat (length (enc_entry e)), w_entry_count := w_entry_count w + 1\<rparr>)"
    "benign s"
proof -
  let ?f = "w_file w" and ?n = "length (f_content (w_file w))"
  let ?a = "take (unat (act_len e)) (we_action e)" and ?b = "take (unat (pay_len e)) (we_payload e)"
  obtain s1 where s1: "seek_end ?f = (int ?n, ?f\<lparr>f_sched := s1, f_pos := ?n\<rparr>)" "benign s1"
    by (rule seek_end_benign [OF assms])
  let ?f1 = "?f\<lparr>f_sched := s1, f_pos := ?n\<rparr>"
  obtain s2 where s2: "write_at (entry_header e) ?n ?f1 = (Some 40,
      ?f1\<lparr>f_content := f_content ?f @ entry_header e, f_sched := s2\<rparr>)" "benign s2"
    using write_at_benign [of ?f1 ?n "entry_header e"] s1 by auto
  let ?f2 = "?f1\<lparr>f_content := f_content ?f @ entry_header e, f_sched := s2\<rparr>"
  obtain r3 s3 where s3: "read_at 40 (int ?n) ?f2 = (r3, ?f2\<lparr>f_sched := s3\<rparr>)" "benign s3"
    by (rule read_at_benign [of ?f2 40 ?n]) (use s2 that in auto)
  let ?f3 = "?f2\<lparr>f_sched := s3\<rparr>"
  obtain s4 where s4: "write_body ?a (?n + kEntryHeaderSize) ?f3 =
      (True, ?f3\<lparr>f_content := f_content ?f3 @ ?a, f_sched := s4\<rparr>)" "benign s4"
    using write_body_benign [of ?f3 "?n + kEntryHeaderSize" ?a] s3 by (auto simp: kEntryHeaderSize_def)
  let ?f4 = "?f3\<lparr>f_content := f_content ?f3 @ ?a, f_sched := s4\<rparr>"
  have "length ?a = unat (act_len e)" using length_clip(1) [of e] by (simp add: clip_def)
  then obtain s5 where s5: "write_body ?b (?n + kEntryHeaderSize + unat (act_len e)) ?f4 =
      (True, ?f4\<lparr>f_content := f_content ?f4 @ ?b, f_sched := s5\<rparr>)" "benign s5"
    using write_body_benign [of ?f4 "?n + kEntryHeaderSize + unat (act_len e)" ?b] s4
    by (auto simp: kEntryHeaderSize_def)
  have sz: "(of_nat kEntryHeaderSize + ucast (act_len e) + ucast (pay_len e) :: u64)
      = of_nat (length (enc_entry e))"
    by (simp add: length_enc_entry kEntryHeaderSize_def unsigned_ucast_eq)
  have "write_entry e w = (Ok (we_seq e), w\<lparr>w_file := (w_file w)
      \<lparr>f_content := f_content (w_file w) @ enc_entry e, f_sched := s5, f_pos := ?n\<rparr>,
      w_size_bytes := w_size_bytes w + of_nat (length (enc_entry e)), w_entry_count := w_entry_count w + 1\<rparr>)"
    using s1(1) s2(1) s3(1) s4(1) s5(1) sz
    by (simp add: write_entry_def set_file_def kEntryHeaderSize_def enc_entry_def)
  with s5(2) that show ?thesis by blast
qed

section \<open>Operations on the list\<close>

text \<open>When \<open>append\<close> refuses: a limit of zero is no limit.\<close>

definition wal_full :: "bytes \<Rightarrow> bytes \<Rightarrow> wal \<Rightarrow> bool" where
  "wal_full action payload w \<longleftrightarrow>
     (0 < wc_max_entries (w_cfg w) \<and> ucast (wc_max_entries (w_cfg w)) \<le> w_entry_count w) \<or>
     (0 < wc_max_size_bytes (w_cfg w) \<and> wc_max_size_bytes (w_cfg w)
        < w_size_bytes w + of_nat kEntryHeaderSize + of_nat (length action) + of_nat (length payload))"

definition new_entry :: "u64 \<Rightarrow> u64 \<Rightarrow> WalEntryType \<Rightarrow> bytes \<Rightarrow> bytes \<Rightarrow> WalEntry" where
  "new_entry seq ts type action payload = clip \<lparr>we_schema = kSchemaVersion, we_seq = seq, we_ts = ts,
     we_type = type, we_action = action, we_payload = payload\<rparr>"

lemma wal_append_full:
  "wal_full action payload w \<Longrightarrow> wal_append ts type action payload w = (Err EC_RES_DISK_FULL, w)"
  by (auto simp: wal_full_def wal_append_def Let_def)

lemma wal_rep_write:
  assumes "wal_rep w es" "we_schema e = kSchemaVersion"
  obtains w' where "write_entry e w = (Ok (we_seq e), w')" "wal_rep w' (es @ [clip e])"
    "w_next_seq w' = w_next_seq w" "w_cfg w' = w_cfg w"
proof -
  have f: "file_rep (w_file w) es" using assms(1) by (simp add: wal_rep_def)
  obtain s p where we: "write_entry e w = (Ok (we_seq e), w\<lparr>w_file := (w_file w)
      \<lparr>f_content := f_content (w_file w) @ enc_entry e, f_sched := s, f_pos := p\<rparr>,
      w_size_bytes := w_size_bytes w + of_nat (length (enc_entry e)), w_entry_count := w_entry_count w + 1\<rparr>)"
    "benign s"
    by (rule write_entry_benign [OF file_repD(1) [OF f]])
  have "file_rep ((w_file w)\<lparr>f_content := f_content (w_file w) @ enc_entry e, f_sched := s, f_pos := p\<rparr>)
      (es @ [clip e])"
    using file_rep_append [OF f assms(2)] we(2) by (simp add: file_rep_def)
  with assms(1) have "wal_rep (snd (write_entry e w)) (es @ [clip e])"
    by (simp add: we(1) wal_rep_def)
  with we(1) that show ?thesis by simp
qed

lemma wal_append_room:
  assumes "wal_rep w es" "\<not> wal_full action payload w"
  obtains w' where "wal_append ts type action payload w = (Ok (w_next_seq w), w')"
    "wal_rep w' (es @ [new_entry (w_next_seq w) ts type action payload])"
    "w_next_seq w' = w_next_seq w + 1" "w_cfg w' = w_cfg w"
proof -
  define e where "e = \<lparr>we_schema = kSchemaVersion, we_seq = w_next_seq w, we_ts = ts,
     we_type = type, we_action = action, we_payload = payload\<rparr>"
  let ?w1 = "w\<lparr>w_next_seq := w_next_seq w + 1\<rparr>"
  have "wal_rep ?w1 es" using assms(1) by (simp add: wal_rep_def)
  then obtain w2 where w2: "write_entry e ?w1 = (Ok (we_seq e), w2)" "wal_rep w2 (es @ [clip e])"
    "w_next_seq w2 = w_next_seq w + 1" "w_cfg w2 = w_cfg w"
    by (rule wal_rep_write [of _ _ e]) (simp_all add: e_def)
  have b: "benign (f_sched (w_file w2))" using w2(2) by (simp add: wal_rep_def file_rep_def)
  obtain r s where fs: "fsync_sys (w_file w2) = (r, (w_file w2)\<lparr>f_sched := s\<rparr>)" "benign s"
    by (rule fsync_benign [OF b])
  have rep: "wal_rep (set_file ((w_file w2)\<lparr>f_sched := s\<rparr>) w2) (es @ [clip e])"
    using w2(2) fs(2) by (simp add: wal_rep_def set_file_def file_rep_upd)
  have "w_next_seq w = we_seq e" by (simp add: e_def)
  moreover have "wal_append ts type action payload w =
      (if wc_fsync_on_append (w_cfg w) then (Ok (we_seq e), set_file ((w_file w2)\<lparr>f_sched := s\<rparr>) w2)
       else (Ok (we_seq e), w2))"
    using assms(2) w2(1) fs(1) unfolding wal_full_def
    by (simp add: wal_append_def Let_def e_def [symmetric])
  moreover have "clip e = new_entry (w_next_seq w) ts type action payload"
    by (simp add: new_entry_def e_def)
  ultimately show ?thesis
    using rep w2 that by (cases "wc_fsync_on_append (w_cfg w)") (auto simp: set_file_def)
qed

text \<open>
  C2. \<open>Wal::append\<close> on every branch, for a log that holds \<open>es\<close> and a file whose system
  calls may be interrupted or short but do not fail: if a limit is exceeded it answers
  \<open>RES_DISK_FULL\<close> and nothing changes (the sequence number is given back); otherwise it
  answers the next sequence number, the log is \<open>es\<close> with the new entry at its end, byte for
  byte in the file, and the counter moves on by one.
\<close>

theorem wal_append_refines:
  assumes "wal_rep w es" "wal_append ts type action payload w = (r, w')"
  shows "if wal_full action payload w then r = Err EC_RES_DISK_FULL \<and> w' = w
    else r = Ok (w_next_seq w) \<and> wal_rep w' (es @ [new_entry (w_next_seq w) ts type action payload])
      \<and> w_next_seq w' = w_next_seq w + 1 \<and> w_cfg w' = w_cfg w"
proof (cases "wal_full action payload w")
  case True
  with assms(2) wal_append_full [OF True] show ?thesis by simp
next
  case False
  show ?thesis by (rule wal_append_room [OF assms(1) False, of ts type]) (use False assms(2) in auto)
qed

lemma seek16_rep:
  assumes "file_rep f es"
  obtains s where "seek_set kFileHeaderSize f = (16, f\<lparr>f_sched := s, f_pos := 16\<rparr>)"
    "file_rep (f\<lparr>f_sched := s, f_pos := 16\<rparr>) es"
proof -
  obtain s where "seek_set kFileHeaderSize f = (int kFileHeaderSize, f\<lparr>f_sched := s, f_pos := kFileHeaderSize\<rparr>)"
    "benign s"
    by (rule seek_set_benign [OF file_repD(1) [OF assms]])
  with assms that show ?thesis by (simp add: file_rep_upd kFileHeaderSize_def)
qed

lemma wal_loop_rep:
  assumes "file_rep f es" "f_pos f = 16"
  obtains s p where "wal_loop body f acc = (Ok (run_body body es acc), f\<lparr>f_sched := s, f_pos := p\<rparr>)"
    "file_rep (f\<lparr>f_sched := s, f_pos := p\<rparr>) es"
  using wal_loop_written [OF file_repD(1,2,3) [OF assms(1)], of body acc] file_repD(4) [OF assms(1)]
    assms file_rep_upd by (metis eq_refl)

lemma run_body_collect: "run_body (\<lambda>out e. (out @ [e], True)) es acc = acc @ es"
  by (induction es arbitrary: acc) simp_all

lemma wal_replay_keeps:
  assumes "wal_rep w es"
  shows "\<exists>w'. wal_replay w = (Ok es, w') \<and> wal_rep w' es \<and> w_next_seq w' = w_next_seq w \<and> w_cfg w' = w_cfg w"
proof -
  have f: "file_rep (w_file w) es" using assms by (simp add: wal_rep_def)
  obtain s where s: "seek_set kFileHeaderSize (w_file w) = (16, (w_file w)\<lparr>f_sched := s, f_pos := 16\<rparr>)"
    "file_rep ((w_file w)\<lparr>f_sched := s, f_pos := 16\<rparr>) es"
    by (rule seek16_rep [OF f])
  let ?f1 = "(w_file w)\<lparr>f_sched := s, f_pos := 16\<rparr>"
  obtain s' p where l: "wal_loop (\<lambda>out e. (out @ [e], True)) ?f1 [] = (Ok es, ?f1\<lparr>f_sched := s', f_pos := p\<rparr>)"
    "file_rep (?f1\<lparr>f_sched := s', f_pos := p\<rparr>) es"
    by (rule wal_loop_rep [OF s(2), of "\<lambda>out e. (out @ [e], True)" "[]"]) (simp_all add: run_body_collect)
  show ?thesis using assms s(1) l
    by (simp add: wal_replay_def set_file_def wal_rep_def)
qed

text \<open>
  \<open>Wal::replay\<close> answers exactly the entries that were appended, in order, and leaves
  the log as it is.
\<close>

theorem wal_replay_returns:
  assumes "wal_rep w es"
  shows "\<exists>w'. wal_replay w = (Ok es, w') \<and> wal_rep w' es \<and> w_next_seq w' = w_next_seq w \<and> w_cfg w' = w_cfg w"
  by (rule wal_replay_keeps [OF assms])

text \<open>
  \<open>Wal::replay_stream\<close> runs the callback over the entries in order until it returns
  false or the log ends; without a callback it is \<open>INVALID_ARG\<close>.
\<close>

theorem wal_replay_stream_runs:
  assumes "wal_rep w es"
  shows "wal_replay_stream None acc w = (Err EC_INVALID_ARG, w) \<and>
    (\<exists>w'. wal_replay_stream (Some body) acc w = (Ok (run_body body es acc), w') \<and> wal_rep w' es)"
proof -
  have f: "file_rep (w_file w) es" using assms by (simp add: wal_rep_def)
  obtain s where s: "seek_set kFileHeaderSize (w_file w) = (16, (w_file w)\<lparr>f_sched := s, f_pos := 16\<rparr>)"
    "file_rep ((w_file w)\<lparr>f_sched := s, f_pos := 16\<rparr>) es"
    by (rule seek16_rep [OF f])
  let ?f1 = "(w_file w)\<lparr>f_sched := s, f_pos := 16\<rparr>"
  obtain s' p where l: "wal_loop body ?f1 acc = (Ok (run_body body es acc), ?f1\<lparr>f_sched := s', f_pos := p\<rparr>)"
    "file_rep (?f1\<lparr>f_sched := s', f_pos := p\<rparr>) es"
    by (rule wal_loop_rep [OF s(2), of body acc]) simp_all
  show ?thesis using assms s(1) l
    by (simp add: wal_replay_stream_def set_file_def wal_rep_def)
qed

section \<open>Truncation\<close>

lemma run_body_keep:
  "\<forall>e \<in> set es. entry_ok e \<Longrightarrow>
   run_body (\<lambda>(kept, n) e. (if k \<le> we_seq e
       then (kept @ [e], n + (of_nat kEntryHeaderSize + of_nat (length (we_action e))
           + of_nat (length (we_payload e))))
       else (kept, n), True)) es (kept, n)
     = (kept @ filter (\<lambda>e. k \<le> we_seq e) es,
        n + of_nat (length (enc_log (filter (\<lambda>e. k \<le> we_seq e) es))))"
  by (induction es arbitrary: kept n)
    (simp_all add: length_enc_entry entry_ok_lens kEntryHeaderSize_def add.assoc)

lemma file_rep_cut:
  assumes "file_rep f es" "benign s"
  shows "file_rep (f\<lparr>f_sched := s, f_content := take 16 (f_content f)\<rparr>) []"
  using assms file_repD(4) [OF assms(1)] by (simp add: file_rep_def)

lemma ftruncate_rep:
  assumes "file_rep f es"
  obtains s where "ftruncate_wrapped kFileHeaderSize f = (True, f\<lparr>f_sched := s, f_content := take 16 (f_content f)\<rparr>)"
    "file_rep (f\<lparr>f_sched := s, f_content := take 16 (f_content f)\<rparr>) []"
proof -
  have "kFileHeaderSize \<le> length (f_content f)"
    using file_repD(5) [OF assms] by (simp add: kFileHeaderSize_def)
  then obtain s where "ftruncate_wrapped kFileHeaderSize f =
      (True, f\<lparr>f_sched := s, f_content := take kFileHeaderSize (f_content f)\<rparr>)" "benign s"
    by (rule ftruncate_benign [OF file_repD(1) [OF assms]])
  with file_rep_cut [OF assms] that show ?thesis by (simp add: kFileHeaderSize_def)
qed

lemma write_entries_file:
  assumes "file_rep (w_file w) ds" "\<forall>e \<in> set es. entry_ok e"
  shows "\<exists>w'. write_entries es w = (Ok (), w') \<and> file_rep (w_file w') (ds @ es)
    \<and> w_next_seq w' = w_next_seq w \<and> w_cfg w' = w_cfg w"
  using assms
proof (induction es arbitrary: w ds)
  case (Cons e es)
  obtain s p where we: "write_entry e w = (Ok (we_seq e), w\<lparr>w_file := (w_file w)
      \<lparr>f_content := f_content (w_file w) @ enc_entry e, f_sched := s, f_pos := p\<rparr>,
      w_size_bytes := w_size_bytes w + of_nat (length (enc_entry e)), w_entry_count := w_entry_count w + 1\<rparr>)"
    "benign s"
    by (rule write_entry_benign [OF file_repD(1) [OF Cons.prems(1)]])
  let ?w1 = "snd (write_entry e w)"
  have e: "entry_ok e" "we_schema e = kSchemaVersion" using Cons.prems(2) by (auto simp: entry_ok_def)
  have "file_rep (w_file ?w1) (ds @ [e])"
    using file_rep_append [OF Cons.prems(1) e(2)] we(2) clip_ok [OF e(1)]
    by (simp add: we(1) file_rep_def)
  from Cons.IH [OF this] Cons.prems(2) show ?case by (simp add: we(1))
qed simp

lemma wal_truncate_rep:
  assumes "wal_rep w es"
  shows "\<exists>w'. wal_truncate k w = (Ok (), w') \<and> wal_rep w' (filter (\<lambda>e. k \<le> we_seq e) es)
    \<and> w_next_seq w' = w_next_seq w \<and> w_cfg w' = w_cfg w"
proof -
  let ?es = "filter (\<lambda>e. k \<le> we_seq e) es"
  have f: "file_rep (w_file w) es" using assms by (simp add: wal_rep_def)
  obtain s where s: "seek_set kFileHeaderSize (w_file w) = (16, (w_file w)\<lparr>f_sched := s, f_pos := 16\<rparr>)"
    "file_rep ((w_file w)\<lparr>f_sched := s, f_pos := 16\<rparr>) es"
    by (rule seek16_rep [OF f])
  let ?f1 = "(w_file w)\<lparr>f_sched := s, f_pos := 16\<rparr>"
  let ?body = "\<lambda>(kept, n) e. (if k \<le> we_seq e
       then (kept @ [e], n + (of_nat kEntryHeaderSize + of_nat (length (we_action e))
           + of_nat (length (we_payload e))))
       else (kept, n), True)"
  obtain s2 p where l: "wal_loop ?body ?f1 ([], of_nat kFileHeaderSize :: u64)
      = (Ok (?es, of_nat (16 + length (enc_log ?es))), ?f1\<lparr>f_sched := s2, f_pos := p\<rparr>)"
    "file_rep (?f1\<lparr>f_sched := s2, f_pos := p\<rparr>) es"
    by (rule wal_loop_rep [OF s(2), of ?body "([], of_nat kFileHeaderSize)"])
      (simp_all add: run_body_keep [OF file_repD(2) [OF f]] kFileHeaderSize_def)
  let ?f2 = "?f1\<lparr>f_sched := s2, f_pos := p\<rparr>"
  obtain s3 where t: "ftruncate_wrapped kFileHeaderSize ?f2
      = (True, ?f2\<lparr>f_sched := s3, f_content := take 16 (f_content ?f2)\<rparr>)"
    "file_rep (?f2\<lparr>f_sched := s3, f_content := take 16 (f_content ?f2)\<rparr>) []"
    by (rule ftruncate_rep [OF l(2)])
  let ?f3 = "?f2\<lparr>f_sched := s3, f_content := take 16 (f_content ?f2)\<rparr>"
  show ?thesis
  proof (cases "?es = []")
    case True
    then show ?thesis
      using s(1) l(1) t file_repD(5) [OF t(2)]
      by (simp add: wal_truncate_def set_file_def wal_rep_def kFileHeaderSize_def)
  next
    case False
    obtain s4 where s4: "seek_set kFileHeaderSize ?f3 = (16, ?f3\<lparr>f_sched := s4, f_pos := 16\<rparr>)"
      "file_rep (?f3\<lparr>f_sched := s4, f_pos := 16\<rparr>) []"
      by (rule seek16_rep [OF t(2)])
    let ?f4 = "?f3\<lparr>f_sched := s4, f_pos := 16\<rparr>"
    have "\<forall>e \<in> set ?es. entry_ok e" using file_repD(2) [OF f] by simp
    then obtain w' where w': "write_entries ?es (set_file ?f4 w) = (Ok (), w')" "file_rep (w_file w') ?es"
      "w_next_seq w' = w_next_seq w" "w_cfg w' = w_cfg w"
      using write_entries_file [of "set_file ?f4 w" "[]" ?es] s4(2) by (auto simp: set_file_def)
    have "wal_truncate k w = (Ok (), w'\<lparr>w_entry_count := of_nat (length ?es),
        w_size_bytes := of_nat (16 + length (enc_log ?es))\<rparr>)"
      using s(1) l(1) t(1) s4(1) w'(1) False by (simp add: wal_truncate_def)
    with w' file_repD(5) [OF w'(2)] show ?thesis by (simp add: wal_rep_def)
  qed
qed

text \<open>
  C5. \<open>Wal::truncate\<close> keeps exactly the entries whose sequence number is at least the
  argument, in order, and does not reset the sequence counter; the size and the count it
  stores are those of the shortened file.
\<close>

theorem wal_truncate_keeps:
  assumes "wal_rep w es"
  shows "\<exists>w'. wal_truncate k w = (Ok (), w') \<and> wal_rep w' (filter (\<lambda>e. k \<le> we_seq e) es)
    \<and> w_next_seq w' = w_next_seq w \<and> w_cfg w' = w_cfg w"
  by (rule wal_truncate_rep [OF assms])

lemma wal_truncate_all_empties:
  assumes "wal_rep w es"
  shows "\<exists>w'. wal_truncate_all w = (Ok (), w') \<and> wal_rep w' [] \<and> w_next_seq w' = w_next_seq w \<and> w_cfg w' = w_cfg w"
proof -
  have f: "file_rep (w_file w) es" using assms by (simp add: wal_rep_def)
  obtain s where t: "ftruncate_wrapped kFileHeaderSize (w_file w)
      = (True, (w_file w)\<lparr>f_sched := s, f_content := take 16 (f_content (w_file w))\<rparr>)"
    "file_rep ((w_file w)\<lparr>f_sched := s, f_content := take 16 (f_content (w_file w))\<rparr>) []"
    by (rule ftruncate_rep [OF f])
  obtain s2 where s2: "seek_set kFileHeaderSize ((w_file w)\<lparr>f_sched := s, f_content := take 16 (f_content (w_file w))\<rparr>)
      = (16, (w_file w)\<lparr>f_sched := s, f_content := take 16 (f_content (w_file w)), f_sched := s2, f_pos := 16\<rparr>)"
    "file_rep ((w_file w)\<lparr>f_sched := s, f_content := take 16 (f_content (w_file w)), f_sched := s2, f_pos := 16\<rparr>) []"
    by (rule seek16_rep [OF t(2)])
  show ?thesis using t(1) s2 file_repD(5) [OF s2(2)]
    by (simp add: wal_truncate_all_def set_file_def wal_rep_def kFileHeaderSize_def)
qed

lemma wal_fsync_keeps:
  assumes "wal_rep w es"
  shows "\<exists>w'. wal_fsync w = (Ok (), w') \<and> wal_rep w' es \<and> w_next_seq w' = w_next_seq w \<and> w_cfg w' = w_cfg w"
proof -
  have f: "file_rep (w_file w) es" using assms by (simp add: wal_rep_def)
  obtain r s where "fsync_sys (w_file w) = (r, (w_file w)\<lparr>f_sched := s\<rparr>)" "r \<noteq> Fail" "benign s"
    by (rule fsync_benign [OF file_repD(1) [OF f]])
  with assms show ?thesis
    by (simp add: wal_fsync_def set_file_def wal_rep_def file_rep_upd)
qed

section \<open>Opening\<close>

definition env_ok :: "fs_env \<Rightarrow> bool" where
  "env_ok env = (\<not> (fe_has_parent env \<and> fe_mkdir_error env \<and> \<not> fe_parent_exists env)
     \<and> benign (fe_open_sched env) \<and> benign (fe_sched env))"

lemma open_benign: "benign xs \<Longrightarrow> fst (open_wal_file xs)"
  by (induction xs rule: open_wal_file.induct) simp_all

lemma wal_create_fresh:
  assumes "env_ok env" "fe_file env = None"
  obtains w where "wal_create cfg env = Ok w" "wal_rep w []" "w_next_seq w = 1" "w_cfg w = cfg"
proof -
  let ?f = "\<lparr>f_content = [], f_pos = 0, f_sched = fe_sched env, f_append_only = fe_append_only env\<rparr>"
  have b: "benign (f_sched ?f)" using assms(1) by (simp add: env_ok_def)
  obtain s where s: "write_at file_header 0 ?f =
      (Some (length file_header), ?f\<lparr>f_content := f_content ?f @ file_header, f_sched := s\<rparr>)" "benign s"
    by (rule write_at_benign [OF b, of 0 file_header]) simp_all
  have len: "length file_header = 16" by (simp add: file_header_def)
  have "take 16 file_header = file_header" by (simp add: len)
  with s(2) len have rep: "file_rep (?f\<lparr>f_content := file_header, f_sched := s\<rparr>) []"
    by (simp add: file_rep_def header_ok_file_header)
  let ?w = "(wal_ctor cfg (?f\<lparr>f_content := file_header, f_sched := s\<rparr>))
    \<lparr>w_size_bytes := of_nat kFileHeaderSize, w_next_seq := 1\<rparr>"
  have "wal_create cfg env = Ok ?w"
    using assms open_benign s(1) len
    by (auto simp: wal_create_def env_ok_def write_file_header_def wal_ctor_def set_file_def kFileHeaderSize_def)
  moreover have "wal_rep ?w []"
    using rep len by (simp add: wal_rep_def wal_ctor_def kFileHeaderSize_def)
  ultimately show ?thesis by (rule that) (simp_all add: wal_ctor_def)
qed

lemma scan_loop_written:
  assumes "benign (f_sched f)" "\<forall>e \<in> set es. entry_ok e"
    and "f_content f = pre @ enc_log es" "f_pos f = length pre"
  shows "\<exists>s p. scan_loop f m n = ((fold max (map we_seq es) m, n + of_nat (length es)),
      f\<lparr>f_sched := s, f_pos := p\<rparr>) \<and> benign s"
  using assms
proof (induction es arbitrary: f pre m n)
  case Nil
  obtain s1 where s1: "lseek_cur f = (int (length pre), f\<lparr>f_sched := s1\<rparr>)" "benign s1"
    using lseek_cur_benign [OF Nil(1)] Nil(4) by metis
  obtain s2 where s2: "fstat_size (f\<lparr>f_sched := s1\<rparr>) = (Some (length pre), f\<lparr>f_sched := s2\<rparr>)" "benign s2"
    using fstat_benign [of "f\<lparr>f_sched := s1\<rparr>"] s1 Nil(3) by auto
  have "f\<lparr>f_sched := s2\<rparr> = f\<lparr>f_sched := s2, f_pos := f_pos f\<rparr>" by (cases f) simp
  with s1 s2 show ?case
    by (intro exI [of _ s2] exI [of _ "f_pos f"]) (simp add: scan_loop.simps [of f])
next
  case (Cons e es)
  obtain s1 where s1: "lseek_cur f = (int (length pre), f\<lparr>f_sched := s1\<rparr>)" "benign s1"
    using lseek_cur_benign [OF Cons.prems(1)] Cons.prems(4) by metis
  let ?n = "length pre + length (enc_entry e) + length (enc_log es)"
  obtain s2 where s2: "fstat_size (f\<lparr>f_sched := s1\<rparr>) = (Some ?n, f\<lparr>f_sched := s2\<rparr>)" "benign s2"
    using fstat_benign [of "f\<lparr>f_sched := s1\<rparr>"] s1 Cons.prems(3) by (auto simp: add.assoc)
  have lt: "\<not> int ?n \<le> int (length pre)" using enc_entry_ne [of e] by (cases "enc_entry e") auto
  let ?f2 = "f\<lparr>f_sched := s2\<rparr>" and ?pre = "pre @ enc_entry e"
  have "slice (length pre) 40 (f_content ?f2) = entry_header e"
    using Cons.prems(3) by (simp add: slice_def enc_entry_def)
  then obtain s3 where s3: "read_at 40 (int (length pre)) ?f2 = (Some (entry_header e), ?f2\<lparr>f_sched := s3\<rparr>)"
    "benign s3"
    using read_at_benign [of ?f2 40 "length pre"] s2 by auto
  let ?f3 = "?f2\<lparr>f_sched := s3\<rparr>"
  obtain r4 s4 where s4: "seek_set (length ?pre) ?f3 = (r4, ?f3\<lparr>f_sched := s4, f_pos := length ?pre\<rparr>)"
    "benign s4" "\<not> r4 < 0"
    by (rule seek_set_benign [of ?f3 "length ?pre"]) (use s3 that in auto)
  let ?f4 = "?f3\<lparr>f_sched := s4, f_pos := length ?pre\<rparr>"
  have len: "length ?pre = length pre + 40 + (unat (act_len e) + unat (pay_len e))"
    by (simp add: length_enc_entry)
  have sch: "we_schema e = kSchemaVersion" using Cons.prems(2) by (simp add: entry_ok_def)
  have step: "scan_loop f m n = scan_loop ?f4 (max m (we_seq e)) (n + 1)"
    using s1(1) s2(1) lt s3(1) s4(1,3) sch len
    by (simp add: scan_loop.simps [of f] header_fields kEntryHeaderSize_def add.assoc)
  have "\<exists>s p. scan_loop ?f4 (max m (we_seq e)) (n + 1) =
      ((fold max (map we_seq es) (max m (we_seq e)), n + 1 + of_nat (length es)),
       ?f4\<lparr>f_sched := s, f_pos := p\<rparr>) \<and> benign s"
    by (rule Cons.IH [of _ ?pre]) (use Cons.prems s4 in auto)
  then show ?case by (simp add: step max.commute ac_simps)
qed

text \<open>The sequence number after a reopen; on wrap-around it starts again at 1.\<close>

definition seq_after :: "WalEntry list \<Rightarrow> u64" where
  "seq_after es = (let m = fold max (map we_seq es) 0 in if m + 1 = 0 then 1 else m + 1)"

text \<open>
  C4. Opening a file that holds the entries \<open>es\<close> (for instance after the process died between
  two operations) gives a log that holds \<open>es\<close>, whose size and count fields are right and
  whose next sequence number is one more than the largest in the file.
\<close>

theorem wal_reopen_restores:
  assumes "env_ok env" "fe_file env = Some (f_content f)" "file_rep f es"
  shows "\<exists>w. wal_create cfg env = Ok w \<and> wal_rep w es \<and> w_next_seq w = seq_after es \<and> w_cfg w = cfg"
proof -
  let ?c = "f_content f"
  let ?f = "\<lparr>f_content = ?c, f_pos = 0, f_sched = fe_sched env, f_append_only = fe_append_only env\<rparr>"
  have b: "benign (f_sched ?f)" using assms(1) by (simp add: env_ok_def)
  have rep: "file_rep (?f\<lparr>f_sched := s, f_pos := p\<rparr>) es" if "benign s" for s p
    using assms(3) that by (simp add: file_rep_def)
  note c = file_repD(3-5) [OF assms(3)]
  obtain s1 where s1: "read_at 16 0 ?f = (Some (take 16 ?c), ?f\<lparr>f_sched := s1\<rparr>)" "benign s1"
    using read_at_benign [OF b, of 16 0] by (auto simp: slice_def)
  let ?f1 = "?f\<lparr>f_sched := s1\<rparr>"
  obtain s2 where s2: "fstat_size ?f1 = (Some (length ?c), ?f1\<lparr>f_sched := s2\<rparr>)" "benign s2"
    by (rule fstat_benign [of ?f1]) (use s1 that in auto)
  let ?f2 = "?f1\<lparr>f_sched := s2\<rparr>"
  obtain s3 where s3: "seek_set 16 ?f2 = (16, ?f2\<lparr>f_sched := s3, f_pos := 16\<rparr>)" "benign s3"
    by (rule seek_set_benign [of ?f2 16]) (use s2 that in auto)
  let ?f3 = "?f2\<lparr>f_sched := s3, f_pos := 16\<rparr>"
  obtain s4 p4 where s4: "scan_loop ?f3 0 0 = ((fold max (map we_seq es) 0, of_nat (length es)),
      ?f3\<lparr>f_sched := s4, f_pos := p4\<rparr>)" "benign s4"
    using scan_loop_written [of ?f3 es "take 16 ?c" 0 0] s3 c file_repD(2) [OF assms(3)] by auto
  let ?f4 = "?f3\<lparr>f_sched := s4, f_pos := p4\<rparr>"
  obtain r5 s5 where s5: "seek_set 16 ?f4 = (r5, ?f4\<lparr>f_sched := s5, f_pos := 16\<rparr>)" "benign s5"
    by (rule seek_set_benign [of ?f4 16]) (use s4 that in auto)
  have h: "header_ok (take 16 ?c)" using assms(3) by (simp add: file_rep_def)
  let ?w = "(wal_ctor cfg (?f\<lparr>f_sched := s5, f_pos := 16\<rparr>))\<lparr>w_size_bytes := of_nat (length ?c),
      w_entry_count := of_nat (length es), w_next_seq := seq_after es\<rparr>"
  have "read_file_header (wal_ctor cfg ?f) = (Ok (seq_after es), ?w)"
    using s1(1) s2(1) s3(1) s4(1) s5(1) h
    by (simp add: read_file_header_def wal_ctor_def set_file_def kFileHeaderSize_def
        scan_entries_for_max_seq_def header_ok_def seq_after_def Let_def)
  then have "wal_create cfg env = Ok ?w"
    using assms(1,2) open_benign by (auto simp: wal_create_def env_ok_def)
  moreover have "wal_rep ?w es"
    using rep [OF s5(2), of 16] by (simp add: wal_rep_def wal_ctor_def)
  ultimately show ?thesis by (auto simp: wal_ctor_def)
qed

section \<open>Runs\<close>

text \<open>
  A run of public operations on an open log, next to the list it stands for and the number
  of entries appended so far. A reopen closes the file and calls \<open>create\<close> on what it holds.
\<close>

datatype log_op =
    L_append u64 WalEntryType bytes bytes
  | L_replay
  | L_fsync
  | L_truncate u64
  | L_truncate_all

type_synonym log_state = "wal \<times> WalEntry list \<times> nat"

fun log_step :: "log_op \<Rightarrow> log_state \<Rightarrow> log_state" where
  "log_step (L_append ts type action payload) (w, es, n) =
     (case wal_append ts type action payload w of
        (Ok q, w') \<Rightarrow> (w', es @ [new_entry q ts type action payload], Suc n)
      | (_, w') \<Rightarrow> (w', es, n))"
| "log_step L_replay (w, es, n) = (snd (wal_replay w), es, n)"
| "log_step L_fsync (w, es, n) = (snd (wal_fsync w), es, n)"
| "log_step (L_truncate k) (w, es, n) = (snd (wal_truncate k w), filter (\<lambda>e. k \<le> we_seq e) es, n)"
| "log_step L_truncate_all (w, es, n) = (snd (wal_truncate_all w), [], n)"

text \<open>The \<open>n\<close>-th accepted entry has the sequence number \<open>n\<close>, modulo the word size.\<close>

definition seqs_ok :: "WalEntry list \<Rightarrow> nat \<Rightarrow> bool" where
  "seqs_ok es n = (\<exists>ks. map we_seq es = map of_nat ks \<and> sorted_wrt (<) ks \<and> (\<forall>k \<in> set ks. k \<le> n))"

definition log_ok :: "log_state \<Rightarrow> bool" where
  "log_ok = (\<lambda>(w, es, n). wal_rep w es \<and> w_next_seq w = of_nat (Suc n) \<and> seqs_ok es n)"

lemma seqs_ok_Nil: "seqs_ok [] n"
  by (simp add: seqs_ok_def)

lemma seqs_ok_snoc:
  assumes "seqs_ok es n" "we_seq e = of_nat (Suc n)"
  shows "seqs_ok (es @ [e]) (Suc n)"
proof -
  obtain ks where "map we_seq es = map of_nat ks" "sorted_wrt (<) ks" "\<forall>k \<in> set ks. k \<le> n"
    using assms(1) by (auto simp: seqs_ok_def)
  then show ?thesis unfolding seqs_ok_def
    by (intro exI [of _ "ks @ [Suc n]"]) (use assms(2) in \<open>auto simp: sorted_wrt_append\<close>)
qed

lemma seqs_ok_filter:
  assumes "seqs_ok es n"
  shows "seqs_ok (filter (\<lambda>e. P (we_seq e)) es) n"
proof -
  obtain ks where ks: "map we_seq es = map of_nat ks" "sorted_wrt (<) ks" "\<forall>k \<in> set ks. k \<le> n"
    using assms by (auto simp: seqs_ok_def)
  have "map we_seq (filter (\<lambda>e. P (we_seq e)) es) = filter P (map we_seq es)"
    by (simp add: filter_map comp_def)
  also have "\<dots> = map of_nat (filter (\<lambda>k. P (of_nat k)) ks)"
    unfolding ks(1) by (simp add: filter_map comp_def)
  finally show ?thesis unfolding seqs_ok_def
    using ks(2,3) by (intro exI [of _ "filter (\<lambda>k. P (of_nat k)) ks"]) (auto simp: sorted_wrt_filter)
qed

lemma new_entry_seq [simp]: "we_seq (new_entry q ts type action payload) = q"
  by (simp add: new_entry_def)

lemma log_step_ok: "log_ok s \<Longrightarrow> log_ok (log_step op s)"
proof (cases s)
  case (fields w es n)
  assume "log_ok s"
  with fields have rep: "wal_rep w es" and nx: "w_next_seq w = of_nat (Suc n)" and q: "seqs_ok es n"
    by (simp_all add: log_ok_def)
  show ?thesis
  proof (cases op)
    case (L_append ts type action payload)
    show ?thesis
    proof (cases "wal_full action payload w")
      case True
      with rep nx q fields L_append show ?thesis
        by (simp add: wal_append_full log_ok_def)
    next
      case False
      obtain w' where "wal_append ts type action payload w = (Ok (w_next_seq w), w')"
        "wal_rep w' (es @ [new_entry (w_next_seq w) ts type action payload])"
        "w_next_seq w' = w_next_seq w + 1"
        by (rule wal_append_room [OF rep False])
      with nx q fields L_append show ?thesis
        by (simp add: log_ok_def seqs_ok_snoc add.commute)
    qed
  next
    case L_replay
    with wal_replay_keeps [OF rep] fields nx q show ?thesis
      by (auto simp: log_ok_def)
  next
    case L_fsync
    with wal_fsync_keeps [OF rep] fields nx q show ?thesis by (auto simp: log_ok_def)
  next
    case (L_truncate k)
    with wal_truncate_rep [OF rep, of k] fields nx seqs_ok_filter [OF q] show ?thesis
      by (auto simp: log_ok_def)
  next
    case L_truncate_all
    with wal_truncate_all_empties [OF rep] fields nx show ?thesis
      by (auto simp: log_ok_def seqs_ok_Nil)
  qed
qed

interpretation wal_sys: guarded_system log_ok log_step
  by unfold_locales (rule log_step_ok)

lemma seqs_ok_sorted:
  assumes "seqs_ok es n" "n < 2 ^ 64"
  shows "sorted_wrt (<) (map we_seq es)"
proof -
  obtain ks where ks: "map we_seq es = map of_nat ks" "sorted_wrt (<) ks" "\<forall>k \<in> set ks. k \<le> n"
    using assms(1) by (auto simp: seqs_ok_def)
  have "sorted_wrt (\<lambda>i j. (of_nat i :: u64) < of_nat j) ks"
  proof (rule sorted_wrt_mono_rel [OF _ ks(2)])
    fix i j assume "i \<in> set ks" "j \<in> set ks" "i < j"
    with ks(3) assms(2) have "i < 2 ^ 64" "j < 2 ^ 64" by force+
    with \<open>i < j\<close> show "(of_nat i :: u64) < of_nat j"
      by (simp add: word_less_nat_alt unat_of_nat)
  qed
  then show ?thesis unfolding ks(1) by (simp add: sorted_wrt_map)
qed

lemma log_count: "snd (snd (fold log_step ops (w, es, n))) \<le> n + length ops"
proof (induction ops arbitrary: w es n)
  case (Cons op ops)
  obtain w' es' n' where s: "log_step op (w, es, n) = (w', es', n')" by (metis prod_cases3)
  then have "n' \<le> Suc n"
    by (cases op) (auto split: prod.splits Result.splits)
  with Cons [of w' es' n'] s show ?case by simp
qed simp

text \<open>
  C1. Durability over whole histories: after any sequence of appends, replays, syncs and
  truncations on a fresh log, with any pattern of interruptions and short transfers,
  \<open>replay\<close> answers exactly the entries that were accepted and not truncated, and (before
  the 64-bit counter wraps) their sequence numbers strictly increase.
\<close>

theorem wal_history:
  assumes "env_ok env" "fe_file env = None" "wal_create cfg env = Ok w0"
    and "fold log_step ops (w0, [], 0) = (w, es, n)"
  shows "fst (wal_replay w) = Ok es \<and>
    (length ops < 2 ^ 64 \<longrightarrow> sorted_wrt (<) (map we_seq es) \<and> distinct (map we_seq es))"
proof -
  have "log_ok (w0, [], 0)"
    by (rule wal_create_fresh [OF assms(1,2), of cfg]) (use assms(3) in \<open>auto simp: log_ok_def seqs_ok_Nil\<close>)
  then have ok: "wal_rep w es" "seqs_ok es n"
    using wal_sys.fold_ok [of "(w0, [], 0)" ops] assms(4) by (simp_all add: log_ok_def)
  have "n \<le> length ops" using log_count [of ops w0 "[]" 0] assms(4) by simp
  then have "sorted_wrt (<) (map we_seq es)" if "length ops < 2 ^ 64"
    using seqs_ok_sorted [OF ok(2)] that by simp
  moreover have "fst (wal_replay w) = Ok es" using wal_replay_keeps [OF ok(1)] by auto
  ultimately show ?thesis using strict_sorted_iff by blast
qed

section \<open>Damaged files\<close>

text \<open>Each step of the hash is injective: the multiplier is odd and so has an inverse.\<close>

lemma fnv_mult_inj:
  fixes x y :: u32
  assumes "x * 0x01000193 = y * 0x01000193"
  shows "x = y"
proof -
  have "x * 0x01000193 * 0x359C449B = y * 0x01000193 * 0x359C449B" using assms by simp
  moreover have "z * 0x01000193 * 0x359C449B = z" for z :: u32
  proof -
    have "(0x01000193 * 0x359C449B :: u32) = 1" by simp
    then show ?thesis by (simp only: mult.assoc mult_1_right)
  qed
  ultimately show ?thesis by simp
qed

lemma xor_cancel_right:
  fixes a b c :: "'a::len word"
  assumes "a XOR c = b XOR c"
  shows "a = b"
proof -
  have "(a XOR c) XOR c = (b XOR c) XOR c" using assms by simp
  then show ?thesis by (simp add: xor.assoc)
qed

lemma xor_iffs:
  fixes a b c :: "'a::len word"
  shows "a XOR c = b XOR c \<longleftrightarrow> a = b" "c XOR a = c XOR b \<longleftrightarrow> a = b"
  by (auto dest: xor_cancel_right simp: xor.commute [of c])

lemma fnv1a_step_inj:
  "fnv1a_step h b = fnv1a_step h' b \<Longrightarrow> h = h'"
  "fnv1a_step h b = fnv1a_step h b' \<Longrightarrow> b = b'"
proof -
  show "h = h'" if "fnv1a_step h b = fnv1a_step h' b"
    using xor_cancel_right [OF fnv_mult_inj] that by (simp add: fnv1a_step_def)
  assume "fnv1a_step h b = fnv1a_step h b'"
  then have "h XOR ucast b = h XOR ucast b'" unfolding fnv1a_step_def by (rule fnv_mult_inj)
  then have "(ucast b :: u32) = ucast b'" by (metis xor_cancel_right xor.commute)
  then have "unat (ucast b :: u32) = unat (ucast b' :: u32)" by simp
  moreover have "unat c < 2 ^ 32" for c :: byte
    using unsigned_less [of c, where ?'a = nat] by simp
  ultimately show "b = b'" by (simp add: unsigned_ucast_eq take_bit_nat_eq_self word_unat_eq_iff)
qed

lemma foldl_fnv_inj: "foldl fnv1a_step h bs = foldl fnv1a_step h' bs \<Longrightarrow> h = h'"
  by (induction bs arbitrary: h h') (auto dest: fnv1a_step_inj(1))

lemma fnv1a_one_byte:
  assumes "i < length bs" "b \<noteq> bs ! i"
  shows "fnv1a (bs[i := b]) \<noteq> fnv1a bs"
proof
  assume eq: "fnv1a (bs[i := b]) = fnv1a bs"
  let ?h = "foldl fnv1a_step 0x811C9DC5 (take i bs)"
  let ?t = "drop (Suc i) bs"
  have "foldl fnv1a_step (fnv1a_step ?h b) ?t = fnv1a (bs[i := b])"
    unfolding upd_conv_take_nth_drop [OF assms(1)] fnv1a_def by simp
  also have "\<dots> = fnv1a (take i bs @ bs ! i # ?t)"
    using eq unfolding id_take_nth_drop [OF assms(1), symmetric] .
  also have "\<dots> = foldl fnv1a_step (fnv1a_step ?h (bs ! i)) ?t" unfolding fnv1a_def by simp
  finally have "foldl fnv1a_step (fnv1a_step ?h b) ?t = foldl fnv1a_step (fnv1a_step ?h (bs ! i)) ?t" .
  from fnv1a_step_inj(2) [OF foldl_fnv_inj [OF this]] assms(2) show False by simp
qed

lemma mix_one_byte:
  "i < length hd0 \<Longrightarrow> b \<noteq> hd0 ! i \<Longrightarrow> mix_checksum (hd0[i := b]) a p \<noteq> mix_checksum hd0 a p"
  "i < length a \<Longrightarrow> b \<noteq> a ! i \<Longrightarrow> mix_checksum hd0 (a[i := b]) p \<noteq> mix_checksum hd0 a p"
  "i < length p \<Longrightarrow> b \<noteq> p ! i \<Longrightarrow> mix_checksum hd0 a (p[i := b]) \<noteq> mix_checksum hd0 a p"
proof -
  show "mix_checksum (hd0[i := b]) a p \<noteq> mix_checksum hd0 a p" if "i < length hd0" "b \<noteq> hd0 ! i"
    using fnv1a_one_byte [OF that] by (simp add: mix_checksum_def Let_def xor_iffs)
  show "mix_checksum hd0 (a[i := b]) p \<noteq> mix_checksum hd0 a p" if "i < length a" "b \<noteq> a ! i"
    using fnv1a_one_byte [OF that] that by (auto simp: mix_checksum_def Let_def xor_iffs)
  show "mix_checksum hd0 a (p[i := b]) \<noteq> mix_checksum hd0 a p" if "i < length p" "b \<noteq> p ! i"
    using fnv1a_one_byte [OF that] that by (auto simp: mix_checksum_def Let_def xor_iffs)
qed

lemma slice_update_other:
  "i < j \<or> j + n \<le> i \<Longrightarrow> slice j n (xs[i := b]) = slice j n xs"
  by (rule nth_equalityI) (auto simp: slice_def nth_list_update)

lemma slice_update_in:
  "j \<le> i \<Longrightarrow> slice j n (xs[i := b]) = (slice j n xs)[i - j := b]"
  by (simp add: slice_def drop_update_swap take_update_swap)

lemma get_le4_update:
  assumes "i < length xs" "b \<noteq> xs ! i" "length xs = 4"
  shows "(get_le (xs[i := b]) :: u32) \<noteq> get_le xs"
proof
  assume "(get_le (xs[i := b]) :: u32) = get_le xs"
  then have "xs[i := b] = xs"
    using put_get_le [where ?'a = 32, of xs] put_get_le [where ?'a = 32, of "xs[i := b]"] assms(3) by simp
  with assms(1,2) show False by (metis nth_list_update_eq)
qed

lemma read_entry_bad_version:
  assumes b: "benign (f_sched f)" and hdr: "length hdr = 40"
    and c: "f_content f = pre @ hdr @ post" "f_pos f = length pre" "16 \<le> length pre"
    and m: "get_le (slice 0 4 hdr) \<noteq> kFileMagic \<or> get_le (slice 4 4 hdr) \<noteq> kSchemaVersion"
  shows "fst (read_entry f) = Err EC_SERIALIZE_VERSION_MISMATCH"
proof -
  let ?p = "length pre"
  obtain s1 where s1: "lseek_cur f = (int ?p, f\<lparr>f_sched := s1\<rparr>)" "benign s1"
    by (rule lseek_cur_benign [OF b, unfolded c(2)])
  obtain s2 where s2: "seek_set ?p (f\<lparr>f_sched := s1\<rparr>) = (int ?p, f\<lparr>f_sched := s2, f_pos := ?p\<rparr>)" "benign s2"
    using seek_set_benign [of "f\<lparr>f_sched := s1\<rparr>" ?p] s1 by auto
  let ?f2 = "f\<lparr>f_sched := s2, f_pos := ?p\<rparr>"
  have "slice ?p 40 (f_content ?f2) = hdr" using hdr by (simp add: c slice_def)
  then obtain s3 where "read_at kEntryHeaderSize (int ?p) ?f2 = (Some hdr, ?f2\<lparr>f_sched := s3\<rparr>)"
    using read_at_benign [of ?f2 kEntryHeaderSize ?p] s2 by (auto simp: kEntryHeaderSize_def)
  then show ?thesis
    using c(3) hdr m s1(1) s2(1)
    by (auto simp: read_entry_def Let_def kFileHeaderSize_def kEntryHeaderSize_def)
qed

text \<open>The bytes of an encoding whose change cannot make the reader look elsewhere: all but the
two length fields.\<close>

definition covered :: "nat \<Rightarrow> bool" where
  "covered i = (\<not> (25 \<le> i \<and> i < 33))"

lemma read_entry_damaged:
  assumes b: "benign (f_sched f)" and ok: "entry_ok e"
    and i: "i < length (enc_entry e)" "covered i" "x \<noteq> enc_entry e ! i"
    and c: "f_content f = pre @ (enc_entry e)[i := x] @ post" "f_pos f = length pre" "16 \<le> length pre"
  shows "fst (read_entry f) = Err (if i < 8 then EC_SERIALIZE_VERSION_MISMATCH else EC_SERIALIZE_DECODE_FAILED)"
proof -
  let ?h = "entry_header e" and ?a = "we_action e" and ?p = "we_payload e"
  note len = entry_ok_lens [OF ok]
  have enc: "enc_entry e = ?h @ ?a @ ?p" by (simp add: enc_entry_def len)
  have sch: "we_schema e = kSchemaVersion" using ok by (simp add: entry_ok_def)
  have bad: "fst (read_entry f) = Err EC_SERIALIZE_DECODE_FAILED"
    if "f_content f = pre @ h @ a @ p @ post" "length h = 40" "get_le (slice 0 4 h) = kFileMagic"
      "get_le (slice 4 4 h) = kSchemaVersion" "header_lens h = (length a, length p)"
      "mix_checksum (take 36 h) a p \<noteq> get_le (slice 36 4 h)" for h a p
    using read_entry_raw [OF b that(2,1) c(2,3) that(3,4,5)] that(6) by metis
  consider "i < 8" | "8 \<le> i" "i < 36" | "36 \<le> i" "i < 40"
    | "40 \<le> i" "i < 40 + length ?a" | "40 + length ?a \<le> i" by linarith
  then show ?thesis
  proof cases
    case 1
    have x: "x \<noteq> ?h ! i" using i(3) 1 by (simp add: enc nth_append)
    have "get_le (slice 0 4 (?h[i := x])) \<noteq> kFileMagic \<or> get_le (slice 4 4 (?h[i := x])) \<noteq> kSchemaVersion"
    proof (cases "i < 4")
      case True
      have "(get_le ((slice 0 4 ?h)[i := x]) :: u32) \<noteq> get_le (slice 0 4 ?h)"
        by (rule get_le4_update) (use True x in \<open>simp_all add: nth_slice\<close>)
      with True show ?thesis by (simp add: slice_update_in header_fields)
    next
      case False
      have "(get_le ((slice 4 4 ?h)[i - 4 := x]) :: u32) \<noteq> get_le (slice 4 4 ?h)"
        by (rule get_le4_update) (use False 1 x in \<open>simp_all add: nth_slice\<close>)
      with False 1 sch show ?thesis by (simp add: slice_update_in header_fields)
    qed
    then have "fst (read_entry f) = Err EC_SERIALIZE_VERSION_MISMATCH"
      by (intro read_entry_bad_version [OF b _ _ c(2,3), of "?h[i := x]" "?a @ ?p @ post"])
        (use 1 in \<open>simp_all add: c enc list_update_append\<close>)
    with 1 show ?thesis by simp
  next
    case 2
    have x: "x \<noteq> ?h ! i" using i(3) 2 by (simp add: enc nth_append)
    have "take 36 (?h[i := x]) = (take 36 ?h)[i := x]" by (rule take_update_swap)
    moreover have "mix_checksum ((take 36 ?h)[i := x]) ?a ?p \<noteq> mix_checksum (take 36 ?h) ?a ?p"
      by (rule mix_one_byte(1)) (use 2 x in simp_all)
    ultimately have "fst (read_entry f) = Err EC_SERIALIZE_DECODE_FAILED"
      by (intro bad [of "?h[i := x]" ?a ?p])
        (use 2 i(2) sch in \<open>auto simp: c enc list_update_append slice_update_other header_fields
          header_lens_def len covered_def\<close>)
    with 2 show ?thesis by simp
  next
    case 3
    have x: "x \<noteq> ?h ! i" using i(3) 3 by (simp add: enc nth_append)
    have "(get_le ((slice 36 4 ?h)[i - 36 := x]) :: u32) \<noteq> get_le (slice 36 4 ?h)"
      by (rule get_le4_update) (use 3 x in \<open>simp_all add: nth_slice\<close>)
    moreover have "take 36 (?h[i := x]) = take 36 ?h" using 3 by simp
    ultimately have "fst (read_entry f) = Err EC_SERIALIZE_DECODE_FAILED"
      by (intro bad [of "?h[i := x]" ?a ?p])
        (use 3 i(2) sch in \<open>auto simp: c enc list_update_append slice_update_other slice_update_in
          header_fields header_lens_def len\<close>)
    with 3 show ?thesis by simp
  next
    case 4
    have "i - 40 < length ?a" using 4 by linarith
    then have x: "x \<noteq> ?a ! (i - 40)" using i(3) 4 by (simp add: enc nth_append)
    have "mix_checksum (take 36 ?h) (?a[i - 40 := x]) ?p \<noteq> mix_checksum (take 36 ?h) ?a ?p"
      by (rule mix_one_byte(2)) (use 4 x in auto)
    then have "fst (read_entry f) = Err EC_SERIALIZE_DECODE_FAILED"
      by (intro bad [of ?h "?a[i - 40 := x]" ?p])
        (use 4 sch in \<open>auto simp: c enc list_update_append header_fields header_lens_def len\<close>)
    with 4 show ?thesis by simp
  next
    case 5
    have "\<not> i - 40 < length ?a" "\<not> i < 40" using 5 by linarith+
    then have x: "x \<noteq> ?p ! (i - 40 - length ?a)" using i(3) by (simp add: enc nth_append)
    have "i - 40 - length ?a < length ?p" using i(1) 5 by (simp add: enc)
    with x have "mix_checksum (take 36 ?h) ?a (?p[i - 40 - length ?a := x]) \<noteq> mix_checksum (take 36 ?h) ?a ?p"
      by (intro mix_one_byte(3)) auto
    then have "fst (read_entry f) = Err EC_SERIALIZE_DECODE_FAILED"
      by (intro bad [of ?h ?a "?p[i - 40 - length ?a := x]"])
        (use 5 sch in \<open>auto simp: c enc list_update_append header_fields header_lens_def len\<close>)
    with 5 show ?thesis by simp
  qed
qed

text \<open>A replay gets through the entries before the damage and answers the error at it.\<close>

lemma wal_loop_stops:
  assumes "benign (f_sched f)" "\<forall>e \<in> set es. entry_ok e" "tail \<noteq> []"
    and "f_content f = pre @ enc_log es @ tail" "f_pos f = length pre" "16 \<le> length pre"
    and bad: "\<And>g. benign (f_sched g) \<Longrightarrow> f_content g = f_content f \<Longrightarrow>
        f_pos g = length (pre @ enc_log es) \<Longrightarrow> fst (read_entry g) = Err c"
  shows "fst (wal_loop (\<lambda>out e. (step out e, True)) f acc) = Err c"
  using assms
proof (induction es arbitrary: f pre acc)
  case Nil
  obtain s1 where s1: "lseek_cur f = (int (length pre), f\<lparr>f_sched := s1\<rparr>)" "benign s1"
    using lseek_cur_benign [OF Nil(1)] Nil(5) by metis
  obtain s2 where s2: "fstat_size (f\<lparr>f_sched := s1\<rparr>) = (Some (length pre + length tail), f\<lparr>f_sched := s2\<rparr>)" "benign s2"
    using fstat_benign [of "f\<lparr>f_sched := s1\<rparr>"] s1 Nil(4) by auto
  have "fst (read_entry (f\<lparr>f_sched := s2\<rparr>)) = Err c"
    by (rule Nil(7)) (use s2 Nil(5) in simp_all)
  then obtain f3 where "read_entry (f\<lparr>f_sched := s2\<rparr>) = (Err c, f3)"
    by (metis fst_conv surj_pair)
  with s1 s2 Nil(3) show ?case by (simp add: wal_loop.simps [of _ f])
next
  case (Cons e es)
  obtain s1 where s1: "lseek_cur f = (int (length pre), f\<lparr>f_sched := s1\<rparr>)" "benign s1"
    using lseek_cur_benign [OF Cons.prems(1)] Cons.prems(5) by metis
  let ?n = "length pre + length (enc_entry e) + length (enc_log es) + length tail"
  obtain s2 where s2: "fstat_size (f\<lparr>f_sched := s1\<rparr>) = (Some ?n, f\<lparr>f_sched := s2\<rparr>)" "benign s2"
    using fstat_benign [of "f\<lparr>f_sched := s1\<rparr>"] s1 Cons.prems(4) by (auto simp: add.assoc)
  have lt: "\<not> int ?n \<le> int (length pre)" using Cons.prems(3) by (cases tail) auto
  let ?f2 = "f\<lparr>f_sched := s2\<rparr>" and ?pre = "pre @ enc_entry e"
  obtain s3 where s3: "read_entry ?f2 = (Ok e, ?f2\<lparr>f_sched := s3, f_pos := length ?pre\<rparr>)" "benign s3"
    using read_entry_written [of ?f2 e pre "enc_log es @ tail"] s2 Cons.prems by auto
  let ?f3 = "?f2\<lparr>f_sched := s3, f_pos := length ?pre\<rparr>"
  have "fst (wal_loop (\<lambda>out e. (step out e, True)) ?f3 (step acc e)) = Err c"
    by (rule Cons.IH [of _ ?pre]) (use Cons.prems s3 in auto)
  with s1 s2 s3 lt show ?case by (simp add: wal_loop.simps [of _ f])
qed

lemma replay_stops:
  assumes "benign (f_sched f)" "\<forall>e \<in> set es. entry_ok e" "tail \<noteq> []"
    and "f_content f = h @ enc_log es @ tail" "length h = 16"
    and bad: "\<And>g. benign (f_sched g) \<Longrightarrow> f_content g = f_content f \<Longrightarrow>
        f_pos g = length (h @ enc_log es) \<Longrightarrow> fst (read_entry g) = Err c"
  shows "fst (wal_replay (set_file f w)) = Err c"
proof -
  obtain s where s: "seek_set kFileHeaderSize f = (int kFileHeaderSize, f\<lparr>f_sched := s, f_pos := kFileHeaderSize\<rparr>)"
    "benign s"
    by (rule seek_set_benign [OF assms(1)])
  let ?f1 = "f\<lparr>f_sched := s, f_pos := kFileHeaderSize\<rparr>"
  have "fst (wal_loop (\<lambda>out e. (out @ [e], True)) ?f1 []) = Err c"
    by (rule wal_loop_stops [of ?f1 es tail h]) (use s assms in \<open>auto simp: kFileHeaderSize_def\<close>)
  then obtain f2 where "wal_loop (\<lambda>out e. (out @ [e], True)) ?f1 [] = (Err c, f2)"
    by (metis fst_conv surj_pair)
  with s(1) show ?thesis by (simp add: wal_replay_def set_file_def)
qed

text \<open>
  C3. A replay never delivers a damaged entry: if one byte anywhere in an entry other than its
  two length fields is changed, wherever in the log the entry stands and whatever follows it,
  \<open>replay\<close> answers \<open>SERIALIZE_DECODE_FAILED\<close> (or \<open>SERIALIZE_VERSION_MISMATCH\<close> when
  the byte is one of the magic or the schema number).
\<close>

theorem wal_damage_detected:
  assumes "benign (f_sched f)" "\<forall>e \<in> set es. entry_ok e" "entry_ok e"
    and "i < length (enc_entry e)" "covered i" "x \<noteq> enc_entry e ! i" "length h = 16"
    and "f_content f = h @ enc_log es @ (enc_entry e)[i := x] @ post"
  shows "fst (wal_replay (set_file f w))
    = Err (if i < 8 then EC_SERIALIZE_VERSION_MISMATCH else EC_SERIALIZE_DECODE_FAILED)"
proof (rule replay_stops [OF assms(1,2) _ assms(8,7)])
  fix g :: pfile
  assume "benign (f_sched g)" "f_content g = f_content f" "f_pos g = length (h @ enc_log es)"
  then show "fst (read_entry g)
      = Err (if i < 8 then EC_SERIALIZE_VERSION_MISMATCH else EC_SERIALIZE_DECODE_FAILED)"
    by (intro read_entry_damaged [OF _ assms(3-6), of g "h @ enc_log es" post]) (use assms in auto)
qed simp

lemma read_body_any:
  assumes "benign (f_sched f)"
  shows "\<exists>s. read_body n (int j) f = (if length (slice j n (f_content f)) = n
      then Some (slice j n (f_content f)) else None, f\<lparr>f_sched := s\<rparr>) \<and> benign s"
proof (cases "n = 0")
  case True
  with assms show ?thesis by (intro exI [of _ "f_sched f"]) (simp add: read_body_def)
next
  case False
  obtain s where "read_at n (int j) f = (Some (slice j n (f_content f)), f\<lparr>f_sched := s\<rparr>)" "benign s"
    by (rule read_at_benign [OF assms])
  with False show ?thesis by (intro exI [of _ s]) (simp add: read_body_def)
qed

lemma read_entry_torn:
  assumes b: "benign (f_sched f)" and ok: "entry_ok e" and k: "k < length (enc_entry e)"
    and c: "f_content f = pre @ take k (enc_entry e)" "f_pos f = length pre" "16 \<le> length pre"
  shows "fst (read_entry f) = Err EC_PROTOCOL_TRUNCATED_BUFFER"
proof -
  let ?p = "length pre" and ?h = "entry_header e" and ?a = "we_action e" and ?q = "we_payload e"
  note len = entry_ok_lens [OF ok]
  have enc: "enc_entry e = ?h @ ?a @ ?q" by (simp add: enc_entry_def len)
  show ?thesis
  proof (cases "k < 40")
    case True
    obtain s1 where s1: "lseek_cur f = (int ?p, f\<lparr>f_sched := s1\<rparr>)" "benign s1"
      by (rule lseek_cur_benign [OF b, unfolded c(2)])
    obtain s2 where s2: "seek_set ?p (f\<lparr>f_sched := s1\<rparr>) = (int ?p, f\<lparr>f_sched := s2, f_pos := ?p\<rparr>)" "benign s2"
      using seek_set_benign [of "f\<lparr>f_sched := s1\<rparr>" ?p] s1 by auto
    let ?f2 = "f\<lparr>f_sched := s2, f_pos := ?p\<rparr>"
    have "slice ?p 40 (f_content ?f2) = take k ?h" using True by (simp add: c enc slice_def)
    then obtain s3 where "read_at kEntryHeaderSize (int ?p) ?f2 = (Some (take k ?h), ?f2\<lparr>f_sched := s3\<rparr>)"
      using read_at_benign [of ?f2 kEntryHeaderSize ?p] s2 by (auto simp: kEntryHeaderSize_def)
    with True c(3) s1(1) s2(1) show ?thesis
      by (simp add: read_entry_def kFileHeaderSize_def kEntryHeaderSize_def)
  next
    case False
    then have c': "f_content f = pre @ ?h @ take (k - 40) (?a @ ?q)" by (simp add: c enc)
    have m: "get_le (slice 0 4 ?h) = kFileMagic" "get_le (slice 4 4 ?h) = kSchemaVersion"
      using ok by (simp_all add: header_fields entry_ok_def)
    obtain s3 where s3: "benign s3" "read_entry f = (let f3 = f\<lparr>f_sched := s3\<rparr>; cur = int (length pre);
      alen = unat (get_le (slice 25 4 ?h) :: u32); plen = unat (get_le (slice 29 4 ?h) :: u32) in
      case read_body alen (cur + int kEntryHeaderSize) f3 of
         (None, f4) \<Rightarrow> (Err EC_PROTOCOL_TRUNCATED_BUFFER, f4)
       | (Some action, f4) \<Rightarrow>
         case read_body plen (cur + int kEntryHeaderSize + int alen) f4 of
           (None, f5) \<Rightarrow> (Err EC_PROTOCOL_TRUNCATED_BUFFER, f5)
         | (Some payload, f5) \<Rightarrow>
           if mix_checksum (take 36 ?h) action payload \<noteq> get_le (slice 36 4 ?h)
           then (Err EC_SERIALIZE_DECODE_FAILED, f5)
           else case seek_set (nat cur + kEntryHeaderSize + alen + plen) f5 of (_, f6) \<Rightarrow>
             (Ok (header_entry ?h action payload), f6))"
      by (rule read_entry_header [OF b _ c' c(2,3) m]) simp
    let ?f3 = "f\<lparr>f_sched := s3\<rparr>"
    obtain s4 where s4: "read_body (length ?a) (int ?p + int kEntryHeaderSize) ?f3 =
        (if length (slice (?p + 40) (length ?a) (f_content f)) = length ?a
         then Some (slice (?p + 40) (length ?a) (f_content f)) else None, ?f3\<lparr>f_sched := s4\<rparr>)" "benign s4"
      using read_body_any [of ?f3 "length ?a" "?p + 40"] s3(1) by (auto simp: kEntryHeaderSize_def)
    obtain s5 where s5: "read_body (length ?q) (int ?p + int kEntryHeaderSize + int (length ?a)) (f\<lparr>f_sched := s4\<rparr>) =
        (if length (slice (?p + 40 + length ?a) (length ?q) (f_content f)) = length ?q
         then Some (slice (?p + 40 + length ?a) (length ?q) (f_content f)) else None, f\<lparr>f_sched := s5\<rparr>)"
      using read_body_any [of "f\<lparr>f_sched := s4\<rparr>" "length ?q" "?p + 40 + length ?a"] s4(2)
      by (auto simp: kEntryHeaderSize_def)
    have "length (f_content f) < ?p + 40 + length ?a + length ?q" using k False by (simp add: c' enc)
    moreover have "?p + 40 \<le> length (f_content f)" by (simp add: c')
    ultimately have "length (slice (?p + 40) (length ?a) (f_content f)) \<noteq> length ?a \<or>
        length (slice (?p + 40 + length ?a) (length ?q) (f_content f)) \<noteq> length ?q"
      by auto
    then show ?thesis using s3(2) s4(1) s5
      by (auto simp: Let_def header_fields len)
  qed
qed

text \<open>
  A torn write makes the whole log unreadable: when the process dies in the middle of an
  append (any proper part of the entry has reached the file), \<open>replay\<close> answers
  \<open>PROTOCOL_TRUNCATED_BUFFER\<close> and delivers none of the complete entries before it.
\<close>

theorem wal_torn_append:
  assumes "benign (f_sched f)" "\<forall>e \<in> set es. entry_ok e" "entry_ok e"
    and "0 < k" "k < length (enc_entry e)" "length h = 16"
    and "f_content f = h @ enc_log es @ take k (enc_entry e)"
  shows "fst (wal_replay (set_file f w)) = Err EC_PROTOCOL_TRUNCATED_BUFFER"
proof (rule replay_stops [OF assms(1,2) _ assms(7,6)])
  show "take k (enc_entry e) \<noteq> []" using assms(4) by simp
  fix g :: pfile
  assume "benign (f_sched g)" "f_content g = f_content f" "f_pos g = length (h @ enc_log es)"
  then show "fst (read_entry g) = Err EC_PROTOCOL_TRUNCATED_BUFFER"
    by (intro read_entry_torn [OF _ assms(3,5), of g "h @ enc_log es"]) (use assms in auto)
qed

text \<open>An existing but empty file gets no header: what is appended to it cannot be read back.\<close>

theorem wal_empty_file_unreadable:
  "\<exists>w0 w1. wal_create \<lparr>wc_path = ''w'', wc_max_size_bytes = 0, wc_max_entries = 0, wc_fsync_on_append = True\<rparr>
       \<lparr>fe_has_parent = False, fe_mkdir_error = False, fe_parent_exists = False, fe_file = Some [],
        fe_open_sched = [], fe_sched = [], fe_append_only = True\<rparr> = Ok w0
     \<and> wal_append 7 CUSTOM [] [] w0 = (Ok 1, w1)
     \<and> fst (wal_replay w1) = Err EC_PROTOCOL_TRUNCATED_BUFFER"
proof -
  define cfg where "cfg = \<lparr>wc_path = ''w'', wc_max_size_bytes = 0, wc_max_entries = 0, wc_fsync_on_append = True\<rparr>"
  define f where "f = \<lparr>f_content = [], f_pos = 0, f_sched = [], f_append_only = True\<rparr>"
  define e where "e = \<lparr>we_schema = kSchemaVersion, we_seq = 1, we_ts = 7, we_type = CUSTOM, we_action = [], we_payload = []\<rparr>"
  define env where "env = \<lparr>fe_has_parent = False, fe_mkdir_error = False, fe_parent_exists = False, fe_file = Some [],
        fe_open_sched = [], fe_sched = [], fe_append_only = True\<rparr>"
  let ?w0 = "wal_ctor cfg f"
  have ok: "entry_ok e" by (simp add: entry_ok_def e_def)
  have lenc: "length (enc_entry e) = 40" by (simp add: length_enc_entry act_len_def pay_len_def e_def)
  have "read_at kFileHeaderSize 0 f = (Some [], f)"
    by (simp add: read_at_def read_loop_at.simps [of 16 0 "[]"] pread_sys_def next_fault_def
        kFileHeaderSize_def slice_def f_def)
  then have c: "wal_create cfg env = Ok ?w0"
    by (simp add: wal_create_def env_def read_file_header_def set_file_def wal_ctor_def f_def kFileHeaderSize_def)
  have b: "benign (f_sched (w_file ?w0))" by (simp add: wal_ctor_def f_def)
  define w1 where "w1 = ?w0\<lparr>w_next_seq := 2\<rparr>"
  have w1: "w_file w1 = f" "benign (f_sched (w_file w1))" "f_content f = []" by (simp_all add: w1_def wal_ctor_def f_def)
  obtain s p where w: "write_entry e w1 = (Ok (we_seq e), w1\<lparr>w_file := (w_file w1)
      \<lparr>f_content := f_content (w_file w1) @ enc_entry e, f_sched := s, f_pos := p\<rparr>,
      w_size_bytes := w_size_bytes w1 + of_nat (length (enc_entry e)), w_entry_count := w_entry_count w1 + 1\<rparr>)"
      "benign s"
    by (rule write_entry_benign [OF w1(2)])
  let ?f1 = "f\<lparr>f_content := enc_entry e, f_sched := s, f_pos := p\<rparr>"
  obtain r s' where fs: "fsync_sys ?f1 = (r, ?f1\<lparr>f_sched := s'\<rparr>)" "benign s'"
    by (rule fsync_benign [of ?f1]) (use w(2) that in auto)
  have seq1: "we_seq e = 1" by (simp add: e_def)
  define w2 where "w2 = snd (write_entry e w1)"
  have w2: "write_entry e w1 = (Ok 1, w2)" "w_file w2 = ?f1"
    by (simp only: w2_def w seq1 snd_conv) (simp add: w2_def w w1(1,3))
  have a: "wal_append 7 CUSTOM [] [] ?w0 = (Ok 1, set_file (?f1\<lparr>f_sched := s'\<rparr>) w2)"
  proof -
    have f0: "w_cfg ?w0 = cfg" "w_next_seq ?w0 = 1" "wc_max_entries cfg = 0" "wc_max_size_bytes cfg = 0"
      "wc_fsync_on_append cfg"
      by (simp_all add: wal_ctor_def cfg_def)
    show ?thesis
      unfolding wal_append_def Let_def f0 e_def [symmetric]
      using w2 fs(1) seq1 f0(5) by (simp add: w1_def)
  qed
  have "fst (wal_replay (set_file (?f1\<lparr>f_sched := s'\<rparr>) w2)) = Err EC_PROTOCOL_TRUNCATED_BUFFER"
  proof (rule replay_stops [of _ "[]" "drop 16 (enc_entry e)" "take 16 (enc_entry e)"])
    fix g :: pfile
    assume g: "benign (f_sched g)" "f_content g = f_content (?f1\<lparr>f_sched := s'\<rparr>)"
      "f_pos g = length (take 16 (enc_entry e) @ enc_log [])"
    obtain s1 where s1: "lseek_cur g = (16, g\<lparr>f_sched := s1\<rparr>)" "benign s1"
      by (rule lseek_cur_benign [OF g(1)]) (use g(3) lenc that in simp)
    obtain s2 where s2: "seek_set 16 (g\<lparr>f_sched := s1\<rparr>) = (16, g\<lparr>f_sched := s2, f_pos := 16\<rparr>)" "benign s2"
      using seek_set_benign [of "g\<lparr>f_sched := s1\<rparr>" 16] s1 by auto
    obtain s3 where "read_at 40 16 (g\<lparr>f_sched := s2, f_pos := 16\<rparr>) =
        (Some (slice 16 40 (enc_entry e)), g\<lparr>f_sched := s2, f_pos := 16, f_sched := s3\<rparr>)"
      by (rule read_at_benign [of "g\<lparr>f_sched := s2, f_pos := 16\<rparr>" 40 16]) (use s2 g(2) that in auto)
    then show "fst (read_entry g) = Err EC_PROTOCOL_TRUNCATED_BUFFER"
      using s1(1) s2(1) lenc
      by (simp add: read_entry_def kFileHeaderSize_def kEntryHeaderSize_def)
  qed (use fs(2) lenc in simp_all)
  then show ?thesis
    unfolding cfg_def [symmetric] env_def [symmetric] using c a
    by (intro exI [of _ ?w0] exI [of _ "set_file (?f1\<lparr>f_sched := s'\<rparr>) w2"]) simp
qed

section \<open>Concrete runs\<close>

text \<open>A schedule with interruptions and short transfers, and a log limited to two entries.\<close>

definition sample_cfg :: WalConfig where
  "sample_cfg = \<lparr>wc_path = ''wal/topology.wal'', wc_max_size_bytes = 0, wc_max_entries = 2,
     wc_fsync_on_append = True\<rparr>"

definition sample_env :: "bytes option \<Rightarrow> fs_env" where
  "sample_env c = \<lparr>fe_has_parent = True, fe_mkdir_error = False, fe_parent_exists = True, fe_file = c,
     fe_open_sched = [F_eintr, F_ok], fe_sched = [F_eintr, F_short 3, F_ok, F_eintr, F_short 1],
     fe_append_only = True\<rparr>"

definition sample_entry :: "u64 \<Rightarrow> WalEntry" where
  "sample_entry q = \<lparr>we_schema = 1, we_seq = q, we_ts = 7, we_type = ADD_NODE, we_action = [97, 100],
     we_payload = [1, 2, 3]\<rparr>"

lemma sample_env_ok [simp]: "env_ok (sample_env c)" "fe_file (sample_env c) = c"
  by (simp_all add: env_ok_def sample_env_def)

lemma sample_entry_new: "new_entry q 7 ADD_NODE [97, 100] [1, 2, 3] = sample_entry q"
  by (simp add: new_entry_def clip_ok entry_ok_def sample_entry_def kSchemaVersion_def)

lemma sample_entry_ok [simp]: "entry_ok (sample_entry q)"
  by (simp add: entry_ok_def sample_entry_def kSchemaVersion_def)

lemma sample_entry_fields [simp]:
  "we_seq (sample_entry q) = q" "act_len (sample_entry q) = 2" "pay_len (sample_entry q) = 3"
  by (simp_all add: sample_entry_def act_len_def pay_len_def)

lemma two_one: "\<not> (2 :: u64) \<le> 1" "\<not> (1 :: u64) < 1"
  by (simp_all add: word_le_nat_alt)

lemma sample_fresh:
  obtains w where "wal_create sample_cfg (sample_env None) = Ok w" "wal_rep w []" "w_next_seq w = 1"
    "w_cfg w = sample_cfg"
  by (rule wal_create_fresh [of "sample_env None" sample_cfg]) (use that in simp_all)

lemma sample_room: "wal_rep w es \<Longrightarrow> w_cfg w = sample_cfg \<Longrightarrow> length es < 2 \<Longrightarrow> \<not> wal_full a p w"
  by (cases es) (auto simp: wal_full_def sample_cfg_def wal_rep_def two_one)

lemma sample_log:
  obtains w where "wal_rep w [sample_entry 1, sample_entry 2]" "w_next_seq w = 3" "w_cfg w = sample_cfg"
proof -
  obtain w0 where w0: "wal_rep w0 []" "w_next_seq w0 = 1" "w_cfg w0 = sample_cfg"
    by (rule sample_fresh)
  obtain w1 where w1: "wal_rep w1 [sample_entry 1]" "w_next_seq w1 = 2" "w_cfg w1 = sample_cfg"
    by (rule wal_append_room [OF w0(1) sample_room [OF w0(1,3)], where ts = 7 and type = ADD_NODE
        and action = "[97, 100]" and payload = "[1, 2, 3]"])
      (use w0 that in \<open>auto simp: sample_entry_new\<close>)
  obtain w2 where "wal_rep w2 [sample_entry 1, sample_entry 2]" "w_next_seq w2 = 3" "w_cfg w2 = sample_cfg"
    by (rule wal_append_room [OF w1(1) sample_room [OF w1(1,3)], where ts = 7 and type = ADD_NODE
        and action = "[97, 100]" and payload = "[1, 2, 3]"])
      (use w1 that in \<open>auto simp: sample_entry_new\<close>)
  then show ?thesis by (rule that)
qed

theorem wal_append_refines_witness:
  "\<exists>w w'. wal_create sample_cfg (sample_env None) = Ok w \<and>
    wal_append 7 ADD_NODE [97, 100] [1, 2, 3] w = (Ok 1, w') \<and> wal_rep w' [sample_entry 1]"
proof -
  obtain w where w: "wal_create sample_cfg (sample_env None) = Ok w" "wal_rep w []" "w_next_seq w = 1"
    "w_cfg w = sample_cfg"
    by (rule sample_fresh)
  obtain r w' where a: "wal_append 7 ADD_NODE [97, 100] [1, 2, 3] w = (r, w')" by fastforce
  have "\<not> wal_full [97, 100] [1, 2, 3] w" using sample_room [OF w(2,4)] by simp
  with wal_append_refines [OF w(2) a] w a show ?thesis by (auto simp: sample_entry_new)
qed

theorem wal_replay_returns_witness:
  "\<exists>w. fst (wal_replay w) = Ok [sample_entry 1, sample_entry 2] \<and> w_cfg w = sample_cfg"
proof -
  obtain w where "wal_rep w [sample_entry 1, sample_entry 2]" "w_cfg w = sample_cfg" by (rule sample_log)
  with wal_replay_returns [of w "[sample_entry 1, sample_entry 2]"] show ?thesis
    by (intro exI [of _ w]) auto
qed

theorem wal_replay_stream_runs_witness:
  "\<exists>w. fst (wal_replay_stream (Some (\<lambda>n e. (n + we_seq e, we_seq e < 1))) 0 w) = Ok 1"
proof -
  obtain w where "wal_rep w [sample_entry 1, sample_entry 2]" by (rule sample_log)
  from wal_replay_stream_runs [OF this, of 0 "\<lambda>n e. (n + we_seq e, we_seq e < 1)"] show ?thesis
    by (intro exI [of _ w]) auto
qed

theorem wal_truncate_keeps_witness:
  "\<exists>w w'. wal_rep w [sample_entry 1, sample_entry 2] \<and> wal_truncate 2 w = (Ok (), w') \<and>
    wal_rep w' [sample_entry 2] \<and> w_next_seq w' = 3"
proof -
  obtain w where "wal_rep w [sample_entry 1, sample_entry 2]" "w_next_seq w = 3" by (rule sample_log)
  with wal_truncate_keeps [of w "[sample_entry 1, sample_entry 2]" 2] show ?thesis
    by (auto simp: two_one)
qed

theorem wal_reopen_restores_witness:
  "\<exists>w c. wal_create sample_cfg (sample_env (Some c)) = Ok w \<and>
    wal_rep w [sample_entry 1, sample_entry 2] \<and> w_next_seq w = 3"
proof -
  obtain w where "wal_rep w [sample_entry 1, sample_entry 2]" by (rule sample_log)
  then have "file_rep (w_file w) [sample_entry 1, sample_entry 2]" by (simp add: wal_rep_def)
  then have "\<exists>w'. wal_create sample_cfg (sample_env (Some (f_content (w_file w)))) = Ok w' \<and>
      wal_rep w' [sample_entry 1, sample_entry 2] \<and> w_next_seq w' = seq_after [sample_entry 1, sample_entry 2]
      \<and> w_cfg w' = sample_cfg"
    by (intro wal_reopen_restores) simp_all
  moreover have "seq_after [sample_entry 1, sample_entry 2] = 3"
    by (simp add: seq_after_def max_def two_one)
  ultimately show ?thesis by metis
qed

theorem wal_history_witness:
  "\<exists>w0 w es n. wal_create sample_cfg (sample_env None) = Ok w0 \<and>
    fold log_step [L_append 7 ADD_NODE [97] [], L_truncate 5, L_append 8 CONNECT [] [1]] (w0, [], 0) = (w, es, n)
    \<and> fst (wal_replay w) = Ok es \<and> distinct (map we_seq es)"
proof -
  let ?ops = "[L_append 7 ADD_NODE [97] [], L_truncate 5, L_append 8 CONNECT [] [1]]"
  obtain w0 where w0: "wal_create sample_cfg (sample_env None) = Ok w0" by (rule sample_fresh)
  obtain w es n where f: "fold log_step ?ops (w0, [], 0) = (w, es, n)" by (metis prod_cases3)
  from wal_history [OF _ _ w0 f] w0 f show ?thesis by (intro exI [of _ w0] exI [of _ w] exI) auto
qed

theorem wal_damage_detected_witness:
  "fst (wal_replay (set_file \<lparr>f_content = file_header @ enc_log [sample_entry 1] @ (enc_entry (sample_entry 2))[8 := 9],
      f_pos = 0, f_sched = [F_eintr], f_append_only = True\<rparr> (wal_ctor sample_cfg undefined)))
    = Err EC_SERIALIZE_DECODE_FAILED"
proof -
  have "enc_entry (sample_entry 2) ! 8 = 2"
    by (simp add: enc_entry_def entry_header_def entry_head36_def nth_append sample_entry_def put_le_def)
  then show ?thesis
    using wal_damage_detected [of "\<lparr>f_content = file_header @ enc_log [sample_entry 1] @ (enc_entry (sample_entry 2))[8 := 9],
      f_pos = 0, f_sched = [F_eintr], f_append_only = True\<rparr>" "[sample_entry 1]" "sample_entry 2" 8 9 file_header "[]"
      "wal_ctor sample_cfg undefined"]
    by (simp add: length_enc_entry covered_def) (simp add: file_header_def)
qed

theorem wal_torn_append_witness:
  "fst (wal_replay (set_file \<lparr>f_content = file_header @ enc_log [sample_entry 1] @ take 41 (enc_entry (sample_entry 2)),
      f_pos = 0, f_sched = [], f_append_only = True\<rparr> (wal_ctor sample_cfg undefined)))
    = Err EC_PROTOCOL_TRUNCATED_BUFFER"
  using wal_torn_append [of "\<lparr>f_content = file_header @ enc_log [sample_entry 1] @ take 41 (enc_entry (sample_entry 2)),
      f_pos = 0, f_sched = [], f_append_only = True\<rparr>" "[sample_entry 1]" "sample_entry 2" 41 file_header
      "wal_ctor sample_cfg undefined"]
  by (simp add: length_enc_entry) (simp add: file_header_def)

end
