(* ===== verification/Wal_Crash.thy ===== *)
theory Wal_Crash
  imports Wal_Log
begin

text \<open>
  What a failure at one point does to \<open>src/platform/fs/wal.cpp\<close>. The model's schedules say how
  each system call ends, so a failure at a given point is a schedule with that many successes
  before it. \<open>undisturbed\<close> says that an operation that meets no failure uses up some number of
  successes and leaves the rest of the schedule alone; it composes along the operations.

  Shown: \<open>truncate\<close> first cuts the file and then writes the kept entries again, so a failure between
  the two loses all of them.
\<close>

section \<open>Operations that meet no failure\<close>

definition undisturbed :: "(pfile \<Rightarrow> 'a \<times> pfile) \<Rightarrow> pfile \<Rightarrow> bool" where
  "undisturbed a f = (f_sched f = [] \<longrightarrow> f_sched (snd (a f)) = [] \<and>
     (\<exists>n. \<forall>rest. a (f\<lparr>f_sched := replicate n F_ok @ rest\<rparr>) = (fst (a f), (snd (a f))\<lparr>f_sched := rest\<rparr>)))"

lemma undisturbed_ret: "undisturbed (\<lambda>f. (x, f)) f"
  by (auto simp: undisturbed_def intro!: exI [of _ 0])

lemma undisturbed_bind:
  assumes "undisturbed a f" "\<And>x f'. f_sched f = [] \<Longrightarrow> a f = (x, f') \<Longrightarrow> f_sched f' = [] \<Longrightarrow> undisturbed (b x) f'"
  shows "undisturbed (\<lambda>f. case a f of (x, f') \<Rightarrow> b x f') f"
proof (cases "f_sched f = []")
  case True
  obtain x f' where af: "a f = (x, f')" by fastforce
  with assms(1) True obtain n where s: "f_sched f' = []"
    and n: "\<And>rest. a (f\<lparr>f_sched := replicate n F_ok @ rest\<rparr>) = (x, f'\<lparr>f_sched := rest\<rparr>)"
    by (auto simp: undisturbed_def)
  obtain y f'' where bf: "b x f' = (y, f'')" by fastforce
  from assms(2) [OF True af s] s bf obtain m where t: "f_sched f'' = []"
    and m: "\<And>rest. b x (f'\<lparr>f_sched := replicate m F_ok @ rest\<rparr>) = (y, f''\<lparr>f_sched := rest\<rparr>)"
    by (auto simp: undisturbed_def)
  have "(case a (f\<lparr>f_sched := replicate (n + m) F_ok @ rest\<rparr>) of (x, f') \<Rightarrow> b x f') = (y, f''\<lparr>f_sched := rest\<rparr>)" for rest
    by (simp add: replicate_add n m)
  with True af bf t show ?thesis by (auto simp: undisturbed_def intro!: exI [of _ "n + m"])
qed (simp add: undisturbed_def)

lemma undisturbed_if: "(c \<Longrightarrow> undisturbed a f) \<Longrightarrow> (\<not> c \<Longrightarrow> undisturbed b f) \<Longrightarrow> undisturbed (\<lambda>f. if c then a f else b f) f"
  by (cases c) simp_all

lemma undisturbed_option: "(x = None \<Longrightarrow> undisturbed a f) \<Longrightarrow> (\<And>y. x = Some y \<Longrightarrow> undisturbed (b y) f) \<Longrightarrow>
    undisturbed (\<lambda>f. case x of None \<Rightarrow> a f | Some y \<Rightarrow> b y f) f"
  by (cases x) simp_all

lemma undisturbed_result: "(\<And>y. x = Ok y \<Longrightarrow> undisturbed (a y) f) \<Longrightarrow> (\<And>c. x = Err c \<Longrightarrow> undisturbed (b c) f) \<Longrightarrow>
    (x = Uninitialized \<Longrightarrow> undisturbed c f) \<Longrightarrow>
    undisturbed (\<lambda>f. case x of Ok y \<Rightarrow> a y f | Err e \<Rightarrow> b e f | Uninitialized \<Rightarrow> c f) f"
  by (cases x) simp_all

lemma undisturbed_prod: "(\<And>x y. p = (x, y) \<Longrightarrow> undisturbed (b x y) f) \<Longrightarrow> undisturbed (\<lambda>f. case p of (x, y) \<Rightarrow> b x y f) f"
  by (cases p) simp

lemma undisturbed_cong: "(\<And>f. a f = b f) \<Longrightarrow> undisturbed b f \<Longrightarrow> undisturbed a f"
  by presburger

lemma next_fault_Nil: "f_sched f = [] \<Longrightarrow> next_fault f = (F_ok, f)"
  by (simp add: next_fault_def)

lemma next_fault_Cons: "next_fault (f\<lparr>f_sched := x # xs\<rparr>) = (x, f\<lparr>f_sched := xs\<rparr>)"
  by (simp add: next_fault_def)

lemmas one_call = exI [of _ "Suc 0"]

lemma undisturbed_calls:
  "undisturbed (lseek_set n) f" "undisturbed lseek_cur f" "undisturbed fstat_size f"
  "undisturbed (seek_set n) f"
  by (auto simp: undisturbed_def lseek_set_def lseek_cur_def fstat_size_def seek_set_def next_fault_Nil next_fault_Cons
      intro!: one_call)

lemma undisturbed_ftruncate: "undisturbed (ftruncate_wrapped n) f"
  by (auto simp: undisturbed_def ftruncate_wrapped.simps ftruncate_sys_def next_fault_Nil next_fault_Cons intro!: one_call)

lemma undisturbed_pread: "undisturbed (pread_sys n off) f"
proof (cases "off < 0")
  case True
  then show ?thesis by (auto simp: undisturbed_def pread_sys_def intro!: exI [of _ 0])
next
  case False
  then show ?thesis by (auto simp: undisturbed_def pread_sys_def next_fault_Nil next_fault_Cons intro!: one_call)
qed

lemma undisturbed_read_loop: "undisturbed (read_loop_at n off got) f"
proof (induction "n - length got" arbitrary: got f rule: less_induct)
  case (less got f)
  show ?case
  proof (rule undisturbed_cong [OF read_loop_at.simps], rule undisturbed_if, rule undisturbed_bind [OF undisturbed_pread])
    fix x f'
    assume l: "length got < n" and "f_sched f = []" and r: "pread_sys (n - length got) (off + int (length got)) f = (x, f')"
    then have "x \<noteq> Eintr" by (auto simp: pread_sys_def next_fault_Nil split: if_splits)
    then show "undisturbed (\<lambda>f'. case x of Ret bs \<Rightarrow> if bs = [] then (Some got, f') else read_loop_at n off (got @ bs) f'
        | Eintr \<Rightarrow> read_loop_at n off got f' | Fail \<Rightarrow> (None, f')) f'"
      using less l by (cases x) (auto intro!: undisturbed_ret undisturbed_if simp flip: length_greater_0_conv)
  qed (rule undisturbed_ret)
qed

lemma undisturbed_read_at: "undisturbed (read_at n off) f"
  by (rule undisturbed_cong [OF read_at_def undisturbed_read_loop])

lemma undisturbed_read_body: "undisturbed (read_body n off) f"
  by (rule undisturbed_cong [OF read_body_def], rule undisturbed_if, rule undisturbed_bind [OF undisturbed_read_at])
    (auto intro!: undisturbed_ret undisturbed_option)

lemma undisturbed_read_entry: "undisturbed read_entry f"
  by (rule undisturbed_cong [OF read_entry_def])
    (intro undisturbed_bind undisturbed_calls undisturbed_if undisturbed_ret undisturbed_option undisturbed_read_at
      undisturbed_read_body | simp add: Let_def)+

lemma undisturbed_wal_loop: "undisturbed (\<lambda>f. wal_loop body f acc) f"
proof (induction body f acc rule: wal_loop.induct)
  case (1 body f acc)
  show ?case
    by (rule undisturbed_cong [OF wal_loop.simps], intro undisturbed_bind undisturbed_calls undisturbed_if undisturbed_ret
        undisturbed_option undisturbed_read_entry undisturbed_result) (auto intro!: undisturbed_prod undisturbed_if intro: 1 undisturbed_ret)
qed

section \<open>Cutting the log\<close>

text \<open>\<open>truncate\<close> up to the point where the kept entries are written again, with all answers on the way.\<close>

definition truncate_cut :: "u64 \<Rightarrow> pfile \<Rightarrow> (int \<times> (WalEntry list \<times> u64) Result \<times> bool \<times> int) \<times> pfile" where
  "truncate_cut k f = (case seek_set kFileHeaderSize f of (r1, f) \<Rightarrow>
     case wal_loop (\<lambda>(kept, n) e. (if k \<le> we_seq e
             then (kept @ [e], n + (of_nat kEntryHeaderSize + of_nat (length (we_action e)) + of_nat (length (we_payload e))))
             else (kept, n), True)) f ([], of_nat kFileHeaderSize) of (r, f) \<Rightarrow>
     case ftruncate_wrapped kFileHeaderSize f of (ok, f) \<Rightarrow>
     case seek_set kFileHeaderSize f of (r2, f) \<Rightarrow> ((r1, r, ok, r2), f))"

lemma undisturbed_cut: "undisturbed (truncate_cut k) f"
  by (rule undisturbed_cong [OF truncate_cut_def])
    (intro undisturbed_bind undisturbed_calls undisturbed_wal_loop undisturbed_ftruncate undisturbed_ret)

lemma truncate_via_cut:
  assumes "truncate_cut k (w_file w) = ((r1, Ok (kept, n), True, r2), f)" "0 \<le> r1" "0 \<le> r2" "kept \<noteq> []"
  shows "wal_truncate k w = (case write_entries kept (set_file f w) of
      (Err c, w1) \<Rightarrow> (Err c, w1)
    | (_, w1) \<Rightarrow> (Ok (), w1\<lparr>w_entry_count := of_nat (length kept), w_size_bytes := n\<rparr>))"
  using assms by (auto simp: wal_truncate_def truncate_cut_def split: prod.splits)

text \<open>Cutting leaves the header alone, whatever was in the log.\<close>

lemma cut_rep:
  assumes "file_rep f es"
  obtains f' n where "truncate_cut k f = ((16, Ok (filter (\<lambda>e. k \<le> we_seq e) es, n), True, 16), f')" "file_rep f' []"
    "f_content f' = take 16 (f_content f)"
proof -
  obtain s where s: "seek_set kFileHeaderSize f = (16, f\<lparr>f_sched := s, f_pos := 16\<rparr>)"
    "file_rep (f\<lparr>f_sched := s, f_pos := 16\<rparr>) es"
    by (rule seek16_rep [OF assms])
  let ?f1 = "f\<lparr>f_sched := s, f_pos := 16\<rparr>" and ?es = "filter (\<lambda>e. k \<le> we_seq e) es"
  let ?body = "\<lambda>(kept, n) e. (if k \<le> we_seq e
       then (kept @ [e], n + (of_nat kEntryHeaderSize + of_nat (length (we_action e)) + of_nat (length (we_payload e))))
       else (kept, n), True)"
  obtain s2 p where l: "wal_loop ?body ?f1 ([], of_nat kFileHeaderSize :: u64)
      = (Ok (?es, of_nat (16 + length (enc_log ?es))), ?f1\<lparr>f_sched := s2, f_pos := p\<rparr>)"
    "file_rep (?f1\<lparr>f_sched := s2, f_pos := p\<rparr>) es"
    by (rule wal_loop_rep [OF s(2), of ?body "([], of_nat kFileHeaderSize)"])
      (simp_all add: run_body_keep [OF file_repD(2) [OF assms]] kFileHeaderSize_def)
  let ?f2 = "?f1\<lparr>f_sched := s2, f_pos := p\<rparr>"
  obtain s3 where t: "ftruncate_wrapped kFileHeaderSize ?f2
      = (True, ?f2\<lparr>f_sched := s3, f_content := take 16 (f_content ?f2)\<rparr>)"
    "file_rep (?f2\<lparr>f_sched := s3, f_content := take 16 (f_content ?f2)\<rparr>) []"
    by (rule ftruncate_rep [OF l(2)])
  obtain s4 where s4: "seek_set kFileHeaderSize (?f2\<lparr>f_sched := s3, f_content := take 16 (f_content ?f2)\<rparr>)
      = (16, (?f2\<lparr>f_sched := s3, f_content := take 16 (f_content ?f2)\<rparr>)\<lparr>f_sched := s4, f_pos := 16\<rparr>)"
    "file_rep ((?f2\<lparr>f_sched := s3, f_content := take 16 (f_content ?f2)\<rparr>)\<lparr>f_sched := s4, f_pos := 16\<rparr>) []"
    by (rule seek16_rep [OF t(2)])
  from that [OF _ s4(2)] s(1) l(1) t(1) s4(1) show ?thesis by (simp add: truncate_cut_def)
qed

text \<open>
  C6. \<open>truncate\<close> is not atomic: for every log and every argument with something to keep there is a
  point such that, if all system calls before it succeed and that one fails, \<open>truncate\<close> answers an
  error and every entry is gone, those to keep included; the object still reports the old count,
  and the log replays as empty.
\<close>

theorem wal_truncate_loses_all:
  assumes "wal_rep w es" "f_sched (w_file w) = []" "filter (\<lambda>e. k \<le> we_seq e) es \<noteq> []"
  shows "\<exists>n w'. wal_truncate k (set_file ((w_file w)\<lparr>f_sched := replicate n F_ok @ [F_fail]\<rparr>) w) = (Err EC_INTERNAL, w') \<and>
    f_content (w_file w') = take 16 (f_content (w_file w)) \<and> w_entry_count w' = of_nat (length es) \<and>
    fst (wal_replay w') = Ok []"
proof -
  let ?kept = "filter (\<lambda>e. k \<le> we_seq e) es"
  have f: "file_rep (w_file w) es" using assms(1) by (simp add: wal_rep_def)
  obtain f' m where c: "truncate_cut k (w_file w) = ((16, Ok (?kept, m), True, 16), f')" "file_rep f' []"
    "f_content f' = take 16 (f_content (w_file w))"
    by (rule cut_rep [OF f])
  obtain n where n: "truncate_cut k ((w_file w)\<lparr>f_sched := replicate n F_ok @ [F_fail]\<rparr>)
      = ((16, Ok (?kept, m), True, 16), f'\<lparr>f_sched := [F_fail]\<rparr>)"
    using undisturbed_cut [of k "w_file w"] assms(2) c(1) by (auto simp: undisturbed_def)
  let ?w = "set_file ((w_file w)\<lparr>f_sched := replicate n F_ok @ [F_fail]\<rparr>) w"
  define w' where "w' = set_file (f'\<lparr>f_sched := []\<rparr>) w"
  have "write_entries ?kept (set_file (f'\<lparr>f_sched := [F_fail]\<rparr>) ?w) = (Err EC_INTERNAL, w')"
    using assms(3) by (cases ?kept)
      (simp_all add: write_entry_def seek_end_def lseek_end_def next_fault_def set_file_def w'_def)
  then have t: "wal_truncate k ?w = (Err EC_INTERNAL, w')"
    using truncate_via_cut [of k ?w 16 ?kept m 16 "f'\<lparr>f_sched := [F_fail]\<rparr>"] n assms(3) by (simp add: set_file_def)
  have r: "file_rep (w_file w') []" using c(2) by (auto simp: w'_def set_file_def file_rep_def)
  then have "wal_rep (w'\<lparr>w_size_bytes := of_nat (length (f_content (w_file w'))), w_entry_count := 0\<rparr>) []"
    by (simp add: wal_rep_def)
  from wal_replay_keeps [OF this] have "fst (wal_replay w') = Ok []"
    by (auto simp: wal_replay_def set_file_def split: prod.splits Result.splits if_splits)
  with t c(3) assms(1) show ?thesis
    by (intro exI [of _ n] exI [of _ w']) (simp add: w'_def set_file_def wal_rep_def)
qed

lemma wal_truncate_loses_all_witness:
  "\<exists>w n w'. wal_rep w [sample_entry 1, sample_entry 2] \<and>
    wal_truncate 2 (set_file ((w_file w)\<lparr>f_sched := replicate n F_ok @ [F_fail]\<rparr>) w) = (Err EC_INTERNAL, w') \<and>
    fst (wal_replay w') = Ok []"
proof -
  obtain w0 where w0: "wal_rep w0 [sample_entry 1, sample_entry 2]" by (rule sample_log)
  define w where "w = set_file ((w_file w0)\<lparr>f_sched := []\<rparr>) w0"
  have rep: "wal_rep w [sample_entry 1, sample_entry 2]" "f_sched (w_file w) = []"
    using w0 by (simp_all add: w_def wal_rep_def file_rep_def set_file_def)
  have "filter (\<lambda>e. 2 \<le> we_seq e) [sample_entry 1, sample_entry 2] \<noteq> []" by (simp add: two_one)
  from wal_truncate_loses_all [OF rep this] rep(1) show ?thesis by blast
qed

end
