(* ===== verification/Dataflow.thy ===== *)
theory Dataflow
  imports Interfaces
begin

text \<open>
  \<open>src/ability_b/port/port.hpp\<close> and \<open>src/ability_b/node/\<close>: typed ports between nodes, the
  life cycle of a node and the scheduler. An input port is its queue; an output port holds the
  address of an input port, so that several output ports can feed one input port: the ports live
  in a store. A blocking \<open>recv\<close> releases the lock while it waits; what the other threads do
  to the queue meanwhile is an argument, one list of operations per wake-up.

  Shown: whatever the mix of pushes, \<open>try_recv\<close>, blocking \<open>recv\<close> and other consumers, every
  accepted message is delivered exactly once and in order, within the capacity.
\<close>

section \<open>Port descriptions\<close>

record PortInfo =
  pi_name :: string
  pi_type_index :: string
  pi_schema_version :: u32
  pi_is_input :: bool

definition port_is_output :: "PortInfo \<Rightarrow> bool" where
  "port_is_output i = (\<not> pi_is_input i)"

section \<open>Input ports\<close>

record 'a input_port =
  ip_info :: PortInfo
  ip_capacity :: nat
  ip_queue :: "'a list"

definition input_port_new :: "string \<Rightarrow> string \<Rightarrow> nat \<Rightarrow> u32 \<Rightarrow> 'a input_port" where
  "input_port_new name type_index capacity schema_version =
     \<lparr>ip_info = \<lparr>pi_name = name, pi_type_index = type_index, pi_schema_version = schema_version, pi_is_input = True\<rparr>,
      ip_capacity = capacity, ip_queue = []\<rparr>"

definition port_try_recv :: "'a input_port \<Rightarrow> 'a Result \<times> 'a input_port" where
  "port_try_recv p = (case ip_queue p of
      [] \<Rightarrow> (Err EC_BIZ_SERVICE_NOT_FOUND, p)
    | v # vs \<Rightarrow> (Ok v, p\<lparr>ip_queue := vs\<rparr>))"

definition port_push :: "'a \<Rightarrow> 'a input_port \<Rightarrow> unit Result \<times> 'a input_port" where
  "port_push v p =
     (if ip_capacity p > 0 \<and> length (ip_queue p) \<ge> ip_capacity p then (Err EC_RESOURCE_BUSY, p)
      else (Ok (), p\<lparr>ip_queue := ip_queue p @ [v]\<rparr>))"

definition port_size :: "'a input_port \<Rightarrow> nat" where
  "port_size p = length (ip_queue p)"

text \<open>As a bounded queue.\<close>

definition port_put :: "'a \<Rightarrow> 'a input_port \<Rightarrow> 'a input_port option" where
  "port_put v p = (case port_push v p of (Ok _, p') \<Rightarrow> Some p' | _ \<Rightarrow> None)"

definition port_take :: "'a input_port \<Rightarrow> ('a \<times> 'a input_port) option" where
  "port_take p = (case port_try_recv p of (Ok v, p') \<Rightarrow> Some (v, p') | _ \<Rightarrow> None)"

definition port_ok :: "nat \<Rightarrow> 'a input_port \<Rightarrow> bool" where
  "port_ok cap p = (ip_capacity p = cap \<and> (cap = 0 \<or> port_size p \<le> cap))"

lemmas port_defs = port_put_def port_take_def port_ok_def port_push_def port_try_recv_def port_size_def

interpretation ipq: fifo_queue ip_queue "port_ok cap" port_put port_take for cap
  by unfold_locales (auto simp: port_defs split: if_splits list.splits)

text \<open>
  Waiting with the predicate \<open>!queue_.empty()\<close>. \<open>wakes\<close> is what other threads do before each
  time the predicate is looked at again. The results: what they put in, what they took out. A
  wait without limit that is not woken any more does not return.
\<close>

fun port_wait :: "bool \<Rightarrow> 'a queue_op list list \<Rightarrow> 'a input_port \<Rightarrow> ('a list \<times> 'a list \<times> 'a input_port) option" where
  "port_wait forever [] p = (if ip_queue p = [] \<and> forever then None else Some ([], [], p))"
| "port_wait forever (ops # wakes) p =
     (if ip_queue p \<noteq> [] then Some ([], [], p)
      else case queue_run port_put port_take ops p of (ins, outs, p) \<Rightarrow>
        map_option (\<lambda>(ins', outs', p). (ins @ ins', outs @ outs', p)) (port_wait forever wakes p))"

definition port_recv :: "'a queue_op list list \<Rightarrow> int \<Rightarrow> 'a input_port
    \<Rightarrow> ('a Result \<times> 'a list \<times> 'a list \<times> 'a input_port) option" where
  "port_recv wakes timeout_ms p =
     map_option (\<lambda>(ins, outs, p). case ip_queue p of
         [] \<Rightarrow> (Err EC_NET_TIMEOUT, ins, outs, p)
       | v # vs \<Rightarrow> (Ok v, ins, outs, p\<lparr>ip_queue := vs\<rparr>))
       (if ip_queue p = [] \<and> timeout_ms \<noteq> 0 then port_wait (timeout_ms < 0) wakes p else Some ([], [], p))"

lemma port_wait_fifo:
  "port_ok cap p \<Longrightarrow> port_wait forever wakes p = Some (ins, outs, p') \<Longrightarrow>
    port_ok cap p' \<and> ip_queue p @ ins = outs @ ip_queue p'"
proof (induction wakes arbitrary: p ins outs)
  case (Cons ops wakes)
  show ?case
  proof (cases "ip_queue p = []")
    case True
    obtain i1 o1 q where r: "queue_run port_put port_take ops p = (i1, o1, q)" by (cases "queue_run port_put port_take ops p") auto
    with True Cons.prems(2) obtain i2 o2 where w: "port_wait forever wakes q = Some (i2, o2, p')" "ins = i1 @ i2" "outs = o1 @ o2"
      by auto
    have "port_ok cap q" "ip_queue p @ i1 = o1 @ ip_queue q" using ipq.run_fifo [OF Cons.prems(1) r] by auto
    with Cons.IH [OF _ w(1)] w show ?thesis by (metis append.assoc)
  qed (use Cons in simp)
qed (auto split: if_splits)

lemma port_wait_forever: "port_wait True wakes p = Some (ins, outs, p') \<Longrightarrow> ip_queue p' \<noteq> []"
  by (induction wakes arbitrary: p ins outs) (auto split: if_splits prod.splits)

text \<open>A wait with a limit returns, and without other consumers the queue keeps what it has.\<close>

lemma port_wait_timed: "port_wait False wakes p \<noteq> None"
proof (induction wakes arbitrary: p)
  case (Cons ops wakes)
  obtain i u q where "queue_run port_put port_take ops p = (i, u, q)" by (cases "queue_run port_put port_take ops p")
  with Cons.IH [of q] show ?case by auto
qed simp

lemma port_recv_timed: "0 \<le> timeout \<Longrightarrow> port_recv wakes timeout p \<noteq> None"
  using port_wait_timed [of wakes p] by (auto simp: port_recv_def)

lemma queue_run_pushes: "queue_run push pop (map Push vs) s = (ins, outs, t) \<Longrightarrow> outs = []"
  by (induction vs arbitrary: s ins) (auto split: option.splits prod.splits)

lemma port_wait_pushes: "port_wait forever (map (map Push) wakes) p = Some (ins, outs, q) \<Longrightarrow> outs = []"
  by (induction wakes arbitrary: p ins outs)
    (auto split: if_splits prod.splits dest: queue_run_pushes)

lemma port_recv_pushes: "port_recv (map (map Push) wakes) timeout p = Some (r, ins, outs, q) \<Longrightarrow> outs = []"
  unfolding port_recv_def by (fastforce split: if_split_asm list.split_asm dest: port_wait_pushes)

section \<open>Programs of one consumer\<close>

datatype 'a port_op = PO_push 'a | PO_try_recv | PO_recv "'a queue_op list list" int

text \<open>The messages accepted, the messages delivered (to anyone) and the last state.\<close>

fun port_run :: "'a port_op list \<Rightarrow> 'a input_port \<Rightarrow> ('a list \<times> 'a list \<times> 'a input_port) option" where
  "port_run [] p = Some ([], [], p)"
| "port_run (PO_push v # ops) p = (case port_push v p of
      (Ok _, p) \<Rightarrow> map_option (\<lambda>(ins, r). (v # ins, r)) (port_run ops p)
    | (_, p) \<Rightarrow> port_run ops p)"
| "port_run (PO_try_recv # ops) p = (case port_try_recv p of
      (Ok v, p) \<Rightarrow> map_option (\<lambda>(ins, outs, p). (ins, v # outs, p)) (port_run ops p)
    | (_, p) \<Rightarrow> port_run ops p)"
| "port_run (PO_recv wakes timeout # ops) p = (case port_recv wakes timeout p of
      None \<Rightarrow> None
    | Some (Ok v, i, u, p) \<Rightarrow> map_option (\<lambda>(ins, outs, p). (i @ ins, u @ v # outs, p)) (port_run ops p)
    | Some (_, i, u, p) \<Rightarrow> map_option (\<lambda>(ins, outs, p). (i @ ins, u @ outs, p)) (port_run ops p))"

lemma port_recv_fifo:
  assumes "port_ok cap p" "port_recv wakes timeout p = Some (r, ins, outs, p')"
  shows "port_ok cap p' \<and> ((\<exists>v. r = Ok v \<and> ip_queue p @ ins = outs @ v # ip_queue p') \<or>
    (r = Err EC_NET_TIMEOUT \<and> 0 \<le> timeout \<and> ip_queue p' = [] \<and> ip_queue p @ ins = outs))"
proof -
  obtain q where w: "(if ip_queue p = [] \<and> timeout \<noteq> 0 then port_wait (timeout < 0) wakes p else Some ([], [], p)) = Some (ins, outs, q)"
    and q: "(case ip_queue q of [] \<Rightarrow> (Err EC_NET_TIMEOUT, q) | v # vs \<Rightarrow> (Ok v, q\<lparr>ip_queue := vs\<rparr>)) = (r, p')"
    using assms(2) unfolding port_recv_def by (fastforce split: list.split_asm)
  have ok: "port_ok cap q" "ip_queue p @ ins = outs @ ip_queue q"
    using w assms(1) port_wait_fifo [of cap p] by (auto split: if_splits)
  have t: "0 \<le> timeout" if "ip_queue q = []"
  proof (rule ccontr)
    assume "\<not> 0 \<le> timeout"
    with w that have "port_wait True wakes p = Some (ins, outs, q)" by (auto split: if_splits)
    with that show False using port_wait_forever by blast
  qed
  show ?thesis
  proof (cases "ip_queue q")
    case Nil
    with q ok t show ?thesis by auto
  next
    case (Cons v vs)
    with q ok show ?thesis by (auto simp: port_ok_def port_size_def)
  qed
qed

lemma port_run_fifo:
  "port_ok cap p \<Longrightarrow> port_run ops p = Some (ins, outs, p') \<Longrightarrow>
    port_ok cap p' \<and> ip_queue p @ ins = outs @ ip_queue p'"
proof (induction ops arbitrary: p ins outs)
  case (Cons op ops)
  show ?case
  proof (cases op)
    case (PO_push v)
    show ?thesis
    proof (cases "port_put v p")
      case None
      with PO_push Cons show ?thesis by (auto simp: port_put_def port_push_def split: if_splits)
    next
      case (Some q)
      with PO_push Cons.prems(2) obtain ins' where r: "port_run ops q = Some (ins', outs, p')" "ins = v # ins'"
        by (auto simp: port_put_def port_push_def split: if_splits)
      from ipq.push_items [OF Cons.prems(1) Some] Cons.IH [OF _ r(1)] r(2) show ?thesis by auto
    qed
  next
    case PO_try_recv
    show ?thesis
    proof (cases "port_take p")
      case None
      with PO_try_recv Cons.prems Cons.IH [of p ins outs] show ?thesis
        by (auto simp: port_take_def port_try_recv_def split: list.splits)
    next
      case (Some vq)
      then obtain v q where s: "port_take p = Some (v, q)" by (cases vq) auto
      with PO_try_recv Cons.prems(2) obtain outs' where r: "port_run ops q = Some (ins, outs', p')" "outs = v # outs'"
        by (auto simp: port_take_def port_try_recv_def split: list.splits)
      from ipq.pop_items [OF Cons.prems(1) s] Cons.IH [OF _ r(1)] r(2) show ?thesis by auto
    qed
  next
    case (PO_recv wakes timeout)
    with Cons.prems(2) obtain r i u q where s: "port_recv wakes timeout p = Some (r, i, u, q)"
      by (auto split: option.splits)
    from port_recv_fifo [OF Cons.prems(1) s] have q: "port_ok cap q"
      and c: "(\<exists>v. r = Ok v \<and> ip_queue p @ i = u @ v # ip_queue q) \<or> (r = Err EC_NET_TIMEOUT \<and> ip_queue q = [] \<and> ip_queue p @ i = u)"
      by auto
    from c show ?thesis
    proof (elim disjE exE conjE)
      fix v assume v: "r = Ok v" "ip_queue p @ i = u @ v # ip_queue q"
      with PO_recv s Cons.prems(2) obtain ins' outs' where r: "port_run ops q = Some (ins', outs', p')" "ins = i @ ins'" "outs = u @ v # outs'"
        by auto
      with Cons.IH [OF q r(1)] v(2) show ?thesis by (metis append.assoc append_Cons)
    next
      assume v: "r = Err EC_NET_TIMEOUT" "ip_queue q = []" "ip_queue p @ i = u"
      with PO_recv s Cons.prems(2) obtain ins' outs' where r: "port_run ops q = Some (ins', outs', p')" "ins = i @ ins'" "outs = u @ outs'"
        by auto
      with Cons.IH [OF q r(1)] v(2,3) show ?thesis by (metis append.assoc append_Nil)
    qed
  qed
qed simp

text \<open>
  C34. Ports lose nothing: in any program of pushes, \<open>try_recv\<close> and blocking \<open>recv\<close> on a new
  port, with any activity of other producers and consumers while a \<open>recv\<close> waits, the accepted
  messages are exactly those delivered followed by those still queued, in order, and a port with
  a capacity never holds more.
\<close>

theorem port_exactly_once:
  "case port_run ops (input_port_new name ty cap ver) of
     None \<Rightarrow> True
   | Some (accepted, delivered, p) \<Rightarrow> accepted = delivered @ ip_queue p \<and> (cap = 0 \<or> port_size p \<le> cap)"
proof -
  have ok: "port_ok cap (input_port_new name ty cap ver)" "ip_queue (input_port_new name ty cap ver) = []"
    by (simp_all add: port_ok_def port_size_def input_port_new_def)
  show ?thesis
    using port_run_fifo [OF ok(1), of ops] by (fastforce simp: port_ok_def ok(2) split: option.split)
qed

section \<open>Output ports\<close>

text \<open>\<open>op_target\<close> is the pointer; an address without a port is a dangling pointer.\<close>

record output_port =
  op_info :: PortInfo
  op_target :: "nat option"

definition output_port_new :: "PortInfo \<Rightarrow> nat option \<Rightarrow> output_port" where
  "output_port_new info target = \<lparr>op_info = info, op_target = target\<rparr>"

definition set_target :: "nat option \<Rightarrow> output_port \<Rightarrow> output_port" where
  "set_target t o' = o'\<lparr>op_target := t\<rparr>"

definition port_try_send :: "'a \<Rightarrow> output_port \<Rightarrow> (nat \<rightharpoonup> 'a input_port) \<Rightarrow> (unit Result \<times> (nat \<rightharpoonup> 'a input_port)) option" where
  "port_try_send v o' ports = (case op_target o' of
      None \<Rightarrow> Some (Err EC_NET_NOT_CONNECTED, ports)
    | Some a \<Rightarrow> (case ports a of
          None \<Rightarrow> None
        | Some p \<Rightarrow> (case port_push v p of (r, p') \<Rightarrow> Some (r, ports(a \<mapsto> p')))))"

text \<open>A send changes the target's queue only, and only by the message at its end.\<close>

lemma port_try_send_cases:
  assumes "port_try_send v o' ports = Some (r, ports')"
  shows "(op_target o' = None \<and> r = Err EC_NET_NOT_CONNECTED \<and> ports' = ports) \<or>
    (\<exists>a p. op_target o' = Some a \<and> ports a = Some p \<and>
      ((port_put v p = None \<and> r = Err EC_RESOURCE_BUSY \<and> ports' = ports) \<or>
       (r = Ok () \<and> (\<exists>p'. port_put v p = Some p' \<and> ports' = ports(a \<mapsto> p')))))"
proof (cases "op_target o'")
  case (Some a)
  with assms obtain p where "ports a = Some p" by (auto simp: port_try_send_def split: option.splits)
  with Some assms show ?thesis
    by (auto simp: port_try_send_def port_put_def port_push_def map_upd_triv split: if_splits)
qed (use assms in \<open>simp add: port_try_send_def\<close>)

section \<open>The life cycle of a node\<close>

datatype LifecycleState = LC_Init | LC_Starting | LC_Running | LC_Reloading | LC_Stopping | LC_Stopped

fun lifecycle_number :: "LifecycleState \<Rightarrow> nat" where
  "lifecycle_number LC_Init = 0"
| "lifecycle_number LC_Starting = 1"
| "lifecycle_number LC_Running = 2"
| "lifecycle_number LC_Reloading = 3"
| "lifecycle_number LC_Stopping = 4"
| "lifecycle_number LC_Stopped = 5"

fun lifecycle_to_string :: "LifecycleState \<Rightarrow> string" where
  "lifecycle_to_string LC_Init = ''INIT''"
| "lifecycle_to_string LC_Starting = ''STARTING''"
| "lifecycle_to_string LC_Running = ''RUNNING''"
| "lifecycle_to_string LC_Reloading = ''RELOADING''"
| "lifecycle_to_string LC_Stopping = ''STOPPING''"
| "lifecycle_to_string LC_Stopped = ''STOPPED''"

text \<open>The enumeration's order.\<close>

instantiation LifecycleState :: linorder
begin

definition less_eq_LifecycleState :: "LifecycleState \<Rightarrow> LifecycleState \<Rightarrow> bool" where
  "less_eq_LifecycleState a b = (lifecycle_number a \<le> lifecycle_number b)"

definition less_LifecycleState :: "LifecycleState \<Rightarrow> LifecycleState \<Rightarrow> bool" where
  "less_LifecycleState a b = (lifecycle_number a < lifecycle_number b)"

instance
proof
  fix a b :: LifecycleState
  show "a \<le> b \<Longrightarrow> b \<le> a \<Longrightarrow> a = b"
    by (cases a; cases b) (simp_all add: less_eq_LifecycleState_def)
qed (auto simp: less_eq_LifecycleState_def less_LifecycleState_def)

end

lemma lifecycle_names: "lifecycle_to_string a = lifecycle_to_string b \<longleftrightarrow> a = b"
  by (cases a; cases b) simp_all

record NodeConfig =
  nc_node_id :: string
  nc_worker_threads :: u32
  nc_rate_limit_per_sec :: u64

record node_base =
  nb_name :: string
  nb_state :: LifecycleState

definition node_base_new :: "string \<Rightarrow> node_base" where
  "node_base_new name = \<lparr>nb_name = name, nb_state = LC_Init\<rparr>"

definition node_state :: "'a node_base_scheme \<Rightarrow> LifecycleState" where
  "node_state n = nb_state n"

definition set_state :: "LifecycleState \<Rightarrow> 'a node_base_scheme \<Rightarrow> 'a node_base_scheme" where
  "set_state s n = n\<lparr>nb_state := s\<rparr>"

section \<open>The scheduler\<close>

text \<open>Its whole state is the callback; an empty \<open>std::function\<close> is \<open>None\<close>.\<close>

type_synonym whitelist_check = "(string \<Rightarrow> string \<Rightarrow> bool) option"

definition set_whitelist_check :: "whitelist_check \<Rightarrow> whitelist_check \<Rightarrow> whitelist_check" where
  "set_whitelist_check cb s = cb"

definition schedule :: "whitelist_check \<Rightarrow> string \<Rightarrow> string \<Rightarrow> unit Result" where
  "schedule check node_id target_host = (case check of
      Some f \<Rightarrow> if \<not> f [] [] then Err EC_BIZ_AUTH_UNTRUSTED else Ok ()
    | None \<Rightarrow> Ok ())"

definition is_allowed :: "whitelist_check \<Rightarrow> string \<Rightarrow> string \<Rightarrow> bool" where
  "is_allowed check target source = (case check of None \<Rightarrow> False | Some f \<Rightarrow> f target source)"

text \<open>
  The two entry points disagree: with a callback that admits some pairs, \<open>schedule\<close> still asks
  about the empty names only; without a callback \<open>schedule\<close> admits all and \<open>is_allowed\<close> none.
\<close>

lemma schedule_ignores_target: "schedule check n h = schedule check n' h'"
  by (simp add: schedule_def)

lemma schedule_without_check: "schedule None n h = Ok () \<and> \<not> is_allowed None h n"
  by (simp add: schedule_def is_allowed_def)

end
