(* ===== verification/Executor.thy ===== *)
theory Executor
  imports Text_Codec Step_Systems
begin

text \<open>
  \<open>src/ability_c/executor/process_executor.*\<close>: running an allowed program and collecting its
  output. What the operating system answers is an argument: whether the two pipes and the
  process can be created, and what the process writes and how it ends.

  The exchange of the two processes over the pipes is a step relation: the child writes its two
  streams and closes them in the order of its program and blocks on a full pipe, the parent reads
  the standard output to its end, then the standard error, and then waits for the child. For a
  child that makes finitely many writes it is shown that the call returns with exactly what the
  child wrote if what goes to the standard error before the standard output is closed fits into
  the pipe, and that otherwise the two wait for each other for ever. Reads that fail are not
  modelled.
\<close>

section \<open>Execution\<close>

record ExecOptions =
  eo_executable :: string
  eo_args :: "string list"
  eo_timeout_ms :: u32
  eo_allowed_executables :: "string list"

record ExecResult =
  er_exit_code :: int
  er_stdout_text :: bytes
  er_stderr_text :: bytes
  er_elapsed_ns :: u64

definition exec_options_default :: ExecOptions where
  "exec_options_default = \<lparr>eo_executable = [], eo_args = [], eo_timeout_ms = 5000, eo_allowed_executables = []\<rparr>"

definition exec_result_default :: ExecResult where
  "exec_result_default = \<lparr>er_exit_code = - 1, er_stdout_text = [], er_stderr_text = [], er_elapsed_ns = 0\<rparr>"

definition in_whitelist :: "string \<Rightarrow> string list \<Rightarrow> bool" where
  "in_whitelist exe allow = (if allow = [] then False else list_ex (\<lambda>a. a = exe) allow)"

text \<open>What \<open>c_str()\<close> shows to the operating system: the characters before the first NUL.\<close>

definition c_str :: "string \<Rightarrow> string" where
  "c_str s = takeWhile (\<lambda>c. c \<noteq> CHR 0x00) s"

datatype wait_status = Exited int | Signalled

text \<open>
  \<open>pipe1\<close>, \<open>pipe2\<close>: whether the two \<open>pipe\<close> calls succeed. \<open>spawn\<close>: what
  \<open>posix_spawnp\<close> answers for a program and its argument vector, \<open>None\<close> if it fails, otherwise
  the two streams up to their ends and the status. The results: the answer, the programs
  started, and the number of descriptors still open.
\<close>

definition execute :: "bool \<Rightarrow> bool \<Rightarrow> (string \<Rightarrow> string list \<Rightarrow> (bytes \<times> bytes \<times> wait_status) option) \<Rightarrow> u64 \<Rightarrow> ExecOptions
    \<Rightarrow> ExecResult Result \<times> (string \<times> string list) list \<times> nat" where
  "execute pipe1 pipe2 spawn elapsed opts =
     (if eo_executable opts = [] then (Err EC_INVALID_ARG, [], 0)
      else if \<not> in_whitelist (eo_executable opts) (eo_allowed_executables opts) then (Err EC_BIZ_AUTH_UNTRUSTED, [], 0)
      else if \<not> pipe1 then (Err EC_INTERNAL, [], 0)
      else if \<not> pipe2 then (Err EC_INTERNAL, [], 2)
      else
        let exe = c_str (eo_executable opts);
            argv = exe # map c_str (eo_args opts) in
        case spawn exe argv of
          None \<Rightarrow> (Err EC_INTERNAL, [], 0)
        | Some (out, err, status) \<Rightarrow>
            (Ok \<lparr>er_exit_code = (case status of Exited c \<Rightarrow> c | Signalled \<Rightarrow> - 1),
                 er_stdout_text = out, er_stderr_text = err, er_elapsed_ns = elapsed\<rparr>, [(exe, argv)], 0))"

text \<open>A process is started only for a name that is on the list, and that name is its \<open>argv[0]\<close>.\<close>

lemma execute_spawns:
  "snd (execute pipe1 pipe2 spawn elapsed opts) = (started, fds) \<Longrightarrow>
    started \<noteq> [] \<Longrightarrow> eo_executable opts \<in> set (eo_allowed_executables opts) \<and>
    started = [(c_str (eo_executable opts), map c_str (eo_executable opts # eo_args opts))]"
  by (auto simp: execute_def in_whitelist_def Let_def list_ex_iff split: if_splits option.splits)

lemma execute_denies: "eo_allowed_executables opts = [] \<Longrightarrow> is_err (fst (execute pipe1 pipe2 spawn elapsed opts))"
  by (simp add: execute_def in_whitelist_def)

text \<open>The descriptors of the first pipe stay open when the second cannot be made.\<close>

lemma execute_leaks:
  "snd (snd (execute pipe1 pipe2 spawn elapsed opts)) =
    (if eo_executable opts \<noteq> [] \<and> eo_executable opts \<in> set (eo_allowed_executables opts) \<and> pipe1 \<and> \<not> pipe2 then 2 else 0)"
  by (auto simp: execute_def in_whitelist_def Let_def list_ex_iff split: option.splits)

section \<open>The two processes\<close>

datatype child_act = W_out byte | W_err byte | Close_out | Close_err

datatype read_phase = Reading_out | Reading_err | Waiting | Reaped

record pipes =
  pp_child :: "child_act list"
  pp_out_open :: bool
  pp_err_open :: bool
  pp_out :: bytes
  pp_err :: bytes
  pp_phase :: read_phase
  pp_stdout_text :: bytes
  pp_stderr_text :: bytes

definition pipes_start :: "child_act list \<Rightarrow> pipes" where
  "pipes_start prog = \<lparr>pp_child = prog, pp_out_open = True, pp_err_open = True, pp_out = [], pp_err = [],
     pp_phase = Reading_out, pp_stdout_text = [], pp_stderr_text = []\<rparr>"

text \<open>What a child writes to each stream before it closes it; a write to a closed stream fails.\<close>

fun out_bytes :: "child_act list \<Rightarrow> bytes" where
  "out_bytes (W_out b # p) = b # out_bytes p"
| "out_bytes (Close_out # p) = []"
| "out_bytes (_ # p) = out_bytes p"
| "out_bytes [] = []"

fun err_bytes :: "child_act list \<Rightarrow> bytes" where
  "err_bytes (W_err b # p) = b # err_bytes p"
| "err_bytes (Close_err # p) = []"
| "err_bytes (_ # p) = err_bytes p"
| "err_bytes [] = []"

text \<open>What it writes to the standard error while the standard output is open.\<close>

definition err_first :: "child_act list \<Rightarrow> bytes" where
  "err_first p = err_bytes (takeWhile (\<lambda>a. a \<noteq> Close_out) p)"

text \<open>
  \<open>cap\<close> is the size of a pipe. A read takes any positive number of the bytes there, at most
  the buffer's 4096; it answers the end of the stream when the pipe is empty and the child has
  closed its end or has ended. \<open>waitpid\<close> waits for the end of the child.
\<close>

inductive pstep :: "nat \<Rightarrow> pipes \<Rightarrow> pipes \<Rightarrow> bool" for cap where
  child_out: "\<lbrakk>pp_child s = W_out b # rest; pp_out_open s; length (pp_out s) < cap\<rbrakk> \<Longrightarrow>
     pstep cap s (s\<lparr>pp_child := rest, pp_out := pp_out s @ [b]\<rparr>)"
| child_err: "\<lbrakk>pp_child s = W_err b # rest; pp_err_open s; length (pp_err s) < cap\<rbrakk> \<Longrightarrow>
     pstep cap s (s\<lparr>pp_child := rest, pp_err := pp_err s @ [b]\<rparr>)"
| child_out_closed: "\<lbrakk>pp_child s = W_out b # rest; \<not> pp_out_open s\<rbrakk> \<Longrightarrow> pstep cap s (s\<lparr>pp_child := rest\<rparr>)"
| child_err_closed: "\<lbrakk>pp_child s = W_err b # rest; \<not> pp_err_open s\<rbrakk> \<Longrightarrow> pstep cap s (s\<lparr>pp_child := rest\<rparr>)"
| close_out: "pp_child s = Close_out # rest \<Longrightarrow> pstep cap s (s\<lparr>pp_child := rest, pp_out_open := False\<rparr>)"
| close_err: "pp_child s = Close_err # rest \<Longrightarrow> pstep cap s (s\<lparr>pp_child := rest, pp_err_open := False\<rparr>)"
| read_out: "\<lbrakk>pp_phase s = Reading_out; 0 < n; n \<le> length (pp_out s); n \<le> 4096\<rbrakk> \<Longrightarrow>
     pstep cap s (s\<lparr>pp_out := drop n (pp_out s), pp_stdout_text := pp_stdout_text s @ take n (pp_out s)\<rparr>)"
| out_eof: "\<lbrakk>pp_phase s = Reading_out; pp_out s = []; pp_child s = [] \<or> \<not> pp_out_open s\<rbrakk> \<Longrightarrow>
     pstep cap s (s\<lparr>pp_phase := Reading_err\<rparr>)"
| read_err: "\<lbrakk>pp_phase s = Reading_err; 0 < n; n \<le> length (pp_err s); n \<le> 4096\<rbrakk> \<Longrightarrow>
     pstep cap s (s\<lparr>pp_err := drop n (pp_err s), pp_stderr_text := pp_stderr_text s @ take n (pp_err s)\<rparr>)"
| err_eof: "\<lbrakk>pp_phase s = Reading_err; pp_err s = []; pp_child s = [] \<or> \<not> pp_err_open s\<rbrakk> \<Longrightarrow>
     pstep cap s (s\<lparr>pp_phase := Waiting\<rparr>)"
| reaped: "\<lbrakk>pp_phase s = Waiting; pp_child s = []\<rbrakk> \<Longrightarrow> pstep cap s (s\<lparr>pp_phase := Reaped\<rparr>)"

definition phases_left :: "read_phase \<Rightarrow> nat" where
  "phases_left p = (case p of Reading_out \<Rightarrow> 3 | Reading_err \<Rightarrow> 2 | Waiting \<Rightarrow> 1 | Reaped \<Rightarrow> 0)"

definition pipes_measure :: "pipes \<Rightarrow> nat" where
  "pipes_measure s = 2 * length (pp_child s) + length (pp_out s) + length (pp_err s) + phases_left (pp_phase s)"

lemma pstep_measure: "pstep cap s t \<Longrightarrow> pipes_measure t < pipes_measure s"
  by (induction rule: pstep.induct) (auto simp: pipes_measure_def phases_left_def)

text \<open>What is still to come on the two streams, and on the standard error while both are open.\<close>

definition out_left :: "pipes \<Rightarrow> bytes" where
  "out_left s = (if pp_out_open s then out_bytes (pp_child s) else [])"

definition err_left :: "pipes \<Rightarrow> bytes" where
  "err_left s = (if pp_err_open s then err_bytes (pp_child s) else [])"

definition first_left :: "pipes \<Rightarrow> bytes" where
  "first_left s = (if pp_err_open s then err_first (pp_child s) else [])"

definition pipes_inv :: "nat \<Rightarrow> child_act list \<Rightarrow> pipes \<Rightarrow> bool" where
  "pipes_inv cap prog s = (
     pp_stdout_text s @ pp_out s @ out_left s = out_bytes prog \<and>
     pp_stderr_text s @ pp_err s @ err_left s = err_bytes prog \<and>
     length (pp_err s) \<le> cap \<and>
     (case pp_phase s of
        Reading_out \<Rightarrow> pp_stderr_text s = [] \<and>
          (if pp_out_open s then pp_err s @ first_left s = err_first prog else length (err_first prog) \<le> cap)
      | p \<Rightarrow> length (err_first prog) \<le> cap \<and> pp_out s = [] \<and> (pp_child s = [] \<or> \<not> pp_out_open s) \<and>
          (p = Reading_err \<or> pp_err s = [] \<and> (pp_child s = [] \<or> \<not> pp_err_open s)) \<and> (p = Reaped \<longrightarrow> pp_child s = [])))"

lemma err_first_simps [simp]:
  "err_first [] = []" "err_first (W_out b # p) = err_first p" "err_first (W_err b # p) = b # err_first p"
  "err_first (Close_out # p) = []" "err_first (Close_err # p) = []"
  by (simp_all add: err_first_def)

lemma pipes_inv_start: "pipes_inv cap prog (pipes_start prog)"
  by (simp add: pipes_inv_def pipes_start_def out_left_def err_left_def first_left_def)

lemma take_drop_append: "take n xs @ drop n xs @ ys = xs @ ys"
  by (metis append.assoc append_take_drop_id)

lemma pipes_inv_step: "pstep cap s t \<Longrightarrow> pipes_inv cap prog s \<Longrightarrow> pipes_inv cap prog t"
proof (induction rule: pstep.induct)
  case (close_out s rest)
  then have "pp_err s = err_first prog" if "pp_phase s = Reading_out" "pp_out_open s"
    using that by (cases "pp_err_open s") (auto simp: pipes_inv_def first_left_def)
  with close_out show ?case
    by (cases "pp_out_open s"; cases "pp_err_open s")
      (auto simp: pipes_inv_def out_left_def err_left_def first_left_def split: read_phase.splits)
next
  case (out_eof s)
  then have "pp_err s = err_first prog" if "pp_out_open s"
    using that by (cases "pp_err_open s") (auto simp: pipes_inv_def first_left_def)
  with out_eof show ?case by (auto simp: pipes_inv_def out_left_def err_left_def first_left_def)
qed (auto simp: pipes_inv_def out_left_def err_left_def first_left_def take_drop_append split: read_phase.splits if_splits)

interpretation pipe_sys: ranked_system "pstep cap" "pipes_start prog" "pipes_inv cap prog" "\<lambda>_. True" pipes_measure
  for cap prog
  by unfold_locales (auto intro: pipes_inv_start pipes_inv_step pstep_measure)

text \<open>A child that can neither go on nor has ended waits to write to a full pipe.\<close>

lemma child_waits:
  assumes "\<And>t. \<not> pstep cap s t" "pp_child s \<noteq> []"
  shows "(\<exists>b rest. pp_child s = W_out b # rest \<and> pp_out_open s \<and> cap \<le> length (pp_out s)) \<or>
    (\<exists>b rest. pp_child s = W_err b # rest \<and> pp_err_open s \<and> cap \<le> length (pp_err s))"
proof -
  obtain a rest where a: "pp_child s = a # rest" using assms(2) by (cases "pp_child s") auto
  then show ?thesis
    using assms(1) child_out [of s _ rest cap] child_err [of s _ rest cap] child_out_closed [of s _ rest cap]
      child_err_closed [of s _ rest cap] close_out [of s rest cap] close_err [of s rest cap]
    by (cases a) (auto simp: not_less [symmetric])
qed

text \<open>A state without a next step has collected everything, or the child waits to write to its standard error.\<close>

lemma pipes_stuck:
  assumes "pipes_inv cap prog s" "0 < cap" "\<And>t. \<not> pstep cap s t"
  shows "pp_phase s = Reaped \<or> (pp_phase s = Reading_out \<and> length (err_first prog) > cap)"
proof (cases "pp_phase s")
  case Reading_out
  have out: "pp_out s = []"
  proof (rule ccontr)
    assume "pp_out s \<noteq> []"
    then show False using assms(3) read_out [OF Reading_out, of 1 cap] by (auto simp: Suc_le_eq)
  qed
  then have "pp_child s \<noteq> []" and o: "pp_out_open s" using assms(3) out_eof [OF Reading_out] by auto
  then obtain b rest where "pp_child s = W_err b # rest" "pp_err_open s" "cap \<le> length (pp_err s)"
    using child_waits [OF assms(3)] out assms(2) by auto
  with assms(1) Reading_out o have "length (err_first prog) > cap"
    by (auto simp: pipes_inv_def first_left_def dest!: arg_cong [of _ "err_first prog" length])
  with Reading_out show ?thesis by simp
next
  case Reading_err
  have "pp_err s = []"
  proof (rule ccontr)
    assume "pp_err s \<noteq> []"
    then show False using assms(3) read_err [OF Reading_err, of 1 cap] by (auto simp: Suc_le_eq)
  qed
  moreover from this have "pp_child s \<noteq> []" using assms(3) err_eof [OF Reading_err] by auto
  ultimately show ?thesis using child_waits [OF assms(3)] assms(1,2) Reading_err by (auto simp: pipes_inv_def)
next
  case Waiting
  then have "pp_child s \<noteq> []" using assms(3) reaped [of s cap] by auto
  then show ?thesis using child_waits [OF assms(3)] assms(1) Waiting by (auto simp: pipes_inv_def)
qed simp

lemma reaped_collected:
  assumes "(pstep cap)\<^sup>*\<^sup>* (pipes_start prog) s" "pp_phase s = Reaped"
  shows "pp_stdout_text s = out_bytes prog \<and> pp_stderr_text s = err_bytes prog \<and> length (err_first prog) \<le> cap"
  using pipe_sys.reachable_inv [OF assms(1)] assms(2)
  by (auto simp: pipes_inv_def out_left_def err_left_def split: if_splits)



text \<open>
  C33. The executor can hang: parent and child get stuck waiting for each other in some run if and
  only if the child writes more to its standard error, before it closes its standard output, than
  the pipe holds; in that case the parent never returns in any run.
\<close>

theorem executor_hangs_iff:
  assumes "0 < cap"
  shows "({s. (pstep cap)\<^sup>*\<^sup>* (pipes_start prog) s \<and> pp_phase s \<noteq> Reaped \<and> {t. pstep cap s t} = {}} \<noteq> {}
      \<longleftrightarrow> length (err_first prog) > cap) \<and>
    ({s. (pstep cap)\<^sup>*\<^sup>* (pipes_start prog) s \<and> pp_phase s = Reaped} = {} \<longleftrightarrow> length (err_first prog) > cap)"
proof -
  obtain t where t: "(pstep cap)\<^sup>*\<^sup>* (pipes_start prog) t" "{u. pstep cap t u} = {}"
    using pipe_sys.leads_out [OF pipes_inv_start] by blast
  have stuck: "pp_phase s = Reaped \<or> (pp_phase s = Reading_out \<and> length (err_first prog) > cap)"
    if "(pstep cap)\<^sup>*\<^sup>* (pipes_start prog) s" "{u. pstep cap s u} = {}" for s
    using pipes_stuck [OF pipe_sys.reachable_inv [OF that(1)] assms] that(2) by auto
  show ?thesis
  proof (cases "length (err_first prog) > cap")
    case True
    then have "pp_phase t \<noteq> Reaped" using reaped_collected [OF t(1)] by auto
    with t True reaped_collected show ?thesis by fastforce
  next
    case False
    then have "pp_phase t = Reaped" using stuck [OF t] by simp
    with t(1) False stuck show ?thesis by blast
  qed
qed

lemma executor_hangs_iff_witness:
  "({s. (pstep 2)\<^sup>*\<^sup>* (pipes_start (replicate 3 (W_err 7))) s \<and> pp_phase s = Reaped} = {}) \<and>
   ({s. (pstep 3)\<^sup>*\<^sup>* (pipes_start (replicate 3 (W_err 7))) s \<and> pp_phase s = Reaped} \<noteq> {})"
  using executor_hangs_iff [of 2 "replicate 3 (W_err 7)"] executor_hangs_iff [of 3 "replicate 3 (W_err 7)"]
  by (simp add: numeral_eq_Suc)

text \<open>For a child that closes nothing all of its standard error counts.\<close>

lemma err_first_all: "Close_out \<notin> set prog \<Longrightarrow> err_first prog = err_bytes prog"
  by (auto simp: err_first_def intro!: arg_cong [of _ _ err_bytes] takeWhile_eq_all_conv [THEN iffD2])

end
