(* ===== verification/Nodes.thy ===== *)
theory Nodes
  imports Dataflow Executor Posix_File
begin

text \<open>
  \<open>src/ability_c/nodes/\<close> and \<open>messages.hpp\<close>: the four nodes. Three of them run a worker
  thread; their start, stop and reload are the same text in the code and one definition here.
  The workers that receive, handle and answer are one loop over the handler; an iteration is
  given by what arrives while it waits and by what the operating system answers.

  Shown: what the lifecycle reports and when it is wrong; that requests are answered once each,
  in order, and only listed programs are started; that a file sent in blocks is put together
  whatever the order of the blocks, and that only allowed paths are written.
\<close>

section \<open>Messages\<close>

record CmdRequest =
  cq_command :: string
  cq_args :: "string list"
  cq_timeout_ms :: u32

record CmdResult =
  cr_exit_code :: int
  cr_stdout_text :: bytes
  cr_stderr_text :: bytes
  cr_elapsed_ns :: u64

record FileChunk =
  fc_path :: string
  fc_offset :: u64
  fc_data :: bytes
  fc_is_last :: bool

record FileAck =
  fa_path :: string
  fa_offset :: u64
  fa_ok :: bool

record Heartbeat_msg =
  hb_node_id :: string
  hb_timestamp_ns :: int

record NetInterfaceQuery =
  nq_ifname :: string

record NetInterfaceSet =
  ns_ifname :: string
  ns_up :: bool
  ns_address :: string

record NetInterfaceResult =
  nr_ifname :: string
  nr_address :: string
  nr_up :: bool
  nr_mtu :: int

section \<open>The lifecycle of a node with a worker\<close>

text \<open>\<open>wn_worker\<close>: the thread object holds a thread.\<close>

record worker_node = node_base +
  wn_running :: bool
  wn_worker :: bool

definition worker_init :: "'a worker_node_scheme \<Rightarrow> unit Result \<times> 'a worker_node_scheme" where
  "worker_init n = (Ok (), set_state LC_Init n)"

definition worker_start :: "'a worker_node_scheme \<Rightarrow> unit Result \<times> 'a worker_node_scheme" where
  "worker_start n =
     (if wn_running n then (Err EC_RESOURCE_BUSY, n)
      else (Ok (), set_state LC_Running (n\<lparr>wn_running := True, wn_worker := True\<rparr>)))"

text \<open>Joining waits for the worker, whose loop ends because \<open>running_\<close> is false.\<close>

definition worker_stop :: "'a worker_node_scheme \<Rightarrow> unit Result \<times> 'a worker_node_scheme" where
  "worker_stop n =
     (if \<not> wn_running n then (Ok (), set_state LC_Stopped n)
      else let n = n\<lparr>wn_running := False\<rparr>;
               n = (if wn_worker n then n\<lparr>wn_worker := False\<rparr> else n) in
        (Ok (), set_state LC_Stopped n))"

definition node_reload :: "'a node_base_scheme \<Rightarrow> unit Result \<times> 'a node_base_scheme" where
  "node_reload n = (Ok (), set_state LC_Running (set_state LC_Reloading n))"

datatype node_op = N_init | N_start | N_stop | N_reload

fun node_step :: "node_op \<Rightarrow> 'a worker_node_scheme \<Rightarrow> 'a worker_node_scheme" where
  "node_step N_init n = snd (worker_init n)"
| "node_step N_start n = snd (worker_start n)"
| "node_step N_stop n = snd (worker_stop n)"
| "node_step N_reload n = snd (node_reload n)"

definition node_ok :: "'a worker_node_scheme \<Rightarrow> bool" where
  "node_ok n = (wn_worker n = wn_running n \<and> node_state n \<in> {LC_Init, LC_Running, LC_Stopped})"

lemmas node_defs = worker_init_def worker_start_def worker_stop_def node_reload_def set_state_def node_state_def

interpretation node_sys: guarded_system node_ok node_step
proof
  fix s :: "'a worker_node_scheme" and l
  show "node_ok s \<Longrightarrow> node_ok (node_step l s)"
    by (cases l) (auto simp: node_ok_def node_defs Let_def)
qed

definition worker_node_new :: "string \<Rightarrow> worker_node" where
  "worker_node_new name = node_base.extend (node_base_new name) (worker_node.fields False False)"

lemma worker_node_new [simp]:
  "wn_running (worker_node_new name) = False" "wn_worker (worker_node_new name) = False"
  "nb_state (worker_node_new name) = LC_Init" "nb_name (worker_node_new name) = name"
  by (simp_all add: worker_node_new_def node_base_new_def worker_node.defs node_base.defs)

text \<open>Started and not stopped since.\<close>

definition started :: "node_op list \<Rightarrow> bool" where
  "started ops = fold (\<lambda>op r. case op of N_start \<Rightarrow> True | N_stop \<Rightarrow> False | _ \<Rightarrow> r) ops False"

text \<open>\<open>init\<close> is called only while the node is stopped and \<open>reload\<close> only while it is started.\<close>

fun disciplined :: "bool \<Rightarrow> node_op list \<Rightarrow> bool" where
  "disciplined r [] = True"
| "disciplined r (N_init # ops) = (\<not> r \<and> disciplined r ops)"
| "disciplined r (N_start # ops) = disciplined True ops"
| "disciplined r (N_stop # ops) = disciplined False ops"
| "disciplined r (N_reload # ops) = (r \<and> disciplined r ops)"

lemma node_running:
  "wn_running (fold node_step ops n) = fold (\<lambda>op r. case op of N_start \<Rightarrow> True | N_stop \<Rightarrow> False | _ \<Rightarrow> r) ops (wn_running n)"
proof (induction ops arbitrary: n)
  case (Cons op ops)
  then show ?case by (cases op) (simp_all add: node_defs Let_def)
qed simp

lemma node_disciplined:
  "disciplined (wn_running n) ops \<Longrightarrow> (nb_state n = LC_Running) = wn_running n \<Longrightarrow>
    (nb_state (fold node_step ops n) = LC_Running) = wn_running (fold node_step ops n)"
proof (induction ops arbitrary: n)
  case (Cons op ops)
  have "disciplined (wn_running (node_step op n)) ops \<and> (nb_state (node_step op n) = LC_Running) = wn_running (node_step op n)"
    using Cons.prems by (cases op) (auto simp: node_defs Let_def)
  then show ?case using Cons.IH by simp
qed simp

text \<open>
  The lifecycle: after any sequence of calls there is a worker thread exactly if the node
  was started and not stopped since, and between the calls only three of the six states are
  seen; if \<open>init\<close> is called on stopped and \<open>reload\<close> on started nodes only, the state is
  \<open>Running\<close> exactly if the worker runs. A \<open>reload\<close> of a stopped node breaks that, and so does
  an \<open>init\<close> of a running one.
\<close>

theorem node_lifecycle:
  assumes "disciplined False ops"
  shows "(let n = fold node_step ops (worker_node_new name) in
      wn_running n = started ops \<and> wn_worker n = started ops \<and>
      (node_state n = LC_Running) = started ops \<and> node_state n \<in> {LC_Init, LC_Running, LC_Stopped}) \<and>
    (let n = node_step N_reload (fold node_step (ops @ [N_stop]) (worker_node_new name)) in
      node_state n = LC_Running \<and> \<not> wn_worker n) \<and>
    (let n = node_step N_init (fold node_step (ops @ [N_start]) (worker_node_new name)) in
      node_state n \<noteq> LC_Running \<and> wn_worker n)"
proof -
  have ok: "node_ok (fold node_step ops' (worker_node_new name))" for ops'
    by (rule node_sys.fold_ok) (simp add: node_ok_def node_state_def)
  have r: "wn_running (fold node_step ops' (worker_node_new name)) = started ops'" for ops'
    by (simp add: node_running started_def)
  have w: "wn_worker (fold node_step ops' (worker_node_new name)) = started ops'" for ops'
    using ok [of ops'] r [of ops'] by (simp add: node_ok_def)
  have s: "started (ops @ [N_start])" "\<not> started (ops @ [N_stop])" by (simp_all add: started_def)
  have "(node_state (fold node_step ops (worker_node_new name)) = LC_Running) = started ops"
    using node_disciplined [of "worker_node_new name" ops] assms r [of ops] by (simp add: node_state_def)
  moreover have "node_state (node_step N_reload n) = LC_Running" "wn_worker (node_step N_reload n) = wn_worker n"
    "node_state (node_step N_init n) = LC_Init" "wn_worker (node_step N_init n) = wn_worker n" for n :: worker_node
    by (simp_all add: node_defs)
  ultimately show ?thesis
    unfolding Let_def using ok [of ops] r w s by (simp add: node_ok_def del: node_step.simps fold_append)
qed

lemma node_lifecycle_witness:
  "let n = fold node_step [N_init, N_start, N_start, N_reload] (worker_node_new ''cmd_exec'') in
     wn_worker n \<and> node_state n = LC_Running"
  using node_lifecycle [of "[N_init, N_start, N_start, N_reload]" "''cmd_exec''"]
  by (simp add: Let_def started_def)

section \<open>The worker loop\<close>

text \<open>
  One iteration: wait at most 100 ms for a request, handle it, offer the answer to the output
  port, whose verdict is ignored. An iteration is given by what others push while it waits and
  the operating system's part. The results: what arrived, and the requests served.
\<close>

fun worker_loop :: "('i \<Rightarrow> 'q \<Rightarrow> 'w \<Rightarrow> 'r \<times> 'w) \<Rightarrow> output_port \<Rightarrow> ('q list list \<times> 'i) list
    \<Rightarrow> 'q input_port \<times> 'w \<times> (nat \<rightharpoonup> 'r input_port)
    \<Rightarrow> ('q list \<times> ('i \<times> 'q) list \<times> 'q input_port \<times> 'w \<times> (nat \<rightharpoonup> 'r input_port)) option" where
  "worker_loop handle out [] (p, w, ports) = Some ([], [], p, w, ports)"
| "worker_loop handle out ((wakes, i) # its) (p, w, ports) =
     (case port_recv (map (map Push) wakes) 100 p of
        None \<Rightarrow> None
      | Some (Ok req, ins, _, p) \<Rightarrow> (case handle i req w of (r, w) \<Rightarrow>
          (case port_try_send r out ports of
             None \<Rightarrow> None
           | Some (_, ports) \<Rightarrow> map_option (\<lambda>(arr, served, st). (ins @ arr, (i, req) # served, st))
               (worker_loop handle out its (p, w, ports))))
      | Some (_, ins, _, p) \<Rightarrow> map_option (\<lambda>(arr, served, st). (ins @ arr, served, st))
          (worker_loop handle out its (p, w, ports)))"

fun replies :: "('i \<Rightarrow> 'q \<Rightarrow> 'w \<Rightarrow> 'r \<times> 'w) \<Rightarrow> ('i \<times> 'q) list \<Rightarrow> 'w \<Rightarrow> 'r list \<times> 'w" where
  "replies handle [] w = ([], w)"
| "replies handle ((i, req) # served) w = (case handle i req w of (r, w) \<Rightarrow>
     (case replies handle served w of (rs, w) \<Rightarrow> (r # rs, w)))"

text \<open>Requests are served in order, each once; without a limit on the receiver every answer arrives, in order.\<close>

lemma worker_loop_spec:
  assumes "worker_loop handle out its (p, w, ports) = Some (arr, served, p', w', ports')"
    and "op_target out = Some a" "ports a = Some q" "ip_capacity q = 0" "port_ok cap p"
  shows "ip_queue p @ arr = map snd served @ ip_queue p' \<and> w' = snd (replies handle served w) \<and>
    ports' = ports(a \<mapsto> q\<lparr>ip_queue := ip_queue q @ fst (replies handle served w)\<rparr>)"
  using assms
proof (induction its arbitrary: p w ports q arr served)
  case Nil
  then show ?case by (simp add: map_upd_triv)
next
  case (Cons it its)
  obtain wakes i where it: "it = (wakes, i)" by (cases it)
  obtain r ins outs p1 where rv: "port_recv (map (map Push) wakes) 100 p = Some (r, ins, outs, p1)"
    using port_recv_timed [of 100 "map (map Push) wakes" p] by auto
  note outs = port_recv_pushes [OF rv]
  note fifo = port_recv_fifo [OF Cons.prems(5) rv, unfolded outs]
  show ?case
  proof (cases r)
    case (Ok req)
    obtain rep w1 where h: "handle i req w = (rep, w1)" by (cases "handle i req w")
    let ?q = "q\<lparr>ip_queue := ip_queue q @ [rep]\<rparr>"
    have snd: "port_try_send rep out ports = Some (Ok (), ports(a \<mapsto> ?q))"
      using Cons.prems(2-4) by (simp add: port_try_send_def port_push_def)
    obtain arr1 served1 where l: "worker_loop handle out its (p1, w1, ports(a \<mapsto> ?q)) = Some (arr1, served1, p', w', ports')"
      "arr = ins @ arr1" "served = (i, req) # served1"
      using Cons.prems(1) by (auto simp: it rv Ok h snd)
    have "ip_queue p1 @ arr1 = map snd served1 @ ip_queue p' \<and> w' = snd (replies handle served1 w1) \<and>
        ports' = (ports(a \<mapsto> ?q))(a \<mapsto> ?q\<lparr>ip_queue := ip_queue ?q @ fst (replies handle served1 w1)\<rparr>)"
      by (rule Cons.IH [OF l(1) Cons.prems(2)]) (use Cons.prems fifo in simp_all)
    moreover have "ip_queue p @ ins = req # ip_queue p1" using fifo Ok by simp
    ultimately show ?thesis
      using l(2,3) by (auto simp: h split: prod.splits) (metis append_assoc append_Cons)
  next
    case Uninitialized
    with fifo show ?thesis by auto
  next
    case (Err e)
    obtain arr1 where l: "worker_loop handle out its (p1, w, ports) = Some (arr1, served, p', w', ports')" "arr = ins @ arr1"
      using Cons.prems(1) by (auto simp: it rv Err)
    have "ip_queue p1 @ arr1 = map snd served @ ip_queue p' \<and> w' = snd (replies handle served w) \<and>
        ports' = ports(a \<mapsto> q\<lparr>ip_queue := ip_queue q @ fst (replies handle served w)\<rparr>)"
      by (rule Cons.IH [OF l(1) Cons.prems(2,3,4)]) (use fifo in simp)
    moreover have "ip_queue p @ ins = []" "ip_queue p1 = []" using fifo Err by auto
    ultimately show ?thesis using l(2) by simp
  qed
qed

section \<open>CmdExecNode\<close>

record cmd_exec = worker_node +
  cn_in :: "CmdRequest input_port"
  cn_out :: output_port
  cn_inputs :: "PortInfo list"
  cn_outputs :: "PortInfo list"
  cn_allowed :: "string list"

definition cmd_exec_new :: cmd_exec where
  "cmd_exec_new =
     (let i = input_port_new ''cmd_in'' ''CmdRequest'' 64 1;
          out = output_port_new \<lparr>pi_name = ''cmd_out'', pi_type_index = ''CmdResult'', pi_schema_version = 1, pi_is_input = False\<rparr> None in
      worker_node.extend (worker_node_new ''cmd_exec'')
        (cmd_exec.fields i out [ip_info i] [op_info out] []))"

definition cmd_set_allowed :: "string list \<Rightarrow> cmd_exec \<Rightarrow> cmd_exec" where
  "cmd_set_allowed allow n = n\<lparr>cn_allowed := allow\<rparr>"

text \<open>The answers of the operating system to one execution.\<close>

record os_answers =
  os_pipe1 :: bool
  os_pipe2 :: bool
  os_spawn :: "string \<Rightarrow> string list \<Rightarrow> (bytes \<times> bytes \<times> wait_status) option"
  os_elapsed :: u64

text \<open>The world of this worker is the list of the programs started so far.\<close>

definition cmd_handle :: "string list \<Rightarrow> os_answers \<Rightarrow> CmdRequest \<Rightarrow> (string \<times> string list) list
    \<Rightarrow> CmdResult \<times> (string \<times> string list) list" where
  "cmd_handle allowed os req procs =
     (let opts = exec_options_default\<lparr>eo_executable := cq_command req, eo_args := cq_args req, eo_allowed_executables := allowed\<rparr> in
      case execute (os_pipe1 os) (os_pipe2 os) (os_spawn os) (os_elapsed os) opts of
        (er, new, _) \<Rightarrow>
          ((case er of
              Ok r \<Rightarrow> \<lparr>cr_exit_code = er_exit_code r, cr_stdout_text = er_stdout_text r, cr_stderr_text = er_stderr_text r,
                cr_elapsed_ns = er_elapsed_ns r\<rparr>
            | _ \<Rightarrow> \<lparr>cr_exit_code = - 1, cr_stdout_text = [], cr_stderr_text = str ''exec failed'', cr_elapsed_ns = 0\<rparr>),
           procs @ new))"

definition cmd_worker where
  "cmd_worker its n procs ports = worker_loop (cmd_handle (cn_allowed n)) (cn_out n) its (cn_in n, procs, ports)"

text \<open>The program a request stands for, and the requests for listed programs.\<close>

definition launch :: "CmdRequest \<Rightarrow> string \<times> string list" where
  "launch req = (c_str (cq_command req), map c_str (cq_command req # cq_args req))"

definition listed :: "string list \<Rightarrow> CmdRequest set" where
  "listed allowed = {req. cq_command req \<in> set allowed}"

lemma cmd_handle_started:
  "\<exists>new. snd (cmd_handle allowed os req procs) = procs @ new \<and> set new \<subseteq> launch ` ({req} \<inter> listed allowed)"
proof -
  let ?opts = "exec_options_default\<lparr>eo_executable := cq_command req, eo_args := cq_args req, eo_allowed_executables := allowed\<rparr>"
  obtain er new fds where e: "execute (os_pipe1 os) (os_pipe2 os) (os_spawn os) (os_elapsed os) ?opts = (er, new, fds)"
    by (cases "execute (os_pipe1 os) (os_pipe2 os) (os_spawn os) (os_elapsed os) ?opts") auto
  have "new = [] \<or> (req \<in> listed allowed \<and> new = [launch req])"
    using execute_spawns [of "os_pipe1 os" "os_pipe2 os" "os_spawn os" "os_elapsed os" ?opts new fds] e
    by (auto simp: exec_options_default_def listed_def launch_def)
  moreover have "snd (cmd_handle allowed os req procs) = procs @ new" by (simp add: cmd_handle_def Let_def e)
  ultimately show ?thesis by auto
qed

lemma cmd_replies_started:
  "set (snd (replies (cmd_handle allowed) served procs)) \<subseteq> set procs \<union> launch ` (set (map snd served) \<inter> listed allowed)"
proof (induction served arbitrary: procs)
  case (Cons os_req served)
  obtain os req where r: "os_req = (os, req)" by (cases os_req)
  obtain new where n: "snd (cmd_handle allowed os req procs) = procs @ new" "set new \<subseteq> launch ` ({req} \<inter> listed allowed)"
    using cmd_handle_started by blast
  have "snd (replies (cmd_handle allowed) (os_req # served) procs) = snd (replies (cmd_handle allowed) served (procs @ new))"
    using n(1) by (auto simp: r split: prod.splits)
  then have "set (snd (replies (cmd_handle allowed) (os_req # served) procs)) \<subseteq>
      (set procs \<union> set new) \<union> launch ` (set (map snd served) \<inter> listed allowed)"
    using Cons.IH [of "procs @ new"] by simp
  moreover have "launch ` (set (map snd (os_req # served)) \<inter> listed allowed) =
      launch ` ({req} \<inter> listed allowed) \<union> launch ` (set (map snd served) \<inter> listed allowed)"
    by (simp only: r list.map list.set snd_conv insert_is_Un [of req "set (map snd served)"] Int_Un_distrib2 image_Un)
  moreover have "S \<subseteq> (P \<union> N) \<union> R \<Longrightarrow> N \<subseteq> M \<Longrightarrow> S \<subseteq> P \<union> (M \<union> R)" for S P N R M :: "'x set"
    by blast
  ultimately show ?case using n(2) by metis
qed simp

text \<open>
  C30. The command node: every request that arrives is answered once, in the order of arrival, by
  the outcome of its execution, if the answers go to a port without a limit; and no program is
  started that is not, by its full name, on the list of allowed programs, whatever the operating
  system does.
\<close>

theorem cmd_node_serves:
  assumes "cmd_worker its n [] ports = Some (arrived, served, in', procs, ports')"
    and "op_target (cn_out n) = Some a" "ports a = Some q" "ip_capacity q = 0" "port_ok cap (cn_in n)"
  shows "ip_queue (cn_in n) @ arrived = map snd served @ ip_queue in' \<and>
    ports' = ports(a \<mapsto> q\<lparr>ip_queue := ip_queue q @ fst (replies (cmd_handle (cn_allowed n)) served [])\<rparr>) \<and>
    fst ` set procs \<subseteq> c_str ` (set (cn_allowed n) \<inter> cq_command ` set (map snd served))"
proof -
  note w = worker_loop_spec [OF assms(1) [unfolded cmd_worker_def] assms(2-5)]
  then have "set procs \<subseteq> launch ` (set (map snd served) \<inter> listed (cn_allowed n))"
    using cmd_replies_started [of "cn_allowed n" served "[]"] by simp
  then have "fst ` set procs \<subseteq> c_str ` (set (cn_allowed n) \<inter> cq_command ` set (map snd served))"
    by (fastforce simp: launch_def listed_def)
  with w show ?thesis by simp
qed

lemma cmd_node_serves_witness:
  "let ls = \<lparr>cq_command = ''ls'', cq_args = [''-l''], cq_timeout_ms = 5000\<rparr>;
       rm = \<lparr>cq_command = ''rm'', cq_args = [], cq_timeout_ms = 5000\<rparr>;
       os = \<lparr>os_pipe1 = True, os_pipe2 = True, os_spawn = (\<lambda>_ _. Some ([1], [], Exited 0)), os_elapsed = 9\<rparr>;
       n = cmd_set_allowed [''ls''] (cmd_exec_new\<lparr>cn_out := set_target (Some 0) (cn_out cmd_exec_new)\<rparr>);
       ports = [0 \<mapsto> input_port_new ''r'' ''CmdResult'' 0 1] in
   \<exists>served in' procs ports'. cmd_worker [([[ls, rm]], os), ([], os)] n [] ports = Some ([ls, rm], served, in', procs, ports') \<and>
     map snd served = [ls, rm] \<and> fst ` set procs \<subseteq> {''ls''} \<and> map_option (length \<circ> ip_queue) (ports' 0) = Some 2"
proof -
  let ?ls = "\<lparr>cq_command = ''ls'', cq_args = [''-l''], cq_timeout_ms = 5000\<rparr>"
  let ?rm = "\<lparr>cq_command = ''rm'', cq_args = [], cq_timeout_ms = 5000\<rparr>"
  let ?os = "\<lparr>os_pipe1 = True, os_pipe2 = True, os_spawn = (\<lambda>_ _. Some ([1], [], Exited 0)), os_elapsed = 9\<rparr>"
  let ?n = "cmd_set_allowed [''ls''] (cmd_exec_new\<lparr>cn_out := set_target (Some 0) (cn_out cmd_exec_new)\<rparr>)"
  let ?ports = "[0 \<mapsto> input_port_new ''r'' ''CmdResult'' 0 1]"
  note d = cmd_exec_new_def cmd_set_allowed_def set_target_def output_port_new_def cmd_exec.defs worker_node.defs
    node_base.defs worker_node_new_def node_base_new_def input_port_new_def Let_def
  obtain served in' procs ports' where
    run: "cmd_worker [([[?ls, ?rm]], ?os), ([], ?os)] ?n [] ?ports = Some ([?ls, ?rm], served, in', procs, ports')"
    and s: "served = [(?os, ?ls), (?os, ?rm)]"
    by (simp add: cmd_worker_def d port_recv_def port_put_def port_push_def port_try_send_def cmd_handle_def
        execute_def in_whitelist_def exec_options_default_def c_str_def)
  have hyps: "op_target (cn_out ?n) = Some 0" "?ports 0 = Some (input_port_new ''r'' ''CmdResult'' 0 1)"
    "ip_capacity (input_port_new ''r'' ''CmdResult'' 0 1) = 0" "port_ok 64 (cn_in ?n)"
    by (simp_all add: d port_ok_def port_size_def)
  have "fst ` set procs \<subseteq> {''ls''}" "map_option (length \<circ> ip_queue) (ports' 0) = Some 2"
    using cmd_node_serves [OF run hyps] by (auto simp: s d c_str_def split: prod.splits)
  with run s show ?thesis unfolding Let_def by (intro exI conjI) (assumption | simp)+
qed

end
