(* ===== verification/Node_Threads.thy ===== *)
theory Node_Threads
  imports Nodes Step_Systems
begin

text \<open>
  \<open>init\<close>, \<open>start\<close>, \<open>stop\<close> and \<open>reload\<close> of the nodes with a worker thread
  (\<open>src/ability_c/nodes/nodes.cpp\<close>: \<open>CmdExecNode\<close>, \<open>FileXferNode\<close> and \<open>NetInfoNode\<close> write them
  alike), called from any number of threads. A step is one atomic access, one operation on the
  \<open>std::thread\<close> member or one round of the worker. With \<open>par = False\<close> a call begins only when no
  other call is in progress.

  Shown: one call at a time, the steps refine the operations of \<open>Nodes\<close>, which take a call as a
  whole; with two callers a \<open>stop\<close> that overtakes a \<open>start\<close> leaves a thread that nobody joins, and
  the next \<open>start\<close> ends the program.
\<close>

section \<open>Steps\<close>

datatype node_worker = W_none | W_loop | W_ended

text \<open>Where a caller is: before the thread is made, before the join, before a store of the state.\<close>

datatype node_pc = At_rest | At_spawn | At_join | At_reload | At_store LifecycleState node_op

record node_threads =
  nt_running :: bool
  nt_worker :: node_worker
  nt_state :: LifecycleState
  nt_pc :: "nat \<Rightarrow> node_pc"
  nt_terminated :: bool
  nt_done :: "node_op list"

definition nt_new :: node_threads where
  "nt_new = \<lparr>nt_running = False, nt_worker = W_none, nt_state = LC_Init, nt_pc = (\<lambda>_. At_rest), nt_terminated = False,
     nt_done = []\<rparr>"

definition nt_goto :: "nat \<Rightarrow> node_pc \<Rightarrow> node_threads \<Rightarrow> node_threads" where
  "nt_goto c p s = s\<lparr>nt_pc := (nt_pc s)(c := p)\<rparr>"

text \<open>Caller \<open>c\<close> may begin a call.\<close>

definition nt_free :: "bool \<Rightarrow> nat \<Rightarrow> node_threads \<Rightarrow> bool" where
  "nt_free par c s = (\<not> nt_terminated s \<and> nt_pc s c = At_rest \<and> (par \<or> nt_pc s = (\<lambda>_. At_rest)))"

inductive nstep :: "bool \<Rightarrow> node_threads \<Rightarrow> node_threads \<Rightarrow> bool" for par where
  init_call: "nt_free par c s \<Longrightarrow> nstep par s (nt_goto c (At_store LC_Init N_init) s)"
| start_busy: "nt_free par c s \<Longrightarrow> nt_running s \<Longrightarrow> nstep par s (s\<lparr>nt_done := nt_done s @ [N_start]\<rparr>)"
| start_call: "nt_free par c s \<Longrightarrow> \<not> nt_running s \<Longrightarrow> nstep par s (nt_goto c At_spawn (s\<lparr>nt_running := True\<rparr>))"
| spawn: "\<lbrakk>\<not> nt_terminated s; nt_pc s c = At_spawn; nt_worker s = W_none\<rbrakk> \<Longrightarrow>
    nstep par s (nt_goto c (At_store LC_Running N_start) (s\<lparr>nt_worker := W_loop\<rparr>))"
| spawn_joinable: "\<lbrakk>\<not> nt_terminated s; nt_pc s c = At_spawn; nt_worker s \<noteq> W_none\<rbrakk> \<Longrightarrow> nstep par s (s\<lparr>nt_terminated := True\<rparr>)"
| stop_call: "nt_free par c s \<Longrightarrow> nt_running s \<Longrightarrow> nstep par s (nt_goto c At_join (s\<lparr>nt_running := False\<rparr>))"
| stop_stopped: "nt_free par c s \<Longrightarrow> \<not> nt_running s \<Longrightarrow> nstep par s (nt_goto c (At_store LC_Stopped N_stop) s)"
| join: "\<lbrakk>\<not> nt_terminated s; nt_pc s c = At_join; nt_worker s \<noteq> W_loop\<rbrakk> \<Longrightarrow>
    nstep par s (nt_goto c (At_store LC_Stopped N_stop) (s\<lparr>nt_worker := W_none\<rparr>))"
| reload_call: "nt_free par c s \<Longrightarrow> nstep par s (nt_goto c At_reload s)"
| reload_store: "\<lbrakk>\<not> nt_terminated s; nt_pc s c = At_reload\<rbrakk> \<Longrightarrow>
    nstep par s (nt_goto c (At_store LC_Running N_reload) (s\<lparr>nt_state := LC_Reloading\<rparr>))"
| last_store: "\<lbrakk>\<not> nt_terminated s; nt_pc s c = At_store st op\<rbrakk> \<Longrightarrow>
    nstep par s (nt_goto c At_rest (s\<lparr>nt_state := st, nt_done := nt_done s @ [op]\<rparr>))"
| worker_round: "\<not> nt_terminated s \<Longrightarrow> nt_worker s = W_loop \<Longrightarrow>
    nstep par s (s\<lparr>nt_worker := if nt_running s then W_loop else W_ended\<rparr>)"

inductive_cases nstepE: "nstep par s s'"

abbreviation nsteps :: "bool \<Rightarrow> node_threads \<Rightarrow> node_threads \<Rightarrow> bool" where
  "nsteps par \<equiv> (nstep par)\<^sup>*\<^sup>*"

lemmas nsteps_refl = rtranclp.rtrancl_refl [of "nstep par" for par]
lemmas nsteps_snoc = rtranclp.rtrancl_into_rtrancl [of "nstep par" for par]

definition node_reachable :: "bool \<Rightarrow> node_threads set" where
  "node_reachable par = {s. nsteps par nt_new s}"

section \<open>One call at a time\<close>

text \<open>\<open>nt_seq\<close>: the node that the completed calls make, as whole operations one after the other.\<close>

definition nt_seq :: "node_threads \<Rightarrow> worker_node" where
  "nt_seq s = fold node_step (nt_done s) (worker_node_new [])"

definition nt_worker_ok :: "node_threads \<Rightarrow> bool" where
  "nt_worker_ok s = (nt_worker s = (if nt_running s then W_loop else W_none))"

fun nt_at :: "node_pc \<Rightarrow> node_threads \<Rightarrow> bool" where
  "nt_at At_rest s = (nt_worker_ok s \<and> nt_running s = wn_running (nt_seq s) \<and> nt_state s = nb_state (nt_seq s))"
| "nt_at At_reload s = (nt_worker_ok s \<and> nt_running s = wn_running (nt_seq s))"
| "nt_at At_spawn s = (nt_running s \<and> nt_worker s = W_none \<and> \<not> wn_running (nt_seq s))"
| "nt_at At_join s = (\<not> nt_running s \<and> nt_worker s \<noteq> W_none \<and> wn_running (nt_seq s))"
| "nt_at (At_store st op) s = (nt_worker_ok s \<and> nt_running s = wn_running (node_step op (nt_seq s)) \<and>
     st = nb_state (node_step op (nt_seq s)))"

definition nt_inv :: "node_threads \<Rightarrow> bool" where
  "nt_inv s = (\<not> nt_terminated s \<and> (\<exists>c p. nt_pc s = (\<lambda>_. At_rest)(c := p) \<and> nt_at p s) \<and>
     wn_worker (nt_seq s) = wn_running (nt_seq s))"

lemma nt_seq_upd [simp]:
  "nt_seq (nt_goto c p s) = nt_seq s" "nt_seq (s\<lparr>nt_running := b\<rparr>) = nt_seq s" "nt_seq (s\<lparr>nt_worker := w\<rparr>) = nt_seq s"
  "nt_seq (s\<lparr>nt_state := st\<rparr>) = nt_seq s"
  by (simp_all add: nt_seq_def nt_goto_def)

lemma nt_seq_done [simp]:
  "nt_seq (s\<lparr>nt_done := nt_done s @ [op]\<rparr>) = node_step op (nt_seq s)"
  "nt_seq (s\<lparr>nt_state := st, nt_done := nt_done s @ [op]\<rparr>) = node_step op (nt_seq s)"
  by (simp_all add: nt_seq_def)

lemma nt_goto_fields [simp]:
  "nt_terminated (nt_goto c p s) = nt_terminated s" "nt_pc (nt_goto c p s) = (nt_pc s)(c := p)"
  by (simp_all add: nt_goto_def)

lemma nt_at_goto [simp]: "nt_at p (nt_goto c q s) = nt_at p s"
  by (cases p) (simp_all add: nt_worker_ok_def nt_goto_def nt_seq_def)

lemma nt_inv_free: "nt_inv s \<Longrightarrow> nt_free False c s \<Longrightarrow> nt_pc s = (\<lambda>_. At_rest)(c := At_rest) \<and> nt_at At_rest s"
  by (auto simp: nt_inv_def nt_free_def fun_eq_iff split: if_splits)

lemma nt_inv_busy: "nt_inv s \<Longrightarrow> nt_pc s c = p \<Longrightarrow> p \<noteq> At_rest \<Longrightarrow> nt_pc s = (\<lambda>_. At_rest)(c := p) \<and> nt_at p s"
  by (auto simp: nt_inv_def split: if_splits)

lemma nt_inv_goto:
  "nt_pc s = (\<lambda>_. At_rest)(c := q) \<Longrightarrow> nt_at p s \<Longrightarrow> \<not> nt_terminated s \<Longrightarrow> wn_worker (nt_seq s) = wn_running (nt_seq s) \<Longrightarrow>
    nt_inv (nt_goto c p s)"
  unfolding nt_inv_def by (intro conjI exI [of _ c] exI [of _ p]) simp_all

lemma nt_inv_step:
  assumes "nstep False s s'" "nt_inv s"
  shows "nt_inv s'"
proof -
  have w: "wn_worker (nt_seq s) = wn_running (nt_seq s)" "\<not> nt_terminated s" using assms(2) by (simp_all add: nt_inv_def)
  note free = nt_inv_free [OF assms(2)] and busy = nt_inv_busy [OF assms(2)]
  show ?thesis using assms(1)
  proof (cases rule: nstep.cases)
    case (start_busy c)
    then show ?thesis using free [of c] w
      by (auto simp: nt_inv_def nt_seq_done node_defs nt_worker_ok_def intro!: exI [of _ c] exI [of _ At_rest])
  next
    case (spawn_joinable c)
    then show ?thesis using busy [of c] by auto
  next
    case (last_store c st op)
    then show ?thesis using busy [of c] w
      by (cases op) (auto simp: node_defs Let_def nt_worker_ok_def intro!: nt_inv_goto)
  next
    case worker_round
    moreover obtain c p where "nt_pc s = (\<lambda>_. At_rest)(c := p)" "nt_at p s" using assms(2) by (auto simp: nt_inv_def)
    moreover from this(2) have "nt_at p s'" using worker_round by (cases p) (auto simp: nt_worker_ok_def)
    ultimately show ?thesis using w unfolding nt_inv_def by (intro conjI exI [of _ c] exI [of _ p]) simp_all
  qed (use w in \<open>auto simp: node_defs Let_def nt_worker_ok_def dest!: free busy intro!: nt_inv_goto\<close>)
qed

lemma nt_inv_new: "nt_inv nt_new"
  unfolding nt_inv_def nt_new_def nt_seq_def
  by (intro conjI exI [of _ 0] exI [of _ At_rest]) (simp_all add: nt_worker_ok_def nt_seq_def fun_eq_iff)

interpretation nt_sys: step_system "nstep False" nt_new nt_inv
  by unfold_locales (rule nt_inv_new nt_inv_step; assumption)+

text \<open>
  C31. One call at a time, the atomic steps of \<open>init\<close>, \<open>start\<close>, \<open>stop\<close> and \<open>reload\<close>, interleaved with the
  worker's rounds, refine the calls as whole operations: in every reachable state in which no call
  is in progress the flag, the thread and the lifecycle state are those that the completed calls
  make one after the other, and the program has not been ended.
\<close>

theorem node_threads_refine:
  "node_reachable False \<inter> {s. nt_pc s = (\<lambda>_. At_rest)} \<subseteq>
    {s. let n = fold node_step (nt_done s) (worker_node_new []) in
      \<not> nt_terminated s \<and> nt_running s = wn_running n \<and> (nt_worker s = W_loop) = wn_worker n \<and> nt_state s = nb_state n}"
proof safe
  fix s
  assume "s \<in> node_reachable False" and pc: "nt_pc s = (\<lambda>_. At_rest)"
  then have i: "nt_inv s" by (simp add: node_reachable_def nt_sys.reachable_inv)
  then have "nt_at At_rest s" using nt_inv_free [of s 0] pc by (simp add: nt_inv_def nt_free_def)
  with i show "let n = fold node_step (nt_done s) (worker_node_new []) in
      \<not> nt_terminated s \<and> nt_running s = wn_running n \<and> (nt_worker s = W_loop) = wn_worker n \<and> nt_state s = nb_state n"
    by (auto simp: nt_inv_def nt_worker_ok_def nt_seq_def Let_def)
qed

section \<open>A stop that overtakes a start\<close>

text \<open>
  With two callers the lifecycle is not safe: a \<open>stop\<close> between the first and the second step of a
  \<open>start\<close> finds no thread to join and returns; the thread is made after it and ends at once. All
  calls are over and the state is \<open>Running\<close>, with no worker and a thread that nobody joins: \<open>stop\<close>
  does not look at it, and the next \<open>start\<close> assigns to it, which ends the program.
\<close>

theorem node_stop_overtakes_start:
  "\<exists>s \<in> node_reachable True. nt_pc s = (\<lambda>_. At_rest) \<and> nt_done s = [N_stop, N_start] \<and> nt_state s = LC_Running \<and>
    \<not> nt_running s \<and> nt_worker s = W_ended \<and> (\<exists>t. nsteps True s t \<and> nt_terminated t)"
proof -
  have new: "nt_free True c nt_new" for c by (simp add: nt_free_def nt_new_def)
  let ?s1 = "nt_goto 0 At_spawn (nt_new\<lparr>nt_running := True\<rparr>)"
  have 1: "nsteps True nt_new ?s1"
    by (rule nsteps_snoc [OF nsteps_refl start_call [OF new]]) (simp add: nt_new_def)
  let ?s2 = "nt_goto 1 At_join (?s1\<lparr>nt_running := False\<rparr>)"
  have 2: "nsteps True nt_new ?s2"
    by (rule nsteps_snoc [OF 1 stop_call]) (simp_all add: nt_free_def nt_new_def nt_goto_def)
  let ?s3 = "nt_goto 1 (At_store LC_Stopped N_stop) (?s2\<lparr>nt_worker := W_none\<rparr>)"
  have 3: "nsteps True nt_new ?s3" by (rule nsteps_snoc [OF 2 join]) (simp_all add: nt_new_def nt_goto_def)
  let ?s4 = "nt_goto 1 At_rest (?s3\<lparr>nt_state := LC_Stopped, nt_done := nt_done ?s3 @ [N_stop]\<rparr>)"
  have 4: "nsteps True nt_new ?s4" by (rule nsteps_snoc [OF 3 last_store]) (simp_all add: nt_new_def nt_goto_def)
  let ?s5 = "nt_goto 0 (At_store LC_Running N_start) (?s4\<lparr>nt_worker := W_loop\<rparr>)"
  have 5: "nsteps True nt_new ?s5" by (rule nsteps_snoc [OF 4 spawn]) (simp_all add: nt_new_def nt_goto_def)
  let ?s6 = "?s5\<lparr>nt_worker := if nt_running ?s5 then W_loop else W_ended\<rparr>"
  have 6: "nsteps True nt_new ?s6" by (rule nsteps_snoc [OF 5 worker_round]) (simp_all add: nt_new_def nt_goto_def)
  let ?s7 = "nt_goto 0 At_rest (?s6\<lparr>nt_state := LC_Running, nt_done := nt_done ?s6 @ [N_start]\<rparr>)"
  have 7: "nsteps True nt_new ?s7" by (rule nsteps_snoc [OF 6 last_store]) (simp_all add: nt_new_def nt_goto_def)
  have s7: "nt_pc ?s7 = (\<lambda>_. At_rest)" "nt_worker ?s7 = W_ended" "\<not> nt_running ?s7" "\<not> nt_terminated ?s7"
    "nt_state ?s7 = LC_Running" "nt_done ?s7 = [N_stop, N_start]"
    by (simp_all add: nt_new_def nt_goto_def fun_eq_iff)
  define u where "u = nt_goto 0 At_spawn (?s7\<lparr>nt_running := True\<rparr>)"
  have "nsteps True ?s7 u" unfolding u_def by (rule nsteps_snoc [OF nsteps_refl start_call]) (use s7 in \<open>simp_all add: nt_free_def\<close>)
  moreover have "nstep True u (u\<lparr>nt_terminated := True\<rparr>)"
    by (rule spawn_joinable [of _ 0]) (simp_all add: u_def nt_goto_def nt_new_def)
  ultimately have "nsteps True ?s7 (u\<lparr>nt_terminated := True\<rparr>)" by (rule nsteps_snoc)
  with 7 s7 show ?thesis unfolding node_reachable_def by (intro bexI [of _ ?s7] conjI exI [of _ "u\<lparr>nt_terminated := True\<rparr>"]) simp_all
qed

end
