(* ===== verification/Registry.thy ===== *)
theory Registry
  imports Interfaces
begin

text \<open>
  \<open>src/ability_a/registry/service_registry.*\<close> (the table of discovered nodes, its
  subscriptions and their handles), \<open>src/ability_a/trust/peer_whitelist.*\<close> (the table of
  trusted peers) and \<open>src/ability_a/bridge/discovery_bridge.*\<close>. A \<open>std::string\<close> is its
  bytes. A callback is an opaque value \<open>'cb\<close>; \<open>notify\<close> returns the calls it makes, in
  the order of the subscription table and with the subscription's id next to the callback;
  an empty \<open>std::function\<close> is \<open>None\<close>.

  Both tables are interpretations of \<open>keyed_store\<close>. The notified events are shown to be
  enough to rebuild the registry.
\<close>

section \<open>The service registry\<close>

record ServiceDescriptor =
  sd_service_name :: bytes
  sd_port :: u16
  sd_protocol :: bytes

record RegistryEntry =
  re_node_id :: bytes
  re_hostname :: bytes
  re_bind_address :: bytes
  re_bind_port :: u16
  re_services :: "ServiceDescriptor list"
  re_last_heartbeat_ns :: int

datatype RegistryEvent = Add | Remove | Update

type_synonym 'cb reg_call = "u64 \<times> 'cb \<times> RegistryEvent \<times> RegistryEntry"

record 'cb registry =
  reg_nodes :: "(bytes, RegistryEntry) kv"
  reg_subs :: "(u64, 'cb option) kv"
  reg_next_sub_id :: u64

definition registry_new :: "'cb registry" where
  "registry_new = \<lparr>reg_nodes = [], reg_subs = [], reg_next_sub_id = 1\<rparr>"

definition notify :: "RegistryEvent \<Rightarrow> RegistryEntry \<Rightarrow> 'cb registry \<Rightarrow> 'cb reg_call list" where
  "notify ev entry r = List.map_filter (\<lambda>(sid, f). map_option (\<lambda>cb. (sid, cb, ev, entry)) f) (reg_subs r)"

definition register_node :: "RegistryEntry \<Rightarrow> 'cb registry \<Rightarrow> bool Result \<times> 'cb registry \<times> 'cb reg_call list" where
  "register_node entry r =
     (if re_node_id entry = [] then (Err EC_INVALID_ARG, r, [])
      else
        let is_new = (kv_get (reg_nodes r) (re_node_id entry) = None);
            r' = r\<lparr>reg_nodes := kv_put (re_node_id entry) entry (reg_nodes r)\<rparr>
        in (Ok is_new, r', notify (if is_new then Add else Update) entry r'))"

definition unregister_node :: "bytes \<Rightarrow> 'cb registry \<Rightarrow> bool Result \<times> 'cb registry \<times> 'cb reg_call list" where
  "unregister_node node_id r =
     (case kv_get (reg_nodes r) node_id of
        None \<Rightarrow> (Ok False, r, [])
      | Some removed \<Rightarrow>
          let r' = r\<lparr>reg_nodes := kv_del node_id (reg_nodes r)\<rparr>
          in (Ok True, r', notify Remove removed r'))"

definition reg_get_node :: "bytes \<Rightarrow> 'cb registry \<Rightarrow> RegistryEntry Result" where
  "reg_get_node node_id r = (case kv_get (reg_nodes r) node_id of
      None \<Rightarrow> Err EC_BIZ_FILE_NOT_FOUND
    | Some e \<Rightarrow> Ok e)"

definition reg_snapshot :: "'cb registry \<Rightarrow> RegistryEntry list" where
  "reg_snapshot r = map snd (reg_nodes r)"

definition reg_size :: "'cb registry \<Rightarrow> nat" where
  "reg_size r = length (reg_nodes r)"

definition reg_clear :: "'cb registry \<Rightarrow> 'cb registry" where
  "reg_clear r = r\<lparr>reg_nodes := []\<rparr>"

text \<open>A handle is its owner (here: whether it has one) and an id.\<close>

record SubscriptionHandle =
  sh_owner :: bool
  sh_id :: u64

definition sh_none :: SubscriptionHandle where
  "sh_none = \<lparr>sh_owner = False, sh_id = 0\<rparr>"

definition sh_valid :: "SubscriptionHandle \<Rightarrow> bool" where
  "sh_valid h = sh_owner h"

definition subscribe :: "'cb option \<Rightarrow> 'cb registry \<Rightarrow> SubscriptionHandle \<times> 'cb registry" where
  "subscribe cb r =
     (let sid = reg_next_sub_id r
      in (\<lparr>sh_owner = True, sh_id = sid\<rparr>,
          r\<lparr>reg_next_sub_id := sid + 1, reg_subs := kv_put sid cb (reg_subs r)\<rparr>))"

definition unsubscribe :: "u64 \<Rightarrow> 'cb registry \<Rightarrow> 'cb registry" where
  "unsubscribe handle_id r = r\<lparr>reg_subs := kv_del handle_id (reg_subs r)\<rparr>"

text \<open>\<open>release\<close> is also the destructor.\<close>

definition sh_release :: "SubscriptionHandle \<Rightarrow> 'cb registry \<Rightarrow> SubscriptionHandle \<times> 'cb registry" where
  "sh_release h r = (if sh_owner h then (sh_none, unsubscribe (sh_id h) r) else (h, r))"

text \<open>Moving: the new handle and what is left of the source.\<close>

definition sh_move :: "SubscriptionHandle \<Rightarrow> SubscriptionHandle \<times> SubscriptionHandle" where
  "sh_move other = (other, sh_none)"

definition sh_move_assign :: "bool \<Rightarrow> SubscriptionHandle \<Rightarrow> SubscriptionHandle \<Rightarrow> 'cb registry
    \<Rightarrow> SubscriptionHandle \<times> SubscriptionHandle \<times> 'cb registry" where
  "sh_move_assign same_object self other r =
     (if same_object then (self, other, r)
      else case sh_release self r of (_, r') \<Rightarrow> (other, sh_none, r'))"

definition reg_ok :: "'cb registry \<Rightarrow> bool" where
  "reg_ok r = (kv_ok (reg_nodes r) \<and> kv_ok (reg_subs r) \<and> (\<forall>(k, e) \<in> set (reg_nodes r). k = re_node_id e \<and> k \<noteq> []))"

lemma reg_ok_new [simp]: "reg_ok registry_new"
  by (simp add: reg_ok_def registry_new_def)

lemma kv_put_set: "p \<in> set (kv_put k v m) \<Longrightarrow> p = (k, v) \<or> p \<in> set m"
  by (induction m) (auto split: if_splits)

lemma kv_del_set: "p \<in> set (kv_del k m) \<Longrightarrow> p \<in> set m"
  by (auto simp: AList.delete_eq)

interpretation reg: keyed_store
  "\<lambda>r. kv_get (reg_nodes r)" reg_ok reg_size re_node_id "\<lambda>e. re_node_id e \<noteq> []"
  "\<lambda>e r. fst (snd (register_node e r))" "\<lambda>k r. fst (snd (unregister_node k r))"
proof (unfold_locales, goal_cases)
  case (1 s v)
  then show ?case by (auto simp: register_node_def Let_def fun_eq_iff)
next
  case (3 s k)
  then show ?case by (auto simp: unregister_node_def Let_def fun_eq_iff split: option.splits)
next
  case (4 s v)
  then show ?case
    by (auto simp: register_node_def Let_def reg_ok_def dest: kv_put_set)
next
  case (5 s k)
  then show ?case
    by (auto simp: unregister_node_def Let_def reg_ok_def dest: kv_del_set split: option.splits)
next
  case (6 s)
  then show ?case by (simp add: reg_size_def reg_ok_def kv_card finite_dom_map_of)
qed (simp add: register_node_def)

text \<open>A run of registrations and removals, with every call the subscribers see.\<close>

datatype reg_op = R_register RegistryEntry | R_unregister bytes

fun reg_run :: "reg_op list \<Rightarrow> 'cb registry \<Rightarrow> 'cb registry \<times> 'cb reg_call list" where
  "reg_run [] r = (r, [])"
| "reg_run (op # ops) r =
     (case (case op of R_register e \<Rightarrow> register_node e r | R_unregister k \<Rightarrow> unregister_node k r) of
        (_, r1, calls) \<Rightarrow> (case reg_run ops r1 of (r2, calls2) \<Rightarrow> (r2, calls @ calls2)))"

definition mirror_event :: "RegistryEvent \<times> RegistryEntry \<Rightarrow> (bytes \<rightharpoonup> RegistryEntry) \<Rightarrow> (bytes \<rightharpoonup> RegistryEntry)" where
  "mirror_event p m = (case p of (ev, e) \<Rightarrow>
     (case ev of Remove \<Rightarrow> m(re_node_id e := None) | _ \<Rightarrow> m(re_node_id e \<mapsto> e)))"

definition seen_by :: "u64 \<Rightarrow> 'cb reg_call list \<Rightarrow> (RegistryEvent \<times> RegistryEntry) list" where
  "seen_by sid calls = map (\<lambda>c. snd (snd c)) (filter (\<lambda>c. fst c = sid) calls)"

lemma seen_by_append: "seen_by sid (xs @ ys) = seen_by sid xs @ seen_by sid ys"
  by (simp add: seen_by_def)

lemma seen_by_absent: "sid \<notin> fst ` set subs \<Longrightarrow>
  seen_by sid (List.map_filter (\<lambda>(sid, f). map_option (\<lambda>cb. (sid, cb, ev, e)) f) subs) = []"
  by (induction subs) (auto simp: seen_by_def List.map_filter_simps split: option.splits)

lemma seen_by_notify:
  assumes "kv_ok (reg_subs r)" "kv_get (reg_subs r) sid = Some (Some cb)"
  shows "seen_by sid (notify ev e r) = [(ev, e)]"
proof -
  have "kv_ok subs \<Longrightarrow> kv_get subs sid = Some (Some cb) \<Longrightarrow>
    seen_by sid (List.map_filter (\<lambda>(sid, f). map_option (\<lambda>cb. (sid, cb, ev, e)) f) subs) = [(ev, e)]" for subs :: "(u64, 'a option) kv"
  proof (induction subs)
    case (Cons p subs)
    obtain i f where p: "p = (i, f)" by fastforce
    show ?case
    proof (cases "i = sid")
      case True
      with Cons.prems p have "f = Some cb" "sid \<notin> fst ` set subs" by auto
      with True p seen_by_absent [of sid subs ev e] show ?thesis
        by (simp add: List.map_filter_simps seen_by_def)
    next
      case False
      with Cons p show ?thesis
        by (cases f) (auto simp: List.map_filter_simps seen_by_def)
    qed
  qed simp
  with assms show ?thesis by (simp add: notify_def)
qed

lemma mirror_register:
  assumes "reg_ok r" "kv_get (reg_subs r) sid = Some (Some cb)" "register_node e r = (b, r1, c1)"
  shows "reg_ok r1" "reg_subs r1 = reg_subs r"
    "kv_get (reg_nodes r1) = fold mirror_event (seen_by sid c1) (kv_get (reg_nodes r))"
proof -
  have r1: "r1 = fst (snd (register_node e r))" using assms(3) by simp
  show ok: "reg_ok r1" using reg.put_ok [OF assms(1)] unfolding r1 .
  show subs: "reg_subs r1 = reg_subs r"
    using assms(3) by (auto simp: register_node_def Let_def split: if_splits)
  show "kv_get (reg_nodes r1) = fold mirror_event (seen_by sid c1) (kv_get (reg_nodes r))"
  proof (cases "re_node_id e = []")
    case True
    with assms(3) show ?thesis by (simp add: register_node_def seen_by_def)
  next
    case False
    with assms(3) have c1: "c1 = notify (if kv_get (reg_nodes r) (re_node_id e) = None then Add else Update) e r1"
      by (auto simp: register_node_def Let_def)
    have "kv_get (reg_nodes r1) = (kv_get (reg_nodes r))(re_node_id e \<mapsto> e)"
      unfolding r1 by (rule reg.put_lookup [OF assms(1) False])
    moreover have "kv_ok (reg_subs r1)" "kv_get (reg_subs r1) sid = Some (Some cb)"
      using ok assms(2) subs by (auto simp: reg_ok_def)
    ultimately show ?thesis unfolding c1 by (auto simp: seen_by_notify mirror_event_def fun_eq_iff)
  qed
qed

lemma mirror_unregister:
  assumes "reg_ok r" "kv_get (reg_subs r) sid = Some (Some cb)" "unregister_node k r = (b, r1, c1)"
  shows "reg_ok r1" "reg_subs r1 = reg_subs r"
    "kv_get (reg_nodes r1) = fold mirror_event (seen_by sid c1) (kv_get (reg_nodes r))"
proof -
  have r1: "r1 = fst (snd (unregister_node k r))" using assms(3) by simp
  show ok: "reg_ok r1" using reg.del_ok [OF assms(1)] unfolding r1 .
  show subs: "reg_subs r1 = reg_subs r"
    using assms(3) by (auto simp: unregister_node_def Let_def split: option.splits)
  show "kv_get (reg_nodes r1) = fold mirror_event (seen_by sid c1) (kv_get (reg_nodes r))"
  proof (cases "kv_get (reg_nodes r) k")
    case None
    with assms(3) show ?thesis by (simp add: unregister_node_def seen_by_def)
  next
    case (Some e)
    with assms(3) have c1: "c1 = notify Remove e r1" by (auto simp: unregister_node_def Let_def)
    have "kv_get (reg_nodes r1) = (kv_get (reg_nodes r))(k := None)"
      unfolding r1 by (rule reg.del_lookup [OF assms(1)])
    moreover have "kv_ok (reg_subs r1)" "kv_get (reg_subs r1) sid = Some (Some cb)"
      using ok assms(2) subs by (auto simp: reg_ok_def)
    moreover have "re_node_id e = k" using assms(1) map_of_SomeD [OF Some] by (auto simp: reg_ok_def)
    ultimately show ?thesis unfolding c1 by (auto simp: seen_by_notify mirror_event_def fun_eq_iff)
  qed
qed

text \<open>
  What a subscriber is told is the whole truth: after any run of registrations and removals,
  applying the events that the callback of one subscription received, in order, to the table at
  the time of the subscription gives the table at the end. Every entry of the table has a
  non-empty name and is found under it.
\<close>

theorem registry_mirror:
  assumes "reg_ok r" "kv_get (reg_subs r) sid = Some (Some cb)" "reg_run ops r = (r', calls)"
  shows "kv_get (reg_nodes r') = fold mirror_event (seen_by sid calls) (kv_get (reg_nodes r)) \<and> reg_ok r'"
  using assms
proof (induction ops arbitrary: r calls r')
  case (Cons op ops)
  define res where "res = (case op of R_register e \<Rightarrow> register_node e r | R_unregister k \<Rightarrow> unregister_node k r)"
  obtain b r1 c1 where res: "res = (b, r1, c1)" by (cases res) auto
  obtain r2 c2 where rest: "reg_run ops r1 = (r2, c2)" by fastforce
  from Cons.prems(3) res rest have r': "r' = r2" "calls = c1 @ c2" by (simp_all add: res_def)
  have step: "reg_ok r1" "reg_subs r1 = reg_subs r"
      "kv_get (reg_nodes r1) = fold mirror_event (seen_by sid c1) (kv_get (reg_nodes r))"
    using mirror_register [OF Cons.prems(1,2)] mirror_unregister [OF Cons.prems(1,2)] res
    by (auto simp: res_def split: reg_op.splits)
  have "kv_get (reg_subs r1) sid = Some (Some cb)" using Cons.prems(2) step(2) by simp
  with Cons.IH [OF step(1) _ rest] step(3) r' show ?case by (simp add: seen_by_append)
qed (simp add: seen_by_def)

definition sample_reg_entry :: "byte \<Rightarrow> u16 \<Rightarrow> RegistryEntry" where
  "sample_reg_entry c port = \<lparr>re_node_id = [c], re_hostname = [], re_bind_address = [], re_bind_port = port,
     re_services = [], re_last_heartbeat_ns = 0\<rparr>"

theorem registry_mirror_witness:
  "let r = snd (subscribe (Some ()) registry_new);
       res = reg_run [R_register (sample_reg_entry 65 1), R_register (sample_reg_entry 66 2),
         R_register (sample_reg_entry 65 3), R_unregister [66]] r
   in kv_get (reg_nodes (fst res)) = fold mirror_event (seen_by 1 (snd res)) Map.empty
     \<and> kv_get (reg_nodes (fst res)) [65] = Some (sample_reg_entry 65 3)"
proof -
  let ?r = "snd (subscribe (Some ()) registry_new)"
  let ?ops = "[R_register (sample_reg_entry 65 1), R_register (sample_reg_entry 66 2),
         R_register (sample_reg_entry 65 3), R_unregister [66]]"
  have "reg_ok ?r" "kv_get (reg_subs ?r) 1 = Some (Some ())"
    by (simp_all add: subscribe_def registry_new_def reg_ok_def)
  from registry_mirror [OF this, of ?ops "fst (reg_run ?ops ?r)" "snd (reg_run ?ops ?r)"]
  have "kv_get (reg_nodes (fst (reg_run ?ops ?r))) = fold mirror_event (seen_by 1 (snd (reg_run ?ops ?r))) Map.empty"
    by (simp add: subscribe_def registry_new_def)
  moreover have "kv_get (reg_nodes (fst (reg_run ?ops ?r))) [65] = Some (sample_reg_entry 65 3)"
    by (simp add: subscribe_def registry_new_def register_node_def unregister_node_def sample_reg_entry_def Let_def)
  ultimately show ?thesis by (simp add: Let_def)
qed

text \<open>Releasing a handle, also by destruction or by assignment over it, ends its subscription.\<close>

lemma release_unsubscribes:
  "sh_owner h \<Longrightarrow> sh_release h r = (sh_none, r') \<Longrightarrow> kv_get (reg_subs r') (sh_id h) = None"
  by (auto simp: sh_release_def unsubscribe_def)

section \<open>The peer whitelist\<close>

record WhitelistEntry =
  wl_node_id :: bytes
  wl_fingerprint_sha256 :: bytes
  wl_allowed_capabilities :: "bytes list"

type_synonym whitelist = "(bytes, WhitelistEntry) kv"

definition wl_add :: "WhitelistEntry \<Rightarrow> whitelist \<Rightarrow> bool Result \<times> whitelist" where
  "wl_add entry m =
     (if wl_node_id entry = [] \<or> length (wl_fingerprint_sha256 entry) \<noteq> 32 then (Err EC_INVALID_ARG, m)
      else (Ok (kv_get m (wl_node_id entry) = None), kv_put (wl_node_id entry) entry m))"

definition wl_remove :: "bytes \<Rightarrow> whitelist \<Rightarrow> bool Result \<times> whitelist" where
  "wl_remove node_id m = (Ok (kv_get m node_id \<noteq> None), kv_del node_id m)"

definition wl_contains :: "bytes \<Rightarrow> bytes \<Rightarrow> whitelist \<Rightarrow> bool" where
  "wl_contains node_id capability m = (case kv_get m node_id of
      None \<Rightarrow> False
    | Some e \<Rightarrow> if capability = [] then True else capability \<in> set (wl_allowed_capabilities e))"

definition wl_get :: "bytes \<Rightarrow> whitelist \<Rightarrow> WhitelistEntry Result" where
  "wl_get node_id m = (case kv_get m node_id of
      None \<Rightarrow> Err EC_BIZ_NODE_NOT_REGISTERED
    | Some e \<Rightarrow> Ok e)"

definition wl_size :: "whitelist \<Rightarrow> nat" where
  "wl_size m = length m"

definition wl_snapshot :: "whitelist \<Rightarrow> WhitelistEntry list" where
  "wl_snapshot m = map snd m"

definition wl_clear :: "whitelist \<Rightarrow> whitelist" where
  "wl_clear m = []"

definition wl_valid :: "WhitelistEntry \<Rightarrow> bool" where
  "wl_valid e = (wl_node_id e \<noteq> [] \<and> length (wl_fingerprint_sha256 e) = 32)"

interpretation wl: keyed_store
  kv_get "\<lambda>m. kv_ok m" wl_size wl_node_id wl_valid "\<lambda>e m. snd (wl_add e m)" "\<lambda>k m. snd (wl_remove k m)"
proof (unfold_locales, goal_cases)
  case (1 s v)
  then show ?case by (auto simp: wl_add_def wl_valid_def fun_eq_iff)
next
  case (2 s v)
  then show ?case by (auto simp: wl_add_def wl_valid_def)
next
  case (3 s k)
  then show ?case by (auto simp: wl_remove_def fun_eq_iff)
next
  case (6 s)
  then show ?case by (simp add: wl_size_def kv_card finite_dom_map_of)
qed (simp_all add: wl_add_def wl_remove_def)

datatype wl_op = W_add WhitelistEntry | W_remove bytes

definition wl_step :: "wl_op \<Rightarrow> whitelist \<Rightarrow> whitelist" where
  "wl_step op m = (case op of W_add e \<Rightarrow> snd (wl_add e m) | W_remove k \<Rightarrow> snd (wl_remove k m))"

text \<open>The last operation of a history that concerns a name, if it left an entry.\<close>

fun wl_last :: "wl_op list \<Rightarrow> bytes \<Rightarrow> WhitelistEntry option \<Rightarrow> WhitelistEntry option" where
  "wl_last [] k e = e"
| "wl_last (W_add v # ops) k e = wl_last ops k (if wl_valid v \<and> wl_node_id v = k then Some v else e)"
| "wl_last (W_remove j # ops) k e = wl_last ops k (if j = k then None else e)"

lemma wl_run_ok: "kv_ok m \<Longrightarrow> wl.keys_ok m \<Longrightarrow> kv_ok (fold wl_step ops m) \<and> wl.keys_ok (fold wl_step ops m)"
proof (induction ops arbitrary: m)
  case (Cons op ops)
  have "kv_ok (wl_step op m)" "wl.keys_ok (wl_step op m)"
    using Cons.prems wl.put_ok wl.del_ok wl.keys_ok_put wl.keys_ok_del
    by (auto simp: wl_step_def split: wl_op.splits)
  then show ?case using Cons.IH by simp
qed simp

lemma wl_run_lookup: "kv_ok m \<Longrightarrow> kv_get (fold wl_step ops m) k = wl_last ops k (kv_get m k)"
proof (induction ops arbitrary: m)
  case (Cons op ops)
  have "kv_ok (wl_step op m)"
    using Cons.prems wl.put_ok wl.del_ok by (auto simp: wl_step_def split: wl_op.splits)
  then show ?case
  proof (cases op)
    case (W_add v)
    with Cons.IH [OF \<open>kv_ok (wl_step op m)\<close>] show ?thesis
      using Cons.prems wl.put_lookup [of m v] wl.put_invalid [of m v]
      by (cases "wl_valid v") (auto simp: wl_step_def)
  next
    case (W_remove j)
    with Cons.IH [OF \<open>kv_ok (wl_step op m)\<close>] show ?thesis
      using Cons.prems wl.del_lookup [of m j] by (auto simp: wl_step_def)
  qed
qed simp

text \<open>
  The whitelist admits exactly whom it was told to: after any history of additions and removals
  from the empty list, \<open>contains\<close> is true of a peer and a capability exactly when the last valid
  addition of that peer was not followed by its removal and the capability is empty or among the
  allowed ones; every stored entry has a non-empty name, its own key and a 32-byte fingerprint; and
  the size is the number of peers.
\<close>

theorem whitelist_history:
  "(wl_contains k cap (fold wl_step ops []) =
     (case wl_last ops k None of None \<Rightarrow> False | Some e \<Rightarrow> cap = [] \<or> cap \<in> set (wl_allowed_capabilities e)))
   \<and> list_all (\<lambda>(j, e). wl_node_id e = j \<and> wl_valid e) (fold wl_step ops [])
   \<and> wl_size (fold wl_step ops []) = card {j. wl_last ops j None \<noteq> None}"
proof (intro conjI)
  have ok: "kv_ok (fold wl_step ops [])" "wl.keys_ok (fold wl_step ops [])"
    using wl_run_ok [of "[]" ops] by (simp_all add: wl.keys_ok_def)
  have look: "kv_get (fold wl_step ops []) j = wl_last ops j None" for j
    using wl_run_lookup [of "[]" ops j] by simp
  show "wl_contains k cap (fold wl_step ops []) =
     (case wl_last ops k None of None \<Rightarrow> False | Some e \<Rightarrow> cap = [] \<or> cap \<in> set (wl_allowed_capabilities e))"
    by (auto simp: wl_contains_def look split: option.splits)
  show "list_all (\<lambda>(j, e). wl_node_id e = j \<and> wl_valid e) (fold wl_step ops [])"
    using ok(2) unfolding list_all_iff wl.keys_ok_def by (auto simp: kv_set_iff [OF ok(1)])
  show "wl_size (fold wl_step ops []) = card {j. wl_last ops j None \<noteq> None}"
    using wl.count_card [OF ok(1)] by (simp add: dom_def look)
qed

section \<open>The discovery bridge\<close>

record NodeJoinEvent =
  nj_node_id :: bytes
  nj_hostname :: bytes
  nj_bind_address :: bytes
  nj_bind_port :: u16
  nj_services :: "bytes list"

text \<open>The callback interface: one state transformer per virtual member; \<open>None\<close> is a null pointer.\<close>

record 's TopologyUpdateCallbacks =
  cb_on_node_join :: "NodeJoinEvent \<Rightarrow> 's \<Rightarrow> 's"
  cb_on_node_leave :: "bytes \<Rightarrow> 's \<Rightarrow> 's"
  cb_on_node_heartbeat :: "bytes \<Rightarrow> 's \<Rightarrow> 's"

definition on_node_join :: "'s TopologyUpdateCallbacks option \<Rightarrow> bytes \<Rightarrow> bytes \<Rightarrow> bytes \<Rightarrow> u16 \<Rightarrow> bytes list
    \<Rightarrow> 's \<Rightarrow> unit Result \<times> 's" where
  "on_node_join callbacks node_id hostname bind_address bind_port services s =
     (case callbacks of
        None \<Rightarrow> (Err EC_INVALID_ARG, s)
      | Some cb \<Rightarrow> (Ok (), cb_on_node_join cb \<lparr>nj_node_id = node_id, nj_hostname = hostname,
          nj_bind_address = bind_address, nj_bind_port = bind_port, nj_services = services\<rparr> s))"

definition on_node_leave :: "'s TopologyUpdateCallbacks option \<Rightarrow> bytes \<Rightarrow> 's \<Rightarrow> unit Result \<times> 's" where
  "on_node_leave callbacks node_id s =
     (case callbacks of
        None \<Rightarrow> (Err EC_INVALID_ARG, s)
      | Some cb \<Rightarrow> (Ok (), cb_on_node_leave cb node_id s))"

definition on_node_heartbeat :: "'s TopologyUpdateCallbacks option \<Rightarrow> bytes \<Rightarrow> 's \<Rightarrow> 's" where
  "on_node_heartbeat callbacks node_id s =
     (case callbacks of None \<Rightarrow> s | Some cb \<Rightarrow> cb_on_node_heartbeat cb node_id s)"

definition has_callbacks :: "'s TopologyUpdateCallbacks option \<Rightarrow> bool" where
  "has_callbacks callbacks = (callbacks \<noteq> None)"

end
