(* ===== verification/Registry_Threads.thy ===== *)
theory Registry_Threads
  imports Registry Step_Systems
begin

text \<open>
  \<open>register_node\<close>, \<open>unregister_node\<close> and \<open>unsubscribe\<close> of
  \<open>src/ability_a/registry/service_registry.cpp\<close>, called from any number of threads. The table is
  changed under one lock, the callbacks are copied under another, and they are called after both
  locks are released, one by one; these are the steps. With \<open>par = False\<close> no call begins on a node
  that another call in progress is about.

  Shown: then every subscriber can still rebuild the table from what it is told; without that
  condition it cannot, and a callback may run after its subscription has been cancelled. A call that
  changes nothing (a node without a name, a removal of an unknown one) notifies nobody and is no
  step; \<open>clear\<close>, which notifies nobody either, and \<open>subscribe\<close> are not among the steps.
\<close>

section \<open>Steps\<close>

datatype 'cb reg_pc = R_idle | R_copy RegistryEvent RegistryEntry | R_call "'cb reg_call list"

record 'cb reg_threads =
  rg_reg :: "'cb registry"
  rg_pc :: "nat \<Rightarrow> 'cb reg_pc"
  rg_calls :: "'cb reg_call list"

definition rg_new :: "'cb registry \<Rightarrow> 'cb reg_threads" where
  "rg_new r = \<lparr>rg_reg = r, rg_pc = (\<lambda>_. R_idle), rg_calls = []\<rparr>"

definition call_key :: "'cb reg_call \<Rightarrow> bytes" where
  "call_key x = re_node_id (snd (snd (snd x)))"

text \<open>The node that a call in progress is about.\<close>

fun pc_key :: "'cb reg_pc \<Rightarrow> bytes option" where
  "pc_key R_idle = None"
| "pc_key (R_copy ev e) = Some (re_node_id e)"
| "pc_key (R_call []) = None"
| "pc_key (R_call (x # xs)) = Some (call_key x)"

definition rg_free :: "bool \<Rightarrow> nat \<Rightarrow> bytes \<Rightarrow> 'cb reg_threads \<Rightarrow> bool" where
  "rg_free par c k s = (rg_pc s c = R_idle \<and> (par \<or> (\<forall>d. pc_key (rg_pc s d) \<noteq> Some k)))"

definition rg_goto :: "nat \<Rightarrow> 'cb reg_pc \<Rightarrow> 'cb reg_threads \<Rightarrow> 'cb reg_threads" where
  "rg_goto c p s = s\<lparr>rg_pc := (rg_pc s)(c := p)\<rparr>"

inductive rgstep :: "bool \<Rightarrow> 'cb reg_threads \<Rightarrow> 'cb reg_threads \<Rightarrow> bool" for par where
  register: "\<lbrakk>rg_free par c (re_node_id e) s; re_node_id e \<noteq> []; register_node e (rg_reg s) = (Ok is_new, r, calls)\<rbrakk> \<Longrightarrow>
    rgstep par s (rg_goto c (R_copy (if is_new then Add else Update) e) (s\<lparr>rg_reg := r\<rparr>))"
| unregister: "\<lbrakk>rg_free par c k s; kv_get (reg_nodes (rg_reg s)) k = Some e; unregister_node k (rg_reg s) = (Ok ok, r, calls)\<rbrakk> \<Longrightarrow>
    rgstep par s (rg_goto c (R_copy Remove e) (s\<lparr>rg_reg := r\<rparr>))"
| copy: "rg_pc s c = R_copy ev e \<Longrightarrow> rgstep par s (rg_goto c (R_call (notify ev e (rg_reg s))) s)"
| call: "rg_pc s c = R_call (x # xs) \<Longrightarrow> rgstep par s (rg_goto c (R_call xs) (s\<lparr>rg_calls := rg_calls s @ [x]\<rparr>))"
| return: "rg_pc s c = R_call [] \<Longrightarrow> rgstep par s (rg_goto c R_idle s)"
| cancel: "rgstep par s (s\<lparr>rg_reg := unsubscribe h (rg_reg s)\<rparr>)"

abbreviation rgsteps :: "bool \<Rightarrow> 'cb reg_threads \<Rightarrow> 'cb reg_threads \<Rightarrow> bool" where
  "rgsteps par \<equiv> (rgstep par)\<^sup>*\<^sup>*"

lemmas rgsteps_refl = rtranclp.rtrancl_refl [of "rgstep par" for par]
lemmas rgsteps_snoc = rtranclp.rtrancl_into_rtrancl [of "rgstep par" for par]

definition rg_reachable :: "bool \<Rightarrow> 'cb registry \<Rightarrow> 'cb reg_threads set" where
  "rg_reachable par r = {s. rgsteps par (rg_new r) s}"

section \<open>One call at a time for each node\<close>

definition pc_events :: "u64 \<Rightarrow> 'cb reg_pc \<Rightarrow> (RegistryEvent \<times> RegistryEntry) list" where
  "pc_events sid p = (case p of R_idle \<Rightarrow> [] | R_copy ev e \<Rightarrow> [(ev, e)] | R_call xs \<Rightarrow> seen_by sid xs)"

definition pc_ok :: "'cb reg_pc \<Rightarrow> bool" where
  "pc_ok p = (case p of R_call (x # xs) \<Rightarrow> list_all (\<lambda>y. call_key y = call_key x) xs | _ \<Rightarrow> True)"

text \<open>The table that the subscriber has rebuilt so far.\<close>

definition rebuilt :: "'cb registry \<Rightarrow> u64 \<Rightarrow> 'cb reg_threads \<Rightarrow> bytes \<Rightarrow> RegistryEntry option" where
  "rebuilt r0 sid s = fold mirror_event (seen_by sid (rg_calls s)) (kv_get (reg_nodes r0))"

definition subscribed :: "u64 \<Rightarrow> 'cb reg_threads \<Rightarrow> bool" where
  "subscribed sid s = (\<exists>cb. kv_get (reg_subs (rg_reg s)) sid = Some (Some cb))"

definition rg_inv :: "'cb registry \<Rightarrow> u64 \<Rightarrow> 'cb reg_threads \<Rightarrow> bool" where
  "rg_inv r0 sid s = (reg_ok (rg_reg s) \<and> (\<forall>c. pc_ok (rg_pc s c)) \<and>
     (\<forall>c d k. pc_key (rg_pc s c) = Some k \<longrightarrow> pc_key (rg_pc s d) = Some k \<longrightarrow> c = d) \<and>
     (subscribed sid s \<longrightarrow>
       (\<forall>c k. pc_key (rg_pc s c) = Some k \<longrightarrow>
         kv_get (reg_nodes (rg_reg s)) k = fold mirror_event (pc_events sid (rg_pc s c)) (rebuilt r0 sid s) k) \<and>
       (\<forall>k. (\<forall>c. pc_key (rg_pc s c) \<noteq> Some k) \<longrightarrow> kv_get (reg_nodes (rg_reg s)) k = rebuilt r0 sid s k)))"

lemma rg_goto_fields [simp]:
  "rg_reg (rg_goto c p s) = rg_reg s" "rg_calls (rg_goto c p s) = rg_calls s" "rg_pc (rg_goto c p s) = (rg_pc s)(c := p)"
  by (simp_all add: rg_goto_def)

lemma subscribed_goto [simp]: "subscribed sid (rg_goto c p s) = subscribed sid s" "rebuilt r0 sid (rg_goto c p s) = rebuilt r0 sid s"
  by (simp_all add: subscribed_def rebuilt_def)

lemma rebuilt_reg [simp]: "rebuilt r0 sid (s\<lparr>rg_reg := r\<rparr>) = rebuilt r0 sid s"
  by (simp add: rebuilt_def)

lemma notify_keys: "list_all (\<lambda>x. call_key x = re_node_id e) (notify ev e r)"
  by (auto simp: list_all_iff notify_def call_key_def List.map_filter_def split: prod.splits)

lemma pc_ok_notify: "pc_ok (R_call (notify ev e r))"
  using notify_keys [of e ev r] by (auto simp: pc_ok_def list_all_iff split: list.splits)

lemma pc_key_notify: "pc_key (R_call (notify ev e r)) = Some k \<Longrightarrow> k = re_node_id e"
  using notify_keys [of e ev r] by (cases "notify ev e r") auto

lemma mirror_local: "m k = m' k \<Longrightarrow> fold mirror_event evs m k = fold mirror_event evs m' k"
proof (induction evs arbitrary: m m')
  case (Cons x evs)
  have "mirror_event x m k = mirror_event x m' k"
    using Cons.prems by (cases x; cases "fst x") (auto simp: mirror_event_def)
  from Cons.IH [of "mirror_event x m" "mirror_event x m'", OF this] show ?case by simp
qed simp

lemma rg_invD:
  assumes "rg_inv r0 sid s"
  shows "reg_ok (rg_reg s)" "pc_ok (rg_pc s c)"
    "pc_key (rg_pc s c) = Some k \<Longrightarrow> pc_key (rg_pc s d) = Some k \<Longrightarrow> c = d"
    "subscribed sid s \<Longrightarrow> pc_key (rg_pc s c) = Some k \<Longrightarrow>
      kv_get (reg_nodes (rg_reg s)) k = fold mirror_event (pc_events sid (rg_pc s c)) (rebuilt r0 sid s) k"
    "subscribed sid s \<Longrightarrow> (\<And>c. pc_key (rg_pc s c) \<noteq> Some k) \<Longrightarrow> kv_get (reg_nodes (rg_reg s)) k = rebuilt r0 sid s k"
  using assms unfolding rg_inv_def by blast+

text \<open>A step of caller \<open>c\<close> keeps the invariant if it is right about the nodes of \<open>c\<close> and leaves the others alone.\<close>

lemma rg_inv_update:
  assumes "rg_inv r0 sid s" "rg_pc s' = (rg_pc s)(c := p)" "reg_ok (rg_reg s')" "pc_ok p" "subscribed sid s' \<Longrightarrow> subscribed sid s"
    and alone: "\<And>k d. pc_key p = Some k \<Longrightarrow> pc_key (rg_pc s d) = Some k \<Longrightarrow> d = c"
    and new: "\<And>k. subscribed sid s' \<Longrightarrow> pc_key p = Some k \<Longrightarrow>
      kv_get (reg_nodes (rg_reg s')) k = fold mirror_event (pc_events sid p) (rebuilt r0 sid s') k"
    and old: "\<And>k. subscribed sid s' \<Longrightarrow> pc_key p \<noteq> Some k \<Longrightarrow> pc_key (rg_pc s c) = Some k \<Longrightarrow>
      kv_get (reg_nodes (rg_reg s')) k = rebuilt r0 sid s' k"
    and rest: "\<And>k. pc_key p \<noteq> Some k \<Longrightarrow> pc_key (rg_pc s c) \<noteq> Some k \<Longrightarrow>
      kv_get (reg_nodes (rg_reg s')) k = kv_get (reg_nodes (rg_reg s)) k \<and> rebuilt r0 sid s' k = rebuilt r0 sid s k"
  shows "rg_inv r0 sid s'"
proof -
  note inv = rg_invD [OF assms(1)]
  have mine: "e = c" if "pc_key p = Some k" "pc_key (rg_pc s' e) = Some k" for e k
  proof (rule ccontr)
    assume "e \<noteq> c"
    with that(2) assms(2) have "pc_key (rg_pc s e) = Some k" by simp
    from alone [OF that(1) this] \<open>e \<noteq> c\<close> show False by simp
  qed
  have two: "d = d'" if "pc_key (rg_pc s' d) = Some k" "pc_key (rg_pc s' d') = Some k" for d d' k
  proof (cases "pc_key p = Some k")
    case True
    from mine [OF True that(1)] mine [OF True that(2)] show ?thesis by simp
  next
    case False
    with that assms(2) have "pc_key (rg_pc s d) = Some k" "pc_key (rg_pc s d') = Some k" by (auto split: if_splits)
    then show ?thesis by (rule inv(3))
  qed
  have at: "kv_get (reg_nodes (rg_reg s')) k = fold mirror_event (pc_events sid (rg_pc s' d)) (rebuilt r0 sid s') k"
    if "subscribed sid s'" "pc_key (rg_pc s' d) = Some k" for d k
  proof (cases "d = c")
    case True
    with that new assms(2) show ?thesis by simp
  next
    case False
    then have d: "pc_key (rg_pc s d) = Some k" using that(2) assms(2) by simp
    then have "pc_key p \<noteq> Some k" "pc_key (rg_pc s c) \<noteq> Some k" using alone inv(3) False by blast+
    from rest [OF this] show ?thesis
      using inv(4) [OF assms(5) [OF that(1)] d] False assms(2)
        mirror_local [of "rebuilt r0 sid s'" k "rebuilt r0 sid s" "pc_events sid (rg_pc s d)"] by simp
  qed
  have off: "kv_get (reg_nodes (rg_reg s')) k = rebuilt r0 sid s' k"
    if "subscribed sid s'" "\<forall>d. pc_key (rg_pc s' d) \<noteq> Some k" for k
  proof (cases "pc_key (rg_pc s c) = Some k")
    case True
    have "pc_key p \<noteq> Some k" using that(2) [rule_format, of c] assms(2) by simp
    with that True old show ?thesis by blast
  next
    case False
    have p: "pc_key p \<noteq> Some k" using that(2) [rule_format, of c] assms(2) by simp
    have "pc_key (rg_pc s d) \<noteq> Some k" for d using that(2) [rule_format, of d] False assms(2) by (cases "d = c") auto
    with rest [OF p False] inv(5) [OF assms(5) [OF that(1)]] show ?thesis by simp
  qed
  have "pc_ok (rg_pc s' d)" for d using inv(2) assms(4) unfolding assms(2) by simp
  with assms(3) two at off show ?thesis unfolding rg_inv_def by blast
qed

lemma rg_inv_step:
  assumes "rgstep False s s'" "rg_inv r0 sid s"
  shows "rg_inv r0 sid s'"
proof -
  note inv = rg_invD [OF assms(2)]
  note ok = inv(1)
  have alone: "d = c" if "pc_key (rg_pc s c) = Some k" "pc_key (rg_pc s d) = Some k" for c d k
    using inv(3) that by blast
  have off: "kv_get (reg_nodes (rg_reg s)) k = rebuilt r0 sid s k" if "rg_free False c k s" "subscribed sid s" for c k
    using inv(5) [OF that(2), of k] that(1) by (simp add: rg_free_def)
  show ?thesis using assms(1)
  proof (cases rule: rgstep.cases)
    case (register c e is_new r calls)
    have r: "r = fst (snd (register_node e (rg_reg s)))" using register(4) by simp
    show ?thesis unfolding register(1)
    proof (rule rg_inv_update [OF assms(2), of _ c "R_copy (if is_new then Add else Update) e"])
      show "reg_ok (rg_reg (rg_goto c (R_copy (if is_new then Add else Update) e) (s\<lparr>rg_reg := r\<rparr>)))"
        using reg.put_ok [OF ok] by (simp add: r)
    qed (use register off [of c "re_node_id e"] in \<open>auto simp: rg_free_def pc_ok_def pc_events_def mirror_event_def subscribed_def
        register_node_def Let_def split: if_splits\<close>)
  next
    case (unregister c k e ok' r calls)
    have e: "re_node_id e = k" using ok map_of_SomeD [OF unregister(3)] by (auto simp: reg_ok_def)
    have r: "r = fst (snd (unregister_node k (rg_reg s)))" using unregister(4) by simp
    show ?thesis unfolding unregister(1)
    proof (rule rg_inv_update [OF assms(2), of _ c "R_copy Remove e"])
      show "reg_ok (rg_reg (rg_goto c (R_copy Remove e) (s\<lparr>rg_reg := r\<rparr>)))"
        using reg.del_ok [OF ok] by (simp add: r)
    qed (use unregister off [of c k] e in \<open>auto simp: rg_free_def pc_ok_def pc_events_def mirror_event_def subscribed_def
        unregister_node_def Let_def split: if_splits\<close>)
  next
    case (copy c ev e)
    have at: "kv_get (reg_nodes (rg_reg s)) (re_node_id e) = fold mirror_event [(ev, e)] (rebuilt r0 sid s) (re_node_id e)"
      if "subscribed sid s"
      using inv(4) [OF that, of c "re_node_id e"] by (simp add: copy(2) pc_events_def)
    have seen: "seen_by sid (notify ev e (rg_reg s)) = [(ev, e)]" if "subscribed sid s"
      using that ok seen_by_notify [of "rg_reg s" sid _ ev e] by (auto simp: subscribed_def reg_ok_def)
    show ?thesis unfolding copy(1)
    proof (rule rg_inv_update [OF assms(2), of _ c "R_call (notify ev e (rg_reg s))"])
      fix k
      assume "subscribed sid (rg_goto c (R_call (notify ev e (rg_reg s))) s)"
      moreover assume "pc_key (R_call (notify ev e (rg_reg s))) \<noteq> Some k" "pc_key (rg_pc s c) = Some k"
      ultimately show "kv_get (reg_nodes (rg_reg (rg_goto c (R_call (notify ev e (rg_reg s))) s))) k =
          rebuilt r0 sid (rg_goto c (R_call (notify ev e (rg_reg s))) s) k"
        using seen copy(2) notify_keys [of e ev "rg_reg s"] by (cases "notify ev e (rg_reg s)") (auto simp: seen_by_def)
    qed (use copy(2) ok at seen alone in \<open>auto simp: pc_ok_notify pc_events_def dest: pc_key_notify\<close>)
  next
    case (call c x xs)
    have xs: "list_all (\<lambda>y. call_key y = call_key x) xs" using inv(2) [of c] by (simp add: call(2) pc_ok_def)
    then have xs': "pc_ok (R_call xs)" "pc_key (R_call xs) = Some k \<Longrightarrow> k = call_key x" for k
      by (cases xs; auto simp: pc_ok_def list_all_iff)+
    define s1 where "s1 = rg_goto c (R_call xs) (s\<lparr>rg_calls := rg_calls s @ [x]\<rparr>)"
    have m: "rebuilt r0 sid s1 = fold mirror_event (seen_by sid [x]) (rebuilt r0 sid s)"
      by (simp add: s1_def rebuilt_def seen_by_append)
    have other: "rebuilt r0 sid s1 k = rebuilt r0 sid s k" if "k \<noteq> call_key x" for k
      using that unfolding m by (auto simp: seen_by_def call_key_def mirror_event_def split: prod.split RegistryEvent.split)
    have at: "kv_get (reg_nodes (rg_reg s)) (call_key x) = fold mirror_event (seen_by sid xs) (rebuilt r0 sid s1) (call_key x)"
      if "subscribed sid s"
      using inv(4) [OF that, of c "call_key x"] seen_by_append [of sid "[x]" xs] unfolding m
      by (simp add: call(2) pc_events_def)
    have same: "subscribed sid s1 = subscribed sid s" "rg_reg s1 = rg_reg s" "rg_pc s1 = (rg_pc s)(c := R_call xs)"
      by (simp_all add: s1_def subscribed_def)
    show ?thesis unfolding call(1) s1_def [symmetric]
    proof (rule rg_inv_update [OF assms(2) same(3)])
      show "pc_key (R_call xs) = Some k \<Longrightarrow> pc_key (rg_pc s d) = Some k \<Longrightarrow> d = c" for k d
        using xs'(2) [of k] alone [of c k d] by (simp add: call(2))
      show "subscribed sid s1 \<Longrightarrow> pc_key (R_call xs) = Some k \<Longrightarrow>
          kv_get (reg_nodes (rg_reg s1)) k = fold mirror_event (pc_events sid (R_call xs)) (rebuilt r0 sid s1) k" for k
        using xs'(2) [of k] at by (simp add: same pc_events_def)
      show "kv_get (reg_nodes (rg_reg s1)) k = rebuilt r0 sid s1 k"
        if "subscribed sid s1" "pc_key (R_call xs) \<noteq> Some k" "pc_key (rg_pc s c) = Some k" for k
      proof -
        have "k = call_key x" using that(3) by (simp add: call(2))
        moreover have "xs = []" using that(2) xs by (cases xs) (auto simp: calculation)
        ultimately show ?thesis using at that(1) by (simp add: same seen_by_def)
      qed
    qed (use ok xs'(1) other in \<open>auto simp: same call(2)\<close>)
  next
    case (return c)
    show ?thesis unfolding return(1)
      by (rule rg_inv_update [OF assms(2), of _ c R_idle]) (use ok return(2) in \<open>auto simp: pc_ok_def\<close>)
  next
    case (cancel h)
    have "subscribed sid s" if "subscribed sid (s\<lparr>rg_reg := unsubscribe h (rg_reg s)\<rparr>)"
      using that by (auto simp: subscribed_def unsubscribe_def split: if_splits)
    moreover have "reg_ok (unsubscribe h (rg_reg s))" using ok by (simp add: reg_ok_def unsubscribe_def)
    ultimately show ?thesis unfolding cancel rg_inv_def using inv by (simp add: unsubscribe_def)
  qed
qed

lemma rg_inv_new: "reg_ok r0 \<Longrightarrow> rg_inv r0 sid (rg_new r0)"
  by (auto simp: rg_inv_def rg_new_def pc_ok_def rebuilt_def seen_by_def)

interpretation rg_sys: step_system "rgstep False" "rg_new r0" "\<lambda>s. reg_ok r0 \<longrightarrow> rg_inv r0 sid s" for r0 sid
  by unfold_locales (auto intro: rg_inv_new rg_inv_step)

text \<open>
  C21. With at most one call in progress for each node, any interleaving of registrations, removals,
  cancellations and callbacks keeps the subscribers informed: in every reachable state in which no
  call is in progress, the events that a subscriber has been told rebuild the table.
\<close>

theorem registry_threads_mirror:
  assumes "reg_ok r0" "s \<in> rg_reachable False r0" "rg_pc s = (\<lambda>_. R_idle)" "kv_get (reg_subs (rg_reg s)) sid = Some (Some cb)"
  shows "kv_get (reg_nodes (rg_reg s)) = fold mirror_event (seen_by sid (rg_calls s)) (kv_get (reg_nodes r0))"
proof -
  have i: "rg_inv r0 sid s" using assms(1,2) rg_sys.reachable_inv by (auto simp: rg_reachable_def)
  have "kv_get (reg_nodes (rg_reg s)) k = rebuilt r0 sid s k" for k
    by (rule rg_invD(5) [OF i]) (use assms(3,4) in \<open>auto simp: subscribed_def\<close>)
  then show ?thesis by (auto simp: rebuilt_def)
qed

section \<open>Calls that overtake each other\<close>

definition one_subscriber :: "unit registry" where
  "one_subscriber = snd (subscribe (Some ()) registry_new)"

lemma one_subscriber [simp]:
  "reg_nodes one_subscriber = []" "reg_subs one_subscriber = [(1, Some ())]" "reg_ok one_subscriber"
  by (simp_all add: one_subscriber_def subscribe_def registry_new_def Let_def reg_ok_def)

abbreviation (input) node_a :: RegistryEntry where "node_a \<equiv> sample_reg_entry 65 1"

text \<open>Thread 0 has registered a node and copied the callbacks, and has not called them yet.\<close>

definition registered :: "unit reg_threads" where
  "registered = rg_goto 0 (R_call [(1, (), Add, node_a)])
     ((rg_new one_subscriber)\<lparr>rg_reg := one_subscriber\<lparr>reg_nodes := [([65], node_a)]\<rparr>\<rparr>)"

lemma registered_reachable: "rgsteps par (rg_new one_subscriber) registered"
proof -
  let ?s = "rg_goto 0 (R_copy Add node_a) ((rg_new one_subscriber)\<lparr>rg_reg := one_subscriber\<lparr>reg_nodes := [([65], node_a)]\<rparr>\<rparr>)"
  have "rgstep par (rg_new one_subscriber) ?s"
    using register [of par 0 node_a "rg_new one_subscriber" True]
    by (simp add: rg_free_def rg_new_def sample_reg_entry_def register_node_def Let_def)
  then have "rgsteps par (rg_new one_subscriber) ?s" by (rule rgsteps_snoc [OF rgsteps_refl])
  moreover have "rgstep par ?s registered"
    using copy [of ?s 0 Add node_a par] by (simp add: registered_def rg_goto_def notify_def List.map_filter_simps)
  ultimately show ?thesis by (rule rgsteps_snoc)
qed

lemma registry_threads_mirror_witness:
  "let s = rg_goto 0 R_idle (registered\<lparr>rg_calls := [(1, (), Add, node_a)]\<rparr>) in
    s \<in> rg_reachable False one_subscriber \<and>
    kv_get (reg_nodes (rg_reg s)) = fold mirror_event (seen_by 1 (rg_calls s)) Map.empty"
proof -
  let ?s1 = "rg_goto 0 (R_call []) (registered\<lparr>rg_calls := [(1, (), Add, node_a)]\<rparr>)"
  define s where "s = rg_goto 0 R_idle (registered\<lparr>rg_calls := [(1, (), Add, node_a)]\<rparr>)"
  have "rgstep False registered ?s1"
    using call [of registered 0 "(1, (), Add, node_a)" "[]" False] by (simp add: registered_def rg_goto_def rg_new_def)
  moreover have "rgstep False ?s1 s" using return [of ?s1 0 False] by (simp add: s_def rg_goto_def)
  ultimately have "s \<in> rg_reachable False one_subscriber"
    unfolding rg_reachable_def using rgsteps_snoc [OF rgsteps_snoc [OF registered_reachable]] by blast
  moreover have "rg_pc s = (\<lambda>_. R_idle)" "kv_get (reg_subs (rg_reg s)) 1 = Some (Some ())"
    by (simp_all add: s_def registered_def rg_goto_def rg_new_def fun_eq_iff)
  ultimately show ?thesis
    using registry_threads_mirror [of one_subscriber s 1 "()"] unfolding s_def Let_def by simp
qed

text \<open>
  C22. Without that condition the subscribers are misinformed: when a removal overtakes the callbacks of
  the registration of the same node, the subscriber hears of the removal first. Both calls are then
  over, the table is empty, and what the subscriber has rebuilt holds the node for good.
\<close>

theorem registry_events_overtake:
  "\<exists>s \<in> rg_reachable True one_subscriber. rg_pc s = (\<lambda>_. R_idle) \<and> kv_get (reg_subs (rg_reg s)) 1 = Some (Some ()) \<and>
    reg_nodes (rg_reg s) = [] \<and> seen_by 1 (rg_calls s) = [(Remove, node_a), (Add, node_a)] \<and>
    fold mirror_event (seen_by 1 (rg_calls s)) Map.empty = [[65] \<mapsto> node_a]"
proof -
  let ?x = "(1, (), Add, node_a)" and ?y = "(1, (), Remove, node_a)"
  let ?s2 = "rg_goto 1 (R_copy Remove node_a) (registered\<lparr>rg_reg := one_subscriber\<lparr>reg_nodes := []\<rparr>\<rparr>)"
  have 2: "rgsteps True (rg_new one_subscriber) ?s2"
    by (rule rgsteps_snoc [OF registered_reachable unregister [where k = "[65]" and ok = True]])
      (simp_all add: registered_def rg_free_def rg_new_def unregister_node_def Let_def)
  let ?s3 = "rg_goto 1 (R_call [?y]) ?s2"
  have 3: "rgsteps True (rg_new one_subscriber) ?s3"
    using rgsteps_snoc [OF 2 copy [of _ 1 Remove node_a]] by (simp add: rg_goto_def notify_def List.map_filter_simps)
  let ?s4 = "rg_goto 1 (R_call []) (?s3\<lparr>rg_calls := rg_calls ?s3 @ [?y]\<rparr>)"
  have 4: "rgsteps True (rg_new one_subscriber) ?s4" by (rule rgsteps_snoc [OF 3 call]) simp
  let ?s5 = "rg_goto 0 (R_call []) (?s4\<lparr>rg_calls := rg_calls ?s4 @ [?x]\<rparr>)"
  have 5: "rgsteps True (rg_new one_subscriber) ?s5" by (rule rgsteps_snoc [OF 4 call]) (simp add: registered_def rg_goto_def)
  let ?s6 = "rg_goto 1 R_idle ?s5"
  have 6: "rgsteps True (rg_new one_subscriber) ?s6" by (rule rgsteps_snoc [OF 5 return]) (simp add: rg_goto_def)
  let ?s7 = "rg_goto 0 R_idle ?s6"
  have 7: "rgsteps True (rg_new one_subscriber) ?s7" by (rule rgsteps_snoc [OF 6 return]) (simp add: rg_goto_def)
  have "rg_calls ?s7 = [?y, ?x]" "rg_pc ?s7 = (\<lambda>_. R_idle)" "rg_reg ?s7 = one_subscriber\<lparr>reg_nodes := []\<rparr>"
    by (simp_all add: registered_def rg_goto_def rg_new_def fun_eq_iff)
  then show ?thesis
    using 7 by (intro bexI [of _ ?s7]) (auto simp: rg_reachable_def seen_by_def mirror_event_def sample_reg_entry_def)
qed

text \<open>A callback runs after its subscription has been cancelled: it had been copied before.\<close>

theorem callback_after_cancel:
  "\<exists>s \<in> rg_reachable True one_subscriber. \<exists>t. kv_get (reg_subs (rg_reg s)) 1 = None \<and> rgstep True s t \<and>
    rg_calls t = rg_calls s @ [(1, (), Add, node_a)]"
proof -
  let ?s = "registered\<lparr>rg_reg := unsubscribe 1 (rg_reg registered)\<rparr>"
  have "?s \<in> rg_reachable True one_subscriber"
    unfolding rg_reachable_def using rgsteps_snoc [OF registered_reachable cancel] by blast
  moreover have "rgstep True ?s (rg_goto 0 (R_call []) (?s\<lparr>rg_calls := rg_calls ?s @ [(1, (), Add, node_a)]\<rparr>))"
    by (rule call) (simp add: registered_def)
  moreover have "kv_get (reg_subs (rg_reg ?s)) 1 = None" by (simp add: unsubscribe_def)
  ultimately show ?thesis by (intro bexI [of _ ?s] exI conjI) (assumption | simp add: rg_goto_def)+
qed

end
