(* ===== verification/Serializer.thy ===== *)
theory Serializer
  imports Interfaces
begin

text \<open>
  \<open>src/ability_b/serialization/serializer.hpp\<close> and \<open>serializer.cpp\<close>: the typed
  frame around a payload. A serializer's virtual members are the fields of a record
  \<open>serializer_vt\<close>; \<open>derived_vt\<close> is what the template \<open>Serializer<T, Derived>\<close>
  makes of a derived class. A frame is magic, schema version, one byte of type-name length,
  the type name and the payload. Byte sequences as strings: a \<open>std::string\<close> is its bytes.
\<close>

unbundle bit_operations_syntax

section \<open>Big-endian words\<close>

definition kCodecMagic :: u32 where "kCodecMagic = 0x55444146"
definition kHeaderSize :: nat where "kHeaderSize = 4 + 4 + 1"

definition write_u32_be :: "bytes \<Rightarrow> u32 \<Rightarrow> bytes" where
  "write_u32_be out v = out @ [ucast (drop_bit 24 v AND 0xFF), ucast (drop_bit 16 v AND 0xFF),
     ucast (drop_bit 8 v AND 0xFF), ucast (v AND 0xFF)]"

definition read_u32_be :: "bytes \<Rightarrow> u32" where
  "read_u32_be buf = push_bit 24 (ucast (buf ! 0)) OR push_bit 16 (ucast (buf ! 1))
     OR push_bit 8 (ucast (buf ! 2)) OR ucast (buf ! 3)"

lemma ff_mask: "(0xFF :: u32) = mask 8"
  by (simp add: mask_eq_exp_minus_1)

lemma read_write_u32_be: "read_u32_be (write_u32_be [] v) = v"
proof (rule bit_word_eqI)
  fix n assume n: "n < LENGTH(32)"
  then consider "n < 8" | "8 \<le> n" "n < 16" | "16 \<le> n" "n < 24" | "24 \<le> n" "n < 32"
    by fastforce
  then show "bit (read_u32_be (write_u32_be [] v)) n = bit v n"
    by cases (auto simp: read_u32_be_def write_u32_be_def ff_mask bit_simps)
qed

lemma write_read_u32_be:
  assumes "length bs = 4"
  shows "write_u32_be [] (read_u32_be bs) = bs"
proof -
  obtain a b c d where bs: "bs = [a, b, c, d]"
    using assms by (auto simp: numeral_eq_Suc length_Suc_conv)
  have byte: "ucast (x AND 0xFF :: u32) = y" if "\<And>n. n < 8 \<Longrightarrow> bit x n = bit y n" for x :: u32 and y :: byte
    by (rule bit_word_eqI) (use that in \<open>auto simp: ff_mask bit_simps\<close>)
  have "read_u32_be bs = push_bit 24 (ucast a) OR push_bit 16 (ucast b) OR push_bit 8 (ucast c) OR ucast d"
    by (simp add: read_u32_be_def bs)
  moreover have "\<not> bit y (8 + n)" "\<not> bit y (16 + n)" "\<not> bit y (24 + n)" for y :: byte and n
    by (auto dest: bit_imp_le_length)
  ultimately show ?thesis unfolding bs write_u32_be_def
    by (auto intro!: byte simp: bit_simps)
qed

lemma length_write_u32_be [simp, codec_simps]: "length (write_u32_be out v) = length out + 4"
  by (simp add: write_u32_be_def)

lemma write_u32_be_app: "write_u32_be out v = out @ write_u32_be [] v"
  by (simp add: write_u32_be_def)

section \<open>The serializer base class\<close>

record 's serializer_vt =
  vt_type_name :: bytes
  vt_schema_version :: u32
  vt_accepts_type :: "bytes \<Rightarrow> bool"
  vt_encode_payload :: "'s \<Rightarrow> bytes Result"
  vt_decode_payload_inplace :: "bytes \<Rightarrow> 's \<Rightarrow> unit Result \<times> 's"

text \<open>
  \<open>mem_ok\<close>: whether the allocations succeed; if not, the exception handler answers
  \<open>RES_MEMORY_EXHAUSTED\<close>.
\<close>

definition encode :: "'s serializer_vt \<Rightarrow> bool \<Rightarrow> bytes \<Rightarrow> 's \<Rightarrow> bytes Result" where
  "encode vt mem_ok unused_payload s =
     (if \<not> mem_ok then Err EC_RES_MEMORY_EXHAUSTED
      else case vt_encode_payload vt s of
        Err c \<Rightarrow> Err c
      | Uninitialized \<Rightarrow> Uninitialized
      | Ok p \<Rightarrow>
          let tn = vt_type_name vt
          in if 255 < length tn then Err EC_SERIALIZE_TYPE_MISMATCH
             else Ok (write_u32_be (write_u32_be [] kCodecMagic) (vt_schema_version vt)
                        @ [of_nat (length tn)] @ tn @ p))"

definition decode_payload :: "'s serializer_vt \<Rightarrow> bytes \<Rightarrow> 's \<Rightarrow> bytes Result \<times> 's" where
  "decode_payload vt frame s =
     (if length frame < kHeaderSize then (Err EC_SERIALIZE_DECODE_FAILED, s)
      else if read_u32_be (slice 0 4 frame) \<noteq> kCodecMagic then (Err EC_SERIALIZE_VERSION_MISMATCH, s)
      else if read_u32_be (slice 4 4 frame) \<noteq> vt_schema_version vt
      then (Err EC_SERIALIZE_VERSION_MISMATCH, s)
      else
        let tlen = unat (frame ! 8)
        in if length frame < kHeaderSize + tlen then (Err EC_SERIALIZE_DECODE_FAILED, s)
           else if \<not> vt_accepts_type vt (slice kHeaderSize tlen frame)
           then (Err EC_SERIALIZE_TYPE_MISMATCH, s)
           else
             let payload = drop (kHeaderSize + tlen) frame
             in case vt_decode_payload_inplace vt payload s of
                  (Err c, s') \<Rightarrow> (Err c, s')
                | (_, s') \<Rightarrow> (Ok payload, s'))"

text \<open>The template: the decoded payload is cached before the derived class sees it.\<close>

record 'd serializer =
  cached_payload :: bytes
  derived :: 'd

definition derived_vt :: "bytes \<Rightarrow> u32 \<Rightarrow> ('d serializer \<Rightarrow> bytes Result)
    \<Rightarrow> ('d serializer \<Rightarrow> unit Result \<times> 'd serializer) \<Rightarrow> 'd serializer serializer_vt" where
  "derived_vt tname version encode_payload_impl decode_payload_inplace_impl =
     \<lparr>vt_type_name = tname, vt_schema_version = version,
      vt_accepts_type = (\<lambda>type. type = tname),
      vt_encode_payload = encode_payload_impl,
      vt_decode_payload_inplace =
        (\<lambda>payload s. decode_payload_inplace_impl (s\<lparr>cached_payload := payload\<rparr>))\<rparr>"

section \<open>Round trip\<close>

lemma frame_layout:
  assumes "encode vt True u s = Ok frame"
  obtains p where "vt_encode_payload vt s = Ok p" "length (vt_type_name vt) \<le> 255"
    "frame = write_u32_be [] kCodecMagic @ write_u32_be [] (vt_schema_version vt)
       @ [of_nat (length (vt_type_name vt))] @ vt_type_name vt @ p"
  using assms
  by (auto simp: encode_def Let_def write_u32_be_app [of "write_u32_be [] kCodecMagic"]
      split: Result.splits if_splits)

lemma decode_frame:
  assumes "length tn \<le> 255"
  shows "decode_payload vt (write_u32_be [] m @ write_u32_be [] v @ [of_nat (length tn)] @ tn @ p) s =
    (if m \<noteq> kCodecMagic \<or> v \<noteq> vt_schema_version vt then (Err EC_SERIALIZE_VERSION_MISMATCH, s)
     else if \<not> vt_accepts_type vt tn then (Err EC_SERIALIZE_TYPE_MISMATCH, s)
     else case vt_decode_payload_inplace vt p s of (Err c, s') \<Rightarrow> (Err c, s') | (_, s') \<Rightarrow> (Ok p, s'))"
proof -
  define f where "f = write_u32_be [] m @ write_u32_be [] v @ [of_nat (length tn)] @ tn @ p"
  have "unat (of_nat (length tn) :: byte) = length tn"
    unfolding unat_of_nat using assms by simp
  then have "unat (f ! 8) = length tn" by (simp add: f_def nth_append)
  moreover have "slice 0 4 f = write_u32_be [] m" "slice 4 4 f = write_u32_be [] v"
    "slice kHeaderSize (length tn) f = tn" "drop (kHeaderSize + length tn) f = p"
    "\<not> length f < kHeaderSize + length tn" "\<not> length f < kHeaderSize"
    by (simp_all add: f_def slice_def kHeaderSize_def)
  ultimately have "decode_payload vt f s =
    (if m \<noteq> kCodecMagic \<or> v \<noteq> vt_schema_version vt then (Err EC_SERIALIZE_VERSION_MISMATCH, s)
     else if \<not> vt_accepts_type vt tn then (Err EC_SERIALIZE_TYPE_MISMATCH, s)
     else case vt_decode_payload_inplace vt p s of (Err c, s') \<Rightarrow> (Err c, s') | (_, s') \<Rightarrow> (Ok p, s'))"
    by (simp add: decode_payload_def Let_def read_write_u32_be)
  then show ?thesis unfolding f_def .
qed

text \<open>
  The frame round trip of a derived serializer: a payload that was encoded decodes to
  itself and is the cached payload of the receiver; a receiver of another schema version
  answers \<open>SERIALIZE_VERSION_MISMATCH\<close>, one of another type \<open>SERIALIZE_TYPE_MISMATCH\<close>, and
  both keep their state.
\<close>

theorem serializer_roundtrip:
  assumes "encode (derived_vt tn v enc dec) True u s = Ok frame" "enc s = Ok p"
  shows "decode_payload (derived_vt tn v enc' (\<lambda>s. (Ok (), s))) frame r = (Ok p, r\<lparr>cached_payload := p\<rparr>)
    \<and> (v' \<noteq> v \<longrightarrow> decode_payload (derived_vt tn' v' enc' dec') frame r = (Err EC_SERIALIZE_VERSION_MISMATCH, r))
    \<and> (tn' \<noteq> tn \<longrightarrow> decode_payload (derived_vt tn' v enc' dec') frame r = (Err EC_SERIALIZE_TYPE_MISMATCH, r))"
proof -
  obtain q where q: "enc s = Ok q" "length tn \<le> 255"
    "frame = write_u32_be [] kCodecMagic @ write_u32_be [] v @ [of_nat (length tn)] @ tn @ q"
    by (rule frame_layout [OF assms(1)]) (simp add: derived_vt_def)
  with assms(2) have f: "frame = write_u32_be [] kCodecMagic @ write_u32_be [] v @ [of_nat (length tn)] @ tn @ p"
    by simp
  show ?thesis
    unfolding f decode_frame [OF q(2)] by (auto simp: derived_vt_def)
qed

theorem serializer_roundtrip_witness:
  "decode_payload (derived_vt [99, 109] 2 (\<lambda>s. Ok (cached_payload s)) (\<lambda>s. (Ok (), s)))
     (value_or (encode (derived_vt [99, 109] 2 (\<lambda>s. Ok (cached_payload s)) (\<lambda>s. (Ok (), s))) True []
        \<lparr>cached_payload = [5, 6, 7], derived = ()\<rparr>) []) \<lparr>cached_payload = [], derived = ()\<rparr>
   = (Ok [5, 6, 7], \<lparr>cached_payload = [5, 6, 7], derived = ()\<rparr>)"
proof -
  let ?vt = "derived_vt [99, 109] 2 (\<lambda>s. Ok (cached_payload s)) (\<lambda>s. (Ok (), s)) :: unit serializer serializer_vt"
  let ?s = "\<lparr>cached_payload = [5, 6, 7], derived = ()\<rparr>"
  obtain frame where f: "encode ?vt True [] ?s = Ok frame"
    by (simp add: encode_def derived_vt_def)
  from serializer_roundtrip [OF f, of "[5, 6, 7]" _ "\<lparr>cached_payload = [], derived = ()\<rparr>"] f
  show ?thesis by (simp add: value_or_def)
qed

text \<open>
  \<open>decode_payload\<close> never reads past the frame and never accepts a frame it should not:
  it succeeds only on a frame that is the magic, the serializer's own version, an accepted type
  name with its length, and the returned payload.
\<close>

theorem serializer_decode_sound:
  assumes "decode_payload vt frame s = (Ok p, s')"
  shows "\<exists>tn. frame = write_u32_be [] kCodecMagic @ write_u32_be [] (vt_schema_version vt)
      @ [of_nat (length tn)] @ tn @ p \<and> length tn \<le> 255 \<and> vt_accepts_type vt tn"
proof -
  let ?n = "unat (frame ! 8)" and ?tn = "slice kHeaderSize (unat (frame ! 8)) frame"
  from assms have h: "\<not> length frame < kHeaderSize" "read_u32_be (slice 0 4 frame) = kCodecMagic"
    "read_u32_be (slice 4 4 frame) = vt_schema_version vt" "\<not> length frame < kHeaderSize + ?n"
    "vt_accepts_type vt ?tn" "p = drop (kHeaderSize + ?n) frame"
    by (auto simp: decode_payload_def Let_def split: if_splits prod.splits Result.splits)
  have n: "?n \<le> 255" using unsigned_less [of "frame ! 8", where ?'a = nat] by simp
  have len: "length ?tn = ?n" using h(4) by (simp add: kHeaderSize_def)
  have "frame = slice 0 4 frame @ slice 4 4 frame @ [frame ! 8] @ ?tn @ p"
  proof (rule nth_equalityI)
    show "length frame = length (slice 0 4 frame @ slice 4 4 frame @ [frame ! 8] @ ?tn @ p)"
      using h(1,4,6) by (simp add: kHeaderSize_def)
    fix i assume "i < length frame"
    consider "i < 8" | "i = 8" | "9 \<le> i" by linarith
    then show "frame ! i = (slice 0 4 frame @ slice 4 4 frame @ [frame ! 8] @ ?tn @ p) ! i"
      using h(1,4,6) \<open>i < length frame\<close>
      by cases (auto simp: nth_append kHeaderSize_def slice_def)
  qed
  moreover have "slice 0 4 frame = write_u32_be [] kCodecMagic"
    "slice 4 4 frame = write_u32_be [] (vt_schema_version vt)"
    using write_read_u32_be [of "slice 0 4 frame"] write_read_u32_be [of "slice 4 4 frame"] h(1-3)
    by (simp_all add: kHeaderSize_def)
  moreover have "[frame ! 8] = [of_nat (length ?tn)]" using len by simp
  ultimately show ?thesis using n len h(5) by metis
qed

theorem serializer_decode_sound_witness:
  "\<exists>tn. write_u32_be [] kCodecMagic @ write_u32_be [] 2 @ [1, 65, 7] = write_u32_be [] kCodecMagic @
      write_u32_be [] 2 @ [of_nat (length tn)] @ tn @ [7] \<and> length tn \<le> 255 \<and> tn = [65]"
proof -
  let ?vt = "derived_vt [65] 2 (\<lambda>s. Ok []) (\<lambda>s. (Ok (), s)) :: unit serializer serializer_vt"
  let ?s = "\<lparr>cached_payload = [], derived = ()\<rparr>"
  have "decode_payload ?vt (write_u32_be [] kCodecMagic @ write_u32_be [] 2 @ [1, 65, 7]) ?s
      = (Ok [7], ?s\<lparr>cached_payload := [7]\<rparr>)"
    using decode_frame [of "[65]" ?vt kCodecMagic 2 "[7]" ?s] by (simp add: derived_vt_def)
  from serializer_decode_sound [OF this] show ?thesis by (simp add: derived_vt_def)
qed

end
