(* ===== verification/Topology.thy ===== *)
theory Topology
  imports Interfaces
begin

text \<open>
  \<open>src/ability_b/topology/topology.hpp\<close> and \<open>topology.cpp\<close>: transactions as lists of
  items, the committed state (a map of nodes and a set of edge keys \<open>from|to\<close>), the
  snapshots and the depth-first search for a cycle. Hash containers are association lists
  and lists without repetitions; their iteration order is the list order and no result
  below depends on it. The mutex makes every operation atomic.

  The lemmas show that a commit refines the transaction on a set of nodes and a set of pairs
  (for node names without a bar), that the container invariant is kept, and that
  \<open>has_cycle\<close> answers whether a cycle can be reached, with a bound on its recursion.
\<close>

section \<open>Data\<close>

record PeerNode =
  pn_node_id :: string
  pn_hostname :: string
  pn_bind_address :: string
  pn_bind_port :: u16
  pn_capabilities :: "string list"

record PeerEdge =
  pe_from_node :: string
  pe_to_node :: string
  pe_protocol :: string

datatype TxOp = AddNode | RemoveNode | AddEdge | RemoveEdge

record TxItem =
  tx_op :: TxOp
  tx_a :: string
  tx_b :: string
  tx_tag :: string

type_synonym TopologyTransaction = "TxItem list"

definition add_node :: "PeerNode \<Rightarrow> TopologyTransaction \<Rightarrow> TopologyTransaction" where
  "add_node n tx = tx @ [\<lparr>tx_op = AddNode, tx_a = pn_node_id n, tx_b = pn_hostname n, tx_tag = []\<rparr>]"

definition remove_node :: "string \<Rightarrow> TopologyTransaction \<Rightarrow> TopologyTransaction" where
  "remove_node node_id tx = tx @ [\<lparr>tx_op = RemoveNode, tx_a = node_id, tx_b = [], tx_tag = []\<rparr>]"

definition add_edge :: "PeerEdge \<Rightarrow> TopologyTransaction \<Rightarrow> TopologyTransaction" where
  "add_edge e tx = tx @ [\<lparr>tx_op = AddEdge, tx_a = pe_from_node e, tx_b = pe_to_node e, tx_tag = pe_protocol e\<rparr>]"

definition remove_edge :: "string \<Rightarrow> string \<Rightarrow> TopologyTransaction \<Rightarrow> TopologyTransaction" where
  "remove_edge from_node to_node tx = tx @ [\<lparr>tx_op = RemoveEdge, tx_a = from_node, tx_b = to_node, tx_tag = []\<rparr>]"

definition tx_size :: "TopologyTransaction \<Rightarrow> nat" where
  "tx_size tx = length tx"

definition tx_empty :: "TopologyTransaction \<Rightarrow> bool" where
  "tx_empty tx = (tx = [])"

record topology =
  t_nodes :: "(string, PeerNode) kv"
  t_edges :: "string list"

section \<open>Operations\<close>

definition begin_transaction :: "TopologyTransaction Result" where
  "begin_transaction = Ok []"

definition edge_key :: "string \<Rightarrow> string \<Rightarrow> string" where
  "edge_key a b = a @ ''|'' @ b"

text \<open>\<open>find('|')\<close> and the two \<open>substr\<close> calls; \<open>None\<close> is \<open>npos\<close>.\<close>

definition split_key :: "string \<Rightarrow> (string \<times> string) option" where
  "split_key k = (if CHR ''|'' \<in> set k
     then Some (takeWhile (\<lambda>c. c \<noteq> CHR ''|'') k, tl (dropWhile (\<lambda>c. c \<noteq> CHR ''|'') k)) else None)"

definition empty_node :: PeerNode where
  "empty_node = \<lparr>pn_node_id = [], pn_hostname = [], pn_bind_address = [], pn_bind_port = 0, pn_capabilities = []\<rparr>"

definition incident :: "string \<Rightarrow> string \<Rightarrow> bool" where
  "incident node k = (case split_key k of None \<Rightarrow> False | Some (a, b) \<Rightarrow> a = node \<or> b = node)"

text \<open>\<open>write_to_wal\<close> is empty.\<close>

definition commit_item :: "TxItem \<Rightarrow> topology \<Rightarrow> topology" where
  "commit_item it t =
     (case tx_op it of
        AddNode \<Rightarrow> t\<lparr>t_nodes := kv_put (tx_a it) (empty_node\<lparr>pn_node_id := tx_a it\<rparr>) (t_nodes t)\<rparr>
      | RemoveNode \<Rightarrow> t\<lparr>t_nodes := kv_del (tx_a it) (t_nodes t),
                       t_edges := filter (\<lambda>k. \<not> incident (tx_a it) k) (t_edges t)\<rparr>
      | AddEdge \<Rightarrow> t\<lparr>t_edges := List.insert (edge_key (tx_a it) (tx_b it)) (t_edges t)\<rparr>
      | RemoveEdge \<Rightarrow> t\<lparr>t_edges := removeAll (edge_key (tx_a it) (tx_b it)) (t_edges t)\<rparr>)"

definition commit :: "TopologyTransaction \<Rightarrow> topology \<Rightarrow> unit Result \<times> topology" where
  "commit tx t = (if tx_empty tx then (Err EC_INVALID_ARG, t) else (Ok (), fold commit_item tx t))"

definition node_count :: "topology \<Rightarrow> nat" where
  "node_count t = length (t_nodes t)"

definition edge_count :: "topology \<Rightarrow> nat" where
  "edge_count t = length (t_edges t)"

definition get_node :: "string \<Rightarrow> topology \<Rightarrow> PeerNode Result" where
  "get_node node_id t = (case kv_get (t_nodes t) node_id of
      None \<Rightarrow> Err EC_BIZ_FILE_NOT_FOUND
    | Some n \<Rightarrow> Ok n)"

definition nodes :: "topology \<Rightarrow> PeerNode list" where
  "nodes t = map snd (t_nodes t)"

definition edges :: "topology \<Rightarrow> PeerEdge list" where
  "edges t = List.map_filter (\<lambda>k. map_option (\<lambda>(a, b).
     \<lparr>pe_from_node = a, pe_to_node = b, pe_protocol = []\<rparr>) (split_key k)) (t_edges t)"

definition clear :: "topology \<Rightarrow> topology" where
  "clear t = t\<lparr>t_nodes := [], t_edges := []\<rparr>"

text \<open>
  The search: \<open>visited\<close> and \<open>stack\<close> are sets; \<open>adj\<close> lists the successors. The first
  component of the result is the return value. The fuel bounds the depth of the recursion
  and \<open>None\<close> means it ran out, which \<open>dfs_enough\<close> below excludes for \<open>has_cycle\<close>.
\<close>

definition adjacency :: "topology \<Rightarrow> string \<Rightarrow> string list" where
  "adjacency t u = List.map_filter (\<lambda>k. case split_key k of
     None \<Rightarrow> None | Some (a, b) \<Rightarrow> if a = u then Some b else None) (t_edges t)"

type_synonym marks = "string list \<times> string list"

fun dfs :: "nat \<Rightarrow> (string \<Rightarrow> string list) \<Rightarrow> string \<Rightarrow> marks \<Rightarrow> (bool \<times> marks) option"
  and dfs_all :: "nat \<Rightarrow> (string \<Rightarrow> string list) \<Rightarrow> string list \<Rightarrow> marks \<Rightarrow> (bool \<times> marks) option" where
  "dfs 0 adj u m = None"
| "dfs (Suc n) adj u (visited, stack) =
     (if u \<in> set stack then Some (True, visited, stack)
      else if u \<in> set visited then Some (False, visited, stack)
      else case dfs_all n adj (adj u) (List.insert u visited, List.insert u stack) of
        None \<Rightarrow> None
      | Some (True, m) \<Rightarrow> Some (True, m)
      | Some (False, visited', stack') \<Rightarrow> Some (False, visited', removeAll u stack'))"
| "dfs_all n adj [] m = Some (False, m)"
| "dfs_all n adj (v # vs) m =
     (case dfs n adj v m of
        None \<Rightarrow> None
      | Some (True, m') \<Rightarrow> Some (True, m')
      | Some (False, m') \<Rightarrow> dfs_all n adj vs m')"

definition has_cycle :: "topology \<Rightarrow> bool option" where
  "has_cycle t =
     (if node_count t < 2 then Some False
      else map_option fst (dfs_all (node_count t + 2 * edge_count t + 1) (adjacency t)
             (map fst (t_nodes t)) ([], [])))"

section \<open>The search is right\<close>

definition adj_rel :: "(string \<Rightarrow> string list) \<Rightarrow> (string \<times> string) set" where
  "adj_rel adj = {(u, v). v \<in> set (adj u)}"

definition cyclic_from :: "(string \<Rightarrow> string list) \<Rightarrow> string \<Rightarrow> bool" where
  "cyclic_from adj u = (\<exists>w. (u, w) \<in> (adj_rel adj)\<^sup>* \<and> (w, w) \<in> (adj_rel adj)\<^sup>+)"

lemma dfs_marks:
  "dfs n adj u m = Some (False, m') \<Longrightarrow> set (snd m') = set (snd m) \<and> set (fst m) \<subseteq> set (fst m')"
  "dfs_all n adj vs m = Some (False, m') \<Longrightarrow> set (snd m') = set (snd m) \<and> set (fst m) \<subseteq> set (fst m')"
proof (induction n adj u m and n adj vs m arbitrary: m' and m' rule: dfs_dfs_all.induct)
  case (2 n adj u visited stack)
  show ?case
  proof (cases "u \<in> set stack \<or> u \<in> set visited")
    case True
    with 2(2) show ?thesis by (auto split: if_splits)
  next
    case False
    with 2(2) obtain v1 s1 where
      all: "dfs_all n adj (adj u) (List.insert u visited, List.insert u stack) = Some (False, v1, s1)"
      and m': "m' = (v1, removeAll u s1)"
      by (auto split: option.splits bool.splits)
    from 2(1) [OF _ _ all] False m' show ?thesis by auto
  qed
next
  case (4 n adj v vs m)
  show ?case
  proof (cases "dfs n adj v m")
    case None
    with 4(3) show ?thesis by simp
  next
    case (Some r)
    obtain b m1 where r: "r = (b, m1)" by (cases r) blast
    with Some 4(3) have d: "dfs n adj v m = Some (False, m1)" "dfs_all n adj vs m1 = Some (False, m')"
      by (auto split: bool.splits)
    from 4(1) [OF d(1)] 4(2) [OF d(1) refl _ d(2)] show ?thesis by auto
  qed
qed simp_all

lemma dfs_sound:
  "dfs n adj u m = Some (True, m') \<Longrightarrow> (\<forall>x \<in> set (snd m). (x, u) \<in> (adj_rel adj)\<^sup>+) \<Longrightarrow> cyclic_from adj u"
  "dfs_all n adj vs m = Some (True, m') \<Longrightarrow> (\<forall>v \<in> set vs. \<forall>x \<in> set (snd m). (x, v) \<in> (adj_rel adj)\<^sup>+) \<Longrightarrow>
     \<exists>v \<in> set vs. cyclic_from adj v"
proof (induction n adj u m and n adj vs m arbitrary: m' and m' rule: dfs_dfs_all.induct)
  case (2 n adj u visited stack)
  show ?case
  proof (cases "u \<in> set stack")
    case True
    with 2(3) show ?thesis by (auto simp: cyclic_from_def)
  next
    case False
    with 2(2) have u: "u \<notin> set visited" and
      all: "dfs_all n adj (adj u) (List.insert u visited, List.insert u stack) = Some (True, m')"
      by (auto split: if_splits option.splits bool.splits)
    have edge: "(u, v) \<in> adj_rel adj" if "v \<in> set (adj u)" for v
      using that by (simp add: adj_rel_def)
    have "\<forall>v \<in> set (adj u). \<forall>x \<in> set (List.insert u stack). (x, v) \<in> (adj_rel adj)\<^sup>+"
      using 2(3) edge by (auto intro: trancl_into_trancl)
    with 2(1) [OF False u all] obtain v where "v \<in> set (adj u)" "cyclic_from adj v" by auto
    then show ?thesis unfolding cyclic_from_def
      by (meson edge converse_rtrancl_into_rtrancl)
  qed
next
  case (4 n adj v vs m)
  show ?case
  proof (cases "dfs n adj v m")
    case None
    with 4(3) show ?thesis by simp
  next
    case (Some r)
    obtain b m1 where r: "r = (b, m1)" by (cases r) blast
    show ?thesis
    proof (cases b)
      case True
      with Some r 4(1) [of m1] 4(4) show ?thesis by auto
    next
      case False
      with Some r 4(3) have d: "dfs n adj v m = Some (False, m1)" "dfs_all n adj vs m1 = Some (True, m')"
        by auto
      have "set (snd m1) = set (snd m)" using dfs_marks(1) [OF d(1)] by simp
      with 4(2) [OF d(1) refl _ d(2)] 4(4) show ?thesis by auto
    qed
  qed
qed simp_all

text \<open>Finished nodes: all successors are finished, and none lies on a cycle.\<close>

definition marks_ok :: "(string \<Rightarrow> string list) \<Rightarrow> marks \<Rightarrow> bool" where
  "marks_ok adj = (\<lambda>(visited, stack). set stack \<subseteq> set visited
     \<and> (\<forall>x \<in> set visited - set stack. set (adj x) \<subseteq> set visited - set stack)
     \<and> (\<forall>x \<in> set visited - set stack. (x, x) \<notin> (adj_rel adj)\<^sup>+))"

lemma closed_trancl:
  assumes "(x, y) \<in> (adj_rel adj)\<^sup>+" "x \<in> B" "\<And>z. z \<in> B \<Longrightarrow> set (adj z) \<subseteq> B"
  shows "y \<in> B"
  using assms(1,2)
proof (induction rule: trancl_induct)
  case (base y)
  with assms(3) show ?case by (auto simp: adj_rel_def)
next
  case (step y z)
  with assms(3) [of y] show ?case by (auto simp: adj_rel_def)
qed

lemma dfs_finished:
  "dfs n adj u m = Some (False, m') \<Longrightarrow> marks_ok adj m \<Longrightarrow>
     marks_ok adj m' \<and> u \<in> set (fst m') - set (snd m')"
  "dfs_all n adj vs m = Some (False, m') \<Longrightarrow> marks_ok adj m \<Longrightarrow>
     marks_ok adj m' \<and> set vs \<subseteq> set (fst m') - set (snd m')"
proof (induction n adj u m and n adj vs m arbitrary: m' and m' rule: dfs_dfs_all.induct)
  case (2 n adj u visited stack)
  show ?case
  proof (cases "u \<in> set visited")
    case True
    with 2(2,3) show ?thesis by (auto split: if_splits)
  next
    case False
    with 2(3) have ns: "u \<notin> set stack" by (auto simp: marks_ok_def)
    with False 2(2) obtain v1 s1 where
      all: "dfs_all n adj (adj u) (List.insert u visited, List.insert u stack) = Some (False, v1, s1)"
      and m': "m' = (v1, removeAll u s1)"
      by (auto split: option.splits bool.splits)
    have "marks_ok adj (List.insert u visited, List.insert u stack)"
      using 2(3) ns False by (auto simp: marks_ok_def)
    from 2(1) [OF ns False all this] have ok: "marks_ok adj (v1, s1)" and sub: "set (adj u) \<subseteq> set v1 - set s1"
      by auto
    have s1: "set s1 = insert u (set stack)" and v1: "u \<in> set v1"
      using dfs_marks(2) [OF all] by auto
    let ?B = "set v1 - set s1"
    have closed: "\<And>z. z \<in> ?B \<Longrightarrow> set (adj z) \<subseteq> ?B" using ok by (auto simp: marks_ok_def)
    have "(u, u) \<notin> (adj_rel adj)\<^sup>+"
    proof
      assume "(u, u) \<in> (adj_rel adj)\<^sup>+"
      then obtain y where y: "(u, y) \<in> adj_rel adj" "(y, u) \<in> (adj_rel adj)\<^sup>*"
        by (meson tranclD)
      then have "y \<in> ?B" using sub by (auto simp: adj_rel_def)
      with y(2) have "u \<in> ?B" by (metis closed closed_trancl rtranclD)
      with s1 show False by simp
    qed
    with ok sub s1 v1 ns m' show ?thesis
      by (auto simp: marks_ok_def)
  qed
next
  case (4 n adj v vs m)
  show ?case
  proof (cases "dfs n adj v m")
    case None
    with 4(3) show ?thesis by simp
  next
    case (Some r)
    obtain b m1 where r: "r = (b, m1)" by (cases r) blast
    with Some 4(3) have d: "dfs n adj v m = Some (False, m1)" "dfs_all n adj vs m1 = Some (False, m')"
      by (auto split: bool.splits)
    from 4(1) [OF d(1) 4(4)] have m1: "marks_ok adj m1" "v \<in> set (fst m1) - set (snd m1)" by auto
    from 4(2) [OF d(1) refl _ d(2) m1(1)]
    have m': "marks_ok adj m'" "set vs \<subseteq> set (fst m') - set (snd m')" by auto
    with m1 dfs_marks(2) [OF d(2)] show ?thesis by auto
  qed
qed simp_all

text \<open>The fuel only has to exceed the number of unvisited nodes.\<close>

lemma dfs_enough:
  assumes V: "finite V" "\<And>u. u \<in> V \<Longrightarrow> set (adj u) \<subseteq> V"
  shows "u \<in> V \<Longrightarrow> card (V - set (fst m)) < n \<Longrightarrow> dfs n adj u m \<noteq> None"
    and "set vs \<subseteq> V \<Longrightarrow> card (V - set (fst m)) < n \<Longrightarrow> dfs_all n adj vs m \<noteq> None"
  using V(2)
proof (induction n adj u m and n adj vs m rule: dfs_dfs_all.induct)
  case (2 n adj u visited stack)
  show ?case
  proof (cases "u \<in> set stack \<or> u \<in> set visited")
    case False
    have "V - set (List.insert u visited) = (V - set visited) - {u}" by auto
    then have "card (V - set (List.insert u visited)) < card (V - set visited)"
      using 2(2) False V(1) by (metis DiffI card_Diff1_less finite_Diff)
    with 2(1) [of] False 2(2-4) show ?thesis by (auto split: option.splits bool.splits)
  qed auto
next
  case (4 n adj v vs m)
  from 4(1) 4(3-5) obtain b m1 where d: "dfs n adj v m = Some (b, m1)" by fastforce
  show ?case
  proof (cases b)
    case False
    with d have f: "dfs n adj v m = Some (False, m1)" by simp
    have "card (V - set (fst m1)) \<le> card (V - set (fst m))"
      using dfs_marks(1) [OF f] V(1) by (intro card_mono) auto
    with 4(2) [OF f refl] 4(3-5) f show ?thesis by auto
  qed (simp add: d)
qed simp_all

section \<open>The graph behind the containers\<close>

lemma split_edge_key: "CHR ''|'' \<notin> set a \<Longrightarrow> split_key (edge_key a b) = Some (a, b)"
  unfolding split_key_def edge_key_def by (induction a) auto

lemma incident_split: "split_key k = Some (a, b) \<Longrightarrow> incident x k \<longleftrightarrow> a = x \<or> b = x"
  by (simp add: incident_def)

lemma join_split: "split_key k = Some (a, b) \<Longrightarrow> k = edge_key a b \<and> CHR ''|'' \<notin> set a"
proof -
  assume k: "split_key k = Some (a, b)"
  let ?P = "\<lambda>c. c \<noteq> CHR ''|''"
  from k have bar: "CHR ''|'' \<in> set k" and a: "a = takeWhile ?P k" and b: "b = tl (dropWhile ?P k)"
    by (auto simp: split_key_def split: if_splits)
  then have "dropWhile ?P k \<noteq> []" by (auto simp: dropWhile_eq_Nil_conv)
  then have "dropWhile ?P k = CHR ''|'' # b"
    using hd_dropWhile [of ?P k] b by (cases "dropWhile ?P k") auto
  then have "k = a @ CHR ''|'' # b" using takeWhile_dropWhile_id [of ?P k] a by simp
  moreover have "CHR ''|'' \<notin> set a" using a by (auto dest: set_takeWhileD)
  ultimately show ?thesis by (simp add: edge_key_def)
qed

definition edge_pairs :: "topology \<Rightarrow> (string \<times> string) set" where
  "edge_pairs t = {(a, b). \<exists>k \<in> set (t_edges t). split_key k = Some (a, b)}"

definition topo_abs :: "topology \<Rightarrow> string set \<times> (string \<times> string) set" where
  "topo_abs t = (dom (kv_get (t_nodes t)), edge_pairs t)"

definition abs_item :: "TxItem \<Rightarrow> string set \<times> (string \<times> string) set \<Rightarrow> string set \<times> (string \<times> string) set" where
  "abs_item it g = (case g of (N, E) \<Rightarrow>
     (case tx_op it of
        AddNode \<Rightarrow> (insert (tx_a it) N, E)
      | RemoveNode \<Rightarrow> (N - {tx_a it}, {(a, b) \<in> E. a \<noteq> tx_a it \<and> b \<noteq> tx_a it})
      | AddEdge \<Rightarrow> (N, insert (tx_a it, tx_b it) E)
      | RemoveEdge \<Rightarrow> (N, E - {(tx_a it, tx_b it)})))"

definition item_ok :: "TxItem \<Rightarrow> bool" where
  "item_ok it = (tx_op it \<in> {AddEdge, RemoveEdge} \<longrightarrow> CHR ''|'' \<notin> set (tx_a it))"

definition topo_ok :: "topology \<Rightarrow> bool" where
  "topo_ok t = (kv_ok (t_nodes t) \<and> distinct (t_edges t) \<and> (\<forall>k \<in> set (t_edges t). CHR ''|'' \<in> set k))"

lemma commit_item_ok: "topo_ok t \<Longrightarrow> topo_ok (commit_item it t)"
  by (cases "tx_op it") (auto simp: topo_ok_def commit_item_def edge_key_def distinct_removeAll)

interpretation topo_sys: guarded_system topo_ok commit_item
  by unfold_locales (rule commit_item_ok)

lemma commit_item_abs:
  assumes "item_ok it"
  shows "topo_abs (commit_item it t) = abs_item it (topo_abs t)"
proof (cases "tx_op it")
  case AddNode
  then show ?thesis by (auto simp: commit_item_def topo_abs_def abs_item_def edge_pairs_def)
next
  case RemoveNode
  have "edge_pairs (commit_item it t) = {(a, b) \<in> edge_pairs t. a \<noteq> tx_a it \<and> b \<noteq> tx_a it}"
    using RemoveNode by (auto simp: commit_item_def edge_pairs_def incident_split)
  moreover have "dom (kv_get (t_nodes (commit_item it t))) = dom (kv_get (t_nodes t)) - {tx_a it}"
    using RemoveNode by (auto simp: commit_item_def split: if_splits)
  ultimately show ?thesis
    using RemoveNode by (simp add: topo_abs_def abs_item_def)
next
  case AddEdge
  with assms have "split_key (edge_key (tx_a it) (tx_b it)) = Some (tx_a it, tx_b it)"
    by (intro split_edge_key) (simp add: item_ok_def)
  with AddEdge show ?thesis
    by (auto simp: commit_item_def topo_abs_def abs_item_def edge_pairs_def)
next
  case RemoveEdge
  with assms have "split_key (edge_key (tx_a it) (tx_b it)) = Some (tx_a it, tx_b it)"
    by (intro split_edge_key) (simp add: item_ok_def)
  with RemoveEdge show ?thesis
    by (auto simp: commit_item_def topo_abs_def abs_item_def edge_pairs_def dest: join_split)
qed

lemma fold_commit_abs:
  "\<forall>it \<in> set tx. item_ok it \<Longrightarrow> topo_abs (fold commit_item tx t) = fold abs_item tx (topo_abs t)"
  by (induction tx arbitrary: t) (simp_all add: commit_item_abs)

lemma edge_count_card:
  assumes "topo_ok t"
  shows "edge_count t = card (edge_pairs t) \<and> finite (edge_pairs t)"
proof -
  have "edge_pairs t = (\<lambda>k. the (split_key k)) ` set (t_edges t)"
    using assms by (force simp: edge_pairs_def topo_ok_def split_key_def image_iff)
  moreover have "inj_on (\<lambda>k. the (split_key k)) (set (t_edges t))"
  proof (rule inj_onI)
    fix k k' assume "k \<in> set (t_edges t)" "k' \<in> set (t_edges t)" "the (split_key k) = the (split_key k')"
    moreover from this obtain a b where "split_key k = Some (a, b)" "split_key k' = Some (a, b)"
      using assms by (auto simp: topo_ok_def split_key_def)
    ultimately show "k = k'" by (auto dest: join_split)
  qed
  ultimately show ?thesis
    using assms by (simp add: edge_count_def topo_ok_def card_image distinct_card)
qed

text \<open>
  C19. \<open>Topology::commit\<close> refines the transaction on graphs: an empty transaction is
  \<open>INVALID_ARG\<close> and changes nothing; otherwise the node set and the set of edges become what
  the items say in their order (removing a node removes its edges), the counters are the sizes of
  those sets, and the containers stay well formed. Node names that start an edge must not
  contain the separator.
\<close>

theorem topo_commit_refines:
  assumes "topo_ok t" "commit tx t = (r, t')" "\<forall>it \<in> set tx. item_ok it"
  shows "topo_ok t' \<and> r = (if tx = [] then Err EC_INVALID_ARG else Ok ())
    \<and> topo_abs t' = fold abs_item tx (topo_abs t)
    \<and> node_count t' = card (fst (topo_abs t')) \<and> edge_count t' = card (snd (topo_abs t'))"
proof -
  have t': "t' = fold commit_item tx t" "r = (if tx = [] then Err EC_INVALID_ARG else Ok ())"
    using assms(2) by (auto simp: commit_def tx_empty_def split: if_splits)
  then have ok: "topo_ok t'" using topo_sys.fold_ok [OF assms(1)] by simp
  then have "node_count t' = card (fst (topo_abs t'))"
    unfolding node_count_def topo_abs_def fst_conv by (intro kv_card) (simp add: topo_ok_def)
  moreover have "edge_count t' = card (snd (topo_abs t'))"
    using edge_count_card [OF ok] by (simp add: topo_abs_def)
  moreover have "topo_abs t' = fold abs_item tx (topo_abs t)"
    unfolding t'(1) by (rule fold_commit_abs [OF assms(3)])
  ultimately show ?thesis using ok t'(2) by metis
qed

lemma adjacency_iff: "v \<in> set (adjacency t u) \<longleftrightarrow> (u, v) \<in> edge_pairs t"
proof -
  have "v \<in> set (List.map_filter (\<lambda>k. case split_key k of None \<Rightarrow> None
      | Some (a, b) \<Rightarrow> if a = u then Some b else None) ks) \<longleftrightarrow> (\<exists>k \<in> set ks. split_key k = Some (u, v))" for ks
    by (induction ks) (auto simp: List.map_filter_simps split: option.splits)
  then show ?thesis by (simp add: adjacency_def edge_pairs_def)
qed

lemma adj_rel_adjacency: "adj_rel (adjacency t) = edge_pairs t"
  by (auto simp: adj_rel_def adjacency_iff)

lemma search_enough:
  "dfs_all (node_count t + 2 * edge_count t + 1) (adjacency t) (map fst (t_nodes t)) ([], []) \<noteq> None"
proof -
  let ?n = "node_count t + 2 * edge_count t + 1"
  define ends where "ends k = (case split_key k of None \<Rightarrow> [] | Some (a, b) \<Rightarrow> [a, b])" for k
  define names where "names = map fst (t_nodes t) @ concat (map ends (t_edges t))"
  have "length (concat (map ends ks)) \<le> 2 * length ks" for ks
    by (induction ks) (auto simp: ends_def split: option.splits)
  then have "length names < ?n"
    by (simp add: names_def node_count_def edge_count_def less_Suc_eq_le)
  then have card: "card (set names) < ?n"
    using card_length [of names] by simp
  have closed: "set (adjacency t u) \<subseteq> set names" for u
  proof
    fix v assume "v \<in> set (adjacency t u)"
    then obtain k where "k \<in> set (t_edges t)" "split_key k = Some (u, v)"
      by (auto simp: adjacency_iff edge_pairs_def)
    then have "k \<in> set (t_edges t)" "v \<in> set (ends k)" by (auto simp: ends_def)
    then show "v \<in> set names" unfolding names_def by auto
  qed
  show ?thesis
    by (rule dfs_enough(2) [of "set names"]) (use card closed in \<open>auto simp: names_def\<close>)
qed

lemma search_answer:
  assumes "dfs_all n adj roots ([], []) = Some (b, m)"
  shows "b \<longleftrightarrow> (\<exists>u \<in> set roots. cyclic_from adj u)"
proof (cases b)
  case True
  with assms dfs_sound(2) [of n adj roots "([], [])" m] show ?thesis by auto
next
  case False
  with assms have f: "dfs_all n adj roots ([], []) = Some (False, m)" by simp
  have "marks_ok adj ([], [])" by (simp add: marks_ok_def)
  from dfs_finished(2) [OF f this] have m: "marks_ok adj m" "set roots \<subseteq> set (fst m) - set (snd m)"
    by auto
  let ?B = "set (fst m) - set (snd m)"
  have closed: "\<And>z. z \<in> ?B \<Longrightarrow> set (adj z) \<subseteq> ?B"
    using m(1) unfolding marks_ok_def by (cases m) simp
  have "\<not> cyclic_from adj u" if "u \<in> set roots" for u
  proof
    assume "cyclic_from adj u"
    then obtain w where w: "(u, w) \<in> (adj_rel adj)\<^sup>*" "(w, w) \<in> (adj_rel adj)\<^sup>+"
      by (auto simp: cyclic_from_def)
    have "u \<in> ?B" using that m(2) by auto
    then have "w \<in> ?B" using w(1) closed_trancl [of u w adj ?B] closed by (metis rtranclD)
    with w(2) m(1) show False by (auto simp: marks_ok_def)
  qed
  with False show ?thesis by auto
qed

text \<open>
  C20. \<open>has_cycle\<close> terminates and answers the right thing: with at least two nodes it is
  true exactly when some registered node reaches a cycle of the edge set, self loops included;
  with fewer it is false. The recursion is never deeper than the number of names.
\<close>

theorem has_cycle_correct:
  "has_cycle t = Some (2 \<le> node_count t \<and>
     (\<exists>u \<in> dom (kv_get (t_nodes t)). \<exists>w. (u, w) \<in> (edge_pairs t)\<^sup>* \<and> (w, w) \<in> (edge_pairs t)\<^sup>+))"
proof (cases "node_count t < 2")
  case True
  then show ?thesis by (simp add: has_cycle_def)
next
  case False
  obtain b m where d: "dfs_all (node_count t + 2 * edge_count t + 1) (adjacency t) (map fst (t_nodes t)) ([], [])
      = Some (b, m)"
    using search_enough [of t] by fastforce
  have "set (map fst (t_nodes t)) = dom (kv_get (t_nodes t))" by (simp add: dom_map_of_conv_image_fst)
  with search_answer [OF d] False d show ?thesis
    by (simp add: has_cycle_def cyclic_from_def adj_rel_adjacency del: set_map)
qed

section \<open>Concrete topologies\<close>

text \<open>Of an added node only the name is stored; its address and capabilities are lost.\<close>

theorem add_node_keeps_name_only:
  "get_node (pn_node_id n) (snd (commit (add_node n []) t)) = Ok (empty_node\<lparr>pn_node_id := pn_node_id n\<rparr>)"
  by (simp add: commit_def tx_empty_def add_node_def commit_item_def get_node_def)

text \<open>Two different edges with the same key: the separator may occur in a name.\<close>

theorem edge_keys_clash:
  "edge_key ''a'' ''b|c'' = edge_key ''a|b'' ''c''
   \<and> edge_count (snd (commit (add_edge \<lparr>pe_from_node = ''a|b'', pe_to_node = ''c'', pe_protocol = ''tcp''\<rparr>
       (add_edge \<lparr>pe_from_node = ''a'', pe_to_node = ''b|c'', pe_protocol = ''tcp''\<rparr> [])) \<lparr>t_nodes = [], t_edges = []\<rparr>)) = 1"
  by (simp add: edge_key_def edge_count_def commit_def tx_empty_def add_edge_def commit_item_def)

text \<open>A loop on the only node is not reported.\<close>

theorem self_loop_missed:
  "has_cycle (snd (commit (add_edge \<lparr>pe_from_node = ''a'', pe_to_node = ''a'', pe_protocol = ''tcp''\<rparr>
     (add_node (empty_node\<lparr>pn_node_id := ''a''\<rparr>) [])) \<lparr>t_nodes = [], t_edges = []\<rparr>)) = Some False"
  by (simp add: has_cycle_def node_count_def commit_def tx_empty_def add_edge_def add_node_def commit_item_def)

theorem topo_commit_refines_witness:
  "fst (commit (add_edge \<lparr>pe_from_node = ''a'', pe_to_node = ''b'', pe_protocol = ''tcp''\<rparr> (remove_node ''c'' []))
     \<lparr>t_nodes = [(''c'', empty_node)], t_edges = [''c|a'']\<rparr>) = Ok ()
   \<and> topo_abs (snd (commit (add_edge \<lparr>pe_from_node = ''a'', pe_to_node = ''b'', pe_protocol = ''tcp''\<rparr> (remove_node ''c'' []))
     \<lparr>t_nodes = [(''c'', empty_node)], t_edges = [''c|a'']\<rparr>)) = ({}, {(''a'', ''b'')})"
proof -
  let ?tx = "add_edge \<lparr>pe_from_node = ''a'', pe_to_node = ''b'', pe_protocol = ''tcp''\<rparr> (remove_node ''c'' [])"
  let ?t = "\<lparr>t_nodes = [(''c'', empty_node)], t_edges = [''c|a'']\<rparr>"
  have ok: "topo_ok ?t" "\<forall>it \<in> set ?tx. item_ok it"
    by (simp_all add: topo_ok_def item_ok_def add_edge_def remove_node_def)
  have "topo_abs ?t = ({''c''}, {(''c'', ''a'')})"
    by (auto simp: topo_abs_def edge_pairs_def split_key_def split: if_splits)
  with topo_commit_refines [OF ok(1) _ ok(2), of "fst (commit ?tx ?t)" "snd (commit ?tx ?t)"]
  show ?thesis by (auto simp: abs_item_def add_edge_def remove_node_def)
qed

end
