(* ===== verification/Psk_Auth.thy ===== *)
theory Psk_Auth
  imports Crypto
begin

text \<open>
  \<open>src/crypto/psk_authenticator.*\<close> (the messages of the handshake and the state machine
  around it) and \<open>keystore.*\<close> (the key file). Reading outside a buffer is undefined
  behaviour, \<open>None\<close>. The two arrays of an \<open>AuthResponse\<close> are not initialised
  by its constructor: their first contents are the argument \<open>junk\<close>.
\<close>

unbundle bit_operations_syntax

section \<open>Messages\<close>

definition serialize_request :: "AuthRequest \<Rightarrow> bytes" where
  "serialize_request req = rq_client_random req @ rq_salt req @ [of_nat (length (rq_identity req))]
     @ rq_identity req"

definition empty_request :: AuthRequest where
  "empty_request = \<lparr>rq_client_random = [], rq_salt = [], rq_identity = []\<rparr>"

definition deserialize_request :: "bytes \<Rightarrow> AuthRequest" where
  "deserialize_request buf =
     (if length buf < 65 then empty_request
      else
        let id_len = unat (buf ! 64)
        in if length buf < 65 + id_len then empty_request
           else \<lparr>rq_client_random = slice 0 32 buf, rq_salt = slice 32 32 buf, rq_identity = slice 65 id_len buf\<rparr>)"

definition serialize_response :: "AuthResponse \<Rightarrow> bytes" where
  "serialize_response resp = rs_server_random resp @ rs_salt resp @ rs_nonce resp @ rs_mac resp
     @ put_le 4 (of_nat (length (rs_encrypted_session_key resp)) :: u32) @ rs_encrypted_session_key resp"

text \<open>The bound \<open>112 + len\<close> is computed in 32 bits.\<close>

definition deserialize_response :: "bytes \<times> bytes \<Rightarrow> bytes \<Rightarrow> AuthResponse option" where
  "deserialize_response junk buf =
     (let resp = \<lparr>rs_server_random = [], rs_salt = [], rs_encrypted_session_key = [],
                  rs_nonce = fst junk, rs_mac = snd junk\<rparr>
      in if length buf < 32 + 32 + 12 + 32 + 4 then Some resp
         else
           let resp1 = resp\<lparr>rs_nonce := slice 64 12 buf, rs_mac := slice 76 32 buf\<rparr>;
               len = (get_le (slice 108 4 buf) :: u32)
           in if length buf < unat (112 + len) then Some resp1
              else if length buf < 112 + unat len then None
              else Some (resp1\<lparr>rs_server_random := slice 0 32 buf, rs_salt := slice 32 32 buf,
                               rs_encrypted_session_key := slice 112 (unat len) buf\<rparr>))"

section \<open>The authenticator\<close>

record psk_auth =
  pa_psk :: SecretKey
  pa_identity :: bytes
  pa_client_request :: AuthRequest
  pa_server_response :: AuthResponse
  pa_keys :: DerivedKeys
  pa_is_client :: bool
  pa_done :: bool

definition auth_new :: "bytes \<times> bytes \<Rightarrow> bytes \<Rightarrow> bytes \<Rightarrow> bool \<Rightarrow> psk_auth" where
  "auth_new junk psk identity is_client =
     \<lparr>pa_psk = psk, pa_identity = identity, pa_client_request = empty_request,
      pa_server_response = \<lparr>rs_server_random = [], rs_salt = [], rs_encrypted_session_key = [],
        rs_nonce = fst junk, rs_mac = snd junk\<rparr>,
      pa_keys = \<lparr>dk_enc_key = [], dk_mac_key = []\<rparr>, pa_is_client = is_client, pa_done = False\<rparr>"

definition create_client :: "bytes \<times> bytes \<Rightarrow> bytes \<Rightarrow> bytes \<Rightarrow> psk_auth" where
  "create_client junk psk identity = auth_new junk psk identity True"

definition create_server :: "bytes \<times> bytes \<Rightarrow> bytes \<Rightarrow> bytes \<Rightarrow> psk_auth" where
  "create_server junk psk unused_identity = auth_new junk psk [] False"

definition begin_handshake :: "psk_auth \<Rightarrow> rand_src \<Rightarrow> bytes Result \<times> psk_auth \<times> rand_src" where
  "begin_handshake a rs =
     (if \<not> pa_is_client a then (Err EC_INVALID_ARG, a, rs)
      else case psk_handshake_client_new (pa_identity a) rs of (req, rs') \<Rightarrow>
        (Ok (serialize_request req), a\<lparr>pa_client_request := req\<rparr>, rs'))"

definition process_client :: "ossl \<Rightarrow> bytes \<times> bytes \<Rightarrow> bytes \<Rightarrow> psk_auth \<Rightarrow> (bytes Result \<times> psk_auth) option" where
  "process_client os junk peer_msg a =
     (case deserialize_response junk peer_msg of
        None \<Rightarrow> None
      | Some resp \<Rightarrow>
          let a1 = a\<lparr>pa_server_response := resp\<rparr>
          in Some (case psk_handshake_client_finalize os (pa_psk a) (pa_client_request a) resp of
               Ok dk \<Rightarrow> (Ok [], a1\<lparr>pa_keys := dk, pa_done := True\<rparr>)
             | r \<Rightarrow> (Err (error r), a1)))"

definition process_server :: "ossl \<Rightarrow> bytes \<Rightarrow> psk_auth \<Rightarrow> rand_src \<Rightarrow> bytes Result \<times> psk_auth \<times> rand_src" where
  "process_server os peer_msg a rs =
     (let req = deserialize_request peer_msg
      in if rq_client_random req = [] then (Err EC_PROTOCOL_INVALID_MSG_TYPE, a, rs)
         else case psk_handshake_server_respond os (pa_psk a) req rs of
           (Ok resp, rs') \<Rightarrow>
             let a1 = a\<lparr>pa_server_response := resp\<rparr>
             in (case psk_derive_session_keys os (pa_psk a) (rq_salt req) of
                   Ok dk \<Rightarrow> (Ok (serialize_response resp), a1\<lparr>pa_keys := dk, pa_done := True\<rparr>, rs')
                 | r \<Rightarrow> (Err (error r), a1, rs'))
         | (r, rs') \<Rightarrow> (Err (error r), a, rs'))"

definition process_handshake :: "ossl \<Rightarrow> bytes \<times> bytes \<Rightarrow> bytes \<Rightarrow> psk_auth \<Rightarrow> rand_src
    \<Rightarrow> (bytes Result \<times> psk_auth \<times> rand_src) option" where
  "process_handshake os junk peer_msg a rs =
     (if pa_is_client a
      then map_option (\<lambda>(r, a'). (r, a', rs)) (process_client os junk peer_msg a)
      else Some (process_server os peer_msg a rs))"

definition is_handshake_done :: "psk_auth \<Rightarrow> bool" where
  "is_handshake_done a = pa_done a"

definition auth_encrypt :: "ossl \<Rightarrow> bytes \<Rightarrow> psk_auth \<Rightarrow> bytes Result" where
  "auth_encrypt os plaintext a =
     (if \<not> pa_done a then Err EC_NOT_IMPLEMENTED
      else let n = replicate 12 0
           in case psk_aead_encrypt os (dk_enc_key (pa_keys a)) n plaintext [] of
                Ok enc \<Rightarrow> Ok (n @ enc)
              | r \<Rightarrow> Err (error r))"

definition auth_decrypt :: "ossl \<Rightarrow> bytes \<Rightarrow> psk_auth \<Rightarrow> bytes Result" where
  "auth_decrypt os ciphertext a =
     (if \<not> pa_done a then Err EC_NOT_IMPLEMENTED
      else if length ciphertext < 12 then Err EC_INVALID_ARG
      else psk_aead_decrypt os (dk_enc_key (pa_keys a)) (take 12 ciphertext) (drop 12 ciphertext) [])"

definition session_keys :: "psk_auth \<Rightarrow> DerivedKeys Result" where
  "session_keys a = (if \<not> pa_done a then Err EC_NOT_IMPLEMENTED else Ok (pa_keys a))"

section \<open>The handshake agrees\<close>

lemma request_roundtrip:
  assumes "length (rq_client_random req) = 32" "length (rq_salt req) = 32"
  shows "deserialize_request (serialize_request req)
    = req\<lparr>rq_identity := take (length (rq_identity req) mod 256) (rq_identity req)\<rparr>"
proof -
  let ?id = "rq_identity req"
  have l: "length ?id mod 256 \<le> length ?id" by simp
  have "serialize_request req ! 64 = of_nat (length ?id)"
    using assms by (simp add: serialize_request_def nth_append)
  moreover have "unat (of_nat (length ?id) :: byte) = length ?id mod 256"
    unfolding unat_of_nat by simp
  moreover have "length (serialize_request req) = 65 + length ?id"
    using assms by (simp add: serialize_request_def)
  moreover have "slice 0 32 (serialize_request req) = rq_client_random req"
    "slice 32 32 (serialize_request req) = rq_salt req"
    "slice 65 (length ?id mod 256) (serialize_request req) = take (length ?id mod 256) ?id"
    using assms by (simp_all add: serialize_request_def slice_def)
  ultimately show ?thesis using l by (simp add: deserialize_request_def Let_def)
qed

lemma response_layout:
  assumes "length (rs_server_random r) = 32" "length (rs_salt r) = 32" "length (rs_nonce r) = 12"
    "length (rs_mac r) = 32" "length (rs_encrypted_session_key r) < 2 ^ 32 - 112"
  shows "deserialize_response junk (serialize_response r) = Some r"
proof -
  let ?e = "rs_encrypted_session_key r"
  define buf where "buf = serialize_response r"
  have s: "slice 0 32 buf = rs_server_random r" "slice 32 32 buf = rs_salt r" "slice 64 12 buf = rs_nonce r"
    "slice 76 32 buf = rs_mac r" "slice 108 4 buf = put_le 4 (of_nat (length ?e) :: u32)"
    "slice 112 (length ?e) buf = ?e" "length buf = 112 + length ?e"
    using assms by (simp_all add: buf_def serialize_response_def slice_def)
  have n: "unat (of_nat (length ?e) :: u32) = length ?e" "unat (112 + of_nat (length ?e) :: u32) = 112 + length ?e"
    using assms(5) by (simp_all add: unat_of_nat unat_word_ariths)
  show ?thesis unfolding buf_def [symmetric] deserialize_response_def Let_def s n get_put_le32
    by simp
qed

lemma auth_box:
  assumes "ossl_ok os" "length (dk_enc_key (pa_keys a)) = 32" "pa_done a" "pa_done b" "pa_keys b = pa_keys a"
    and "length p < 2 ^ 31"
  shows "\<exists>ct. auth_encrypt os p a = Ok ct \<and> auth_decrypt os ct b = Ok p"
proof -
  obtain ct where "psk_aead_encrypt os (dk_enc_key (pa_keys a)) (replicate 12 0) p [] = Ok ct"
    "psk_aead_decrypt os (dk_enc_key (pa_keys a)) (replicate 12 0) ct [] = Ok p" "length ct = length p + 16"
    by (rule aead_roundtrip [OF assms(1,2), of "replicate 12 0" p "[]"]) (use assms(6) in simp_all)
  then show ?thesis using assms(3-5) by (simp add: auth_encrypt_def auth_decrypt_def Let_def)
qed

text \<open>The client's second step takes a server's answer to its own request.\<close>

lemma client_takes_answer:
  assumes "ossl_ok os" "length psk = 32" "c1 = (create_client j psk identity)\<lparr>pa_client_request := req\<rparr>"
    and "rq_client_random req' = rq_client_random req" "rq_salt req' = rq_salt req"
    and dk: "psk_derive_session_keys os psk (rq_salt req') = Ok dk" "length (dk_mac_key dk) = 32"
    and mac: "os_hmac_sha256 os (dk_mac_key dk) (handshake_mac_data req' (rs_server_random resp) (rs_nonce resp)
       (rs_encrypted_session_key resp)) = Some (rs_mac resp)"
    and dec: "psk_aead_decrypt os (dk_enc_key dk) (rs_nonce resp) (rs_encrypted_session_key resp)
       (rq_client_random req') = Ok (rs_server_random resp)"
    and lens: "length (rs_server_random resp) = 32" "length (rs_salt resp) = 32" "length (rs_nonce resp) = 12"
      "length (rs_mac resp) = 32" "length (rs_encrypted_session_key resp) = 48"
  shows "process_handshake os j (serialize_response resp) c1 rs
    = Some (Ok [], c1\<lparr>pa_server_response := resp, pa_keys := dk, pa_done := True\<rparr>, rs)"
proof -
  have "dk_mac_key dk \<noteq> []" using dk(2) by auto
  then have ver: "hmac_sha256_verify os (dk_mac_key dk) (handshake_mac_data req (rs_server_random resp)
      (rs_nonce resp) (rs_encrypted_session_key resp)) (rs_mac resp) = Ok ()"
    using hmac_verify_iff [OF assms(1)] mac lens(4) assms(4,5) by (simp add: handshake_mac_data_def)
  have fin: "psk_handshake_client_finalize os psk req resp = Ok dk"
    using assms(2,4,5) dk(1) ver dec by (simp add: psk_handshake_client_finalize_def)
  have "deserialize_response j (serialize_response resp) = Some resp"
    by (rule response_layout) (use lens in simp_all)
  then show ?thesis
    using fin by (simp add: process_handshake_def process_client_def assms(3) create_client_def auth_new_def Let_def)
qed

text \<open>
  C12. The handshake agrees: with the same 32-byte key on both sides and any random numbers, the
  client's request, the server's answer to it and the client's processing of that answer all
  succeed; both sides are then done with the same keys, and what one encrypts the other decrypts,
  for messages of less than \<open>2 ^ 31\<close> bytes (of longer ones the code encrypts a part only, see
  \<open>aead_truncates\<close>).
\<close>

theorem psk_handshake_agrees:
  assumes "ossl_ok os" "length psk = 32"
    and "begin_handshake (create_client j1 psk identity) rs = (Ok m1, c1, rs1)"
    and "length p < 2 ^ 31"
  shows "\<exists>m2 s1 rs2 c2 keys.
    process_handshake os j2 m1 (create_server j2 psk name) rs1' = Some (Ok m2, s1, rs2) \<and>
    process_handshake os j1 m2 c1 rs2' = Some (Ok [], c2, rs2') \<and>
    session_keys s1 = Ok keys \<and> session_keys c2 = Ok keys \<and>
    (\<exists>ct. auth_encrypt os p c2 = Ok ct \<and> auth_decrypt os ct s1 = Ok p) \<and>
    (\<exists>ct. auth_encrypt os p s1 = Ok ct \<and> auth_decrypt os ct c2 = Ok p)"
proof -
  obtain req rs1x where new: "psk_handshake_client_new identity rs = (req, rs1x)" by fastforce
  have len: "length (rq_client_random req) = 32" "length (rq_salt req) = 32"
    using new by (auto simp: psk_handshake_client_new_def dest!: length_random split: prod.splits)
  have m1: "m1 = serialize_request req" and c1: "c1 = (create_client j1 psk identity)\<lparr>pa_client_request := req\<rparr>"
    using assms(3) new by (auto simp: begin_handshake_def create_client_def auth_new_def)
  define req' where "req' = deserialize_request m1"
  have req': "rq_client_random req' = rq_client_random req" "rq_salt req' = rq_salt req"
    using request_roundtrip [OF len] by (simp_all add: req'_def m1)
  have len': "length (rq_client_random req') = 32" "length (rq_salt req') = 32"
    using len req' by simp_all
  obtain resp rs2 dk where r: "psk_handshake_server_respond os psk req' rs1' = (Ok resp, rs2)"
    and dk: "psk_derive_session_keys os psk (rq_salt req') = Ok dk" "length (dk_enc_key dk) = 32"
      "length (dk_mac_key dk) = 32"
    and mac: "os_hmac_sha256 os (dk_mac_key dk) (handshake_mac_data req' (rs_server_random resp) (rs_nonce resp)
       (rs_encrypted_session_key resp)) = Some (rs_mac resp)"
    and dec: "psk_aead_decrypt os (dk_enc_key dk) (rs_nonce resp) (rs_encrypted_session_key resp)
       (rq_client_random req') = Ok (rs_server_random resp)"
    and lens: "length (rs_server_random resp) = 32" "length (rs_salt resp) = 32" "length (rs_nonce resp) = 12"
      "length (rs_mac resp) = 32" "length (rs_encrypted_session_key resp) = 48"
    by (rule server_respond_ok [OF assms(1,2) len'])
  let ?s1 = "(create_server j2 psk name)\<lparr>pa_server_response := resp, pa_keys := dk, pa_done := True\<rparr>"
  have ne: "rq_client_random req' \<noteq> []" using len' by auto
  have srv: "process_handshake os j2 m1 (create_server j2 psk name) rs1' = Some (Ok (serialize_response resp), ?s1, rs2)"
    using r dk(1) ne
    by (simp add: process_handshake_def process_server_def create_server_def auth_new_def Let_def req'_def [symmetric])
  let ?c2 = "c1\<lparr>pa_server_response := resp, pa_keys := dk, pa_done := True\<rparr>"
  have cli: "process_handshake os j1 (serialize_response resp) c1 rs2' = Some (Ok [], ?c2, rs2')"
    by (rule client_takes_answer [OF assms(1,2) c1 req' dk(1,3) mac dec lens])
  have "\<exists>ct. auth_encrypt os p ?c2 = Ok ct \<and> auth_decrypt os ct ?s1 = Ok p"
    "\<exists>ct. auth_encrypt os p ?s1 = Ok ct \<and> auth_decrypt os ct ?c2 = Ok p"
    using dk(2) assms(4) by (simp_all add: auth_box [OF assms(1)])
  with srv cli show ?thesis
    by (intro exI [of _ "serialize_response resp"] exI [of _ ?s1] exI [of _ rs2] exI [of _ ?c2] exI [of _ dk])
      (simp add: session_keys_def)
qed

theorem psk_handshake_agrees_witness:
  "\<exists>m1 c1 m2 s1 c2 keys. begin_handshake (create_client ([], []) (replicate 32 5) [97]) [Some [1, 2], None] = (Ok m1, c1, []) \<and>
    process_handshake sample_ossl ([], []) m1 (create_server ([], []) (replicate 32 5) []) [] = Some (Ok m2, s1, []) \<and>
    process_handshake sample_ossl ([], []) m2 c1 [] = Some (Ok [], c2, []) \<and>
    session_keys s1 = Ok keys \<and> session_keys c2 = Ok keys \<and>
    (\<exists>ct. auth_encrypt sample_ossl [1, 2, 3] c2 = Ok ct \<and> auth_decrypt sample_ossl ct s1 = Ok [1, 2, 3])"
proof -
  obtain m1 c1 where b: "begin_handshake (create_client ([], []) (replicate 32 5) [97]) [Some [1, 2], None] = (Ok m1, c1, [])"
    by (simp add: begin_handshake_def create_client_def auth_new_def psk_handshake_client_new_def random_bytes_def)
  have "length (replicate 32 5 :: bytes) = 32" by simp
  note psk_handshake_agrees [OF sample_ossl_ok this b, of "[1, 2, 3]" "([], [])" "[]" "[]" "[]"]
  then obtain m2 s1 rs2 c2 keys where
    p: "process_handshake sample_ossl ([], []) m1 (create_server ([], []) (replicate 32 5) []) [] = Some (Ok m2, s1, rs2)"
    "process_handshake sample_ossl ([], []) m2 c1 [] = Some (Ok [], c2, [])"
    "session_keys s1 = Ok keys" "session_keys c2 = Ok keys"
    "\<exists>ct. auth_encrypt sample_ossl [1, 2, 3] c2 = Ok ct \<and> auth_decrypt sample_ossl ct s1 = Ok [1, 2, 3]" by auto
  have "rs2 = []" using p(1)
    by (auto simp: process_handshake_def create_server_def auth_new_def process_server_def Let_def
        psk_handshake_server_respond_def random_bytes_def random_nonce_def
        split: if_splits Result.splits prod.splits)
  with b p show ?thesis by blast
qed

text \<open>
  When reading a response is undefined: exactly for a message of at least 112 bytes whose
  length field is so large that \<open>112 + len\<close> wraps in 32 bits; the bounds check then passes and
  the copy runs past the message. For every other message the reader stays inside.
\<close>

theorem response_overread:
  "deserialize_response junk buf = None \<longleftrightarrow>
     112 \<le> length buf \<and> 2 ^ 32 \<le> 112 + unat (get_le (slice 108 4 buf) :: u32)
     \<and> length buf < 112 + unat (get_le (slice 108 4 buf) :: u32)"
proof -
  define len where "len = (get_le (slice 108 4 buf) :: u32)"
  have b: "unat len < 2 ^ 32" using unsigned_less [of len, where ?'a = nat] by simp
  have "unat (112 + len) = (112 + unat len) mod 2 ^ 32" by (simp add: unat_word_ariths)
  also have "\<dots> = (if 2 ^ 32 \<le> 112 + unat len then 112 + unat len - 2 ^ 32 else 112 + unat len)"
    using b by (auto simp: le_mod_geq)
  finally have s: "unat (112 + len) = (if 2 ^ 32 \<le> 112 + unat len then 112 + unat len - 2 ^ 32 else 112 + unat len)" .
  have "deserialize_response junk buf = None \<longleftrightarrow>
      112 \<le> length buf \<and> \<not> length buf < unat (112 + len) \<and> length buf < 112 + unat len"
    by (auto simp: deserialize_response_def Let_def len_def)
  then show ?thesis unfolding len_def [symmetric] s using b by auto
qed

text \<open>Every message of a session is encrypted under the same nonce, twelve zero bytes.\<close>

theorem auth_nonce_reused:
  "auth_encrypt os p a = Ok c \<Longrightarrow> auth_encrypt os q a = Ok d \<Longrightarrow> take 12 c = take 12 d \<and> take 12 c = replicate 12 0"
  by (auto simp: auth_encrypt_def Let_def split: if_splits Result.splits)

section \<open>The key file\<close>

definition kPskFileMagic :: u32 where "kPskFileMagic = 0x50534B01"
definition kPskLen :: nat where "kPskLen = 32"

definition generate_psk :: "rand_src \<Rightarrow> SecretKey Result \<times> rand_src" where
  "generate_psk rs = (case random_bytes (replicate kPskLen 0) rs of (ok, k, rs') \<Rightarrow>
     (if ok then Ok k else Err EC_INTERNAL, rs'))"

text \<open>\<open>None\<close>: the file cannot be opened. A short read leaves the rest of the variable zero.\<close>

definition load_psk_from_file :: "bytes option \<Rightarrow> SecretKey Result" where
  "load_psk_from_file file =
     (case file of
        None \<Rightarrow> Err EC_BIZ_FILE_NOT_FOUND
      | Some c \<Rightarrow>
          if (get_le (take 4 (c @ replicate (4 - length c) 0)) :: u32) \<noteq> kPskFileMagic
          then Err EC_SERIALIZE_VERSION_MISMATCH
          else if length (slice 4 kPskLen c) \<noteq> kPskLen then Err EC_PROTOCOL_TRUNCATED_BUFFER
          else Ok (slice 4 kPskLen c))"

text \<open>The outcomes of opening the temporary file, of writing it and of the rename; the second
component is the file afterwards.\<close>

definition save_psk_to_file :: "bool \<Rightarrow> bool \<Rightarrow> bool \<Rightarrow> bytes \<Rightarrow> bytes option \<Rightarrow> unit Result \<times> bytes option" where
  "save_psk_to_file open_ok write_ok rename_ok psk file =
     (if length psk \<noteq> kPskLen then (Err EC_INVALID_ARG, file)
      else if \<not> open_ok then (Err EC_BIZ_FILE_NOT_FOUND, file)
      else if \<not> write_ok then (Err EC_INTERNAL, file)
      else if \<not> rename_ok then (Err EC_INTERNAL, file)
      else (Ok (), Some (put_le 4 kPskFileMagic @ psk)))"

text \<open>
  The key file is all or nothing: if saving succeeds, loading gives back the very key; if it
  fails, for whatever reason, the old file is untouched and loads as before.
\<close>

theorem psk_file_atomic:
  assumes "save_psk_to_file open_ok write_ok rename_ok psk file = (r, file')"
  shows "load_psk_from_file file' = (if r = Ok () then Ok psk else load_psk_from_file file)"
  using assms
  by (auto simp: save_psk_to_file_def load_psk_from_file_def slice_def kPskLen_def split: if_splits)

theorem psk_file_atomic_witness:
  "load_psk_from_file (snd (save_psk_to_file True True True (replicate 32 7) None)) = Ok (replicate 32 7)
   \<and> load_psk_from_file (snd (save_psk_to_file True True False (replicate 32 7) None)) = Err EC_BIZ_FILE_NOT_FOUND"
  using psk_file_atomic [of True True True "replicate 32 7" None "Ok ()"]
    psk_file_atomic [of True True False "replicate 32 7" None "Err EC_INTERNAL" None]
  by (simp add: save_psk_to_file_def kPskLen_def load_psk_from_file_def)

end
