(* ===== verification/Unique_Fd.thy ===== *)
theory Unique_Fd
  imports Interfaces
begin

text \<open>
  \<open>src/platform/fs/unique_fd.hpp\<close>: the owning file-descriptor handle. The kernel's
  descriptor table is explicit (\<open>fdtab\<close>): the open descriptors, the calls of \<open>close\<close> made
  so far, and how the next calls of \<open>close\<close> end. POSIX leaves open whether an interrupted
  \<open>close\<close> has released the descriptor, so the interruption carries that choice; a \<open>close\<close> that
  fails otherwise has released it, as on Linux. A program
  is a list of handles and a list of operations on them; the ownership theorem is about every
  such program.
\<close>

section \<open>The descriptor table\<close>

datatype close_outcome = C_ok | C_eintr bool | C_fail

record fdtab =
  ft_open :: "int list"
  ft_closed :: "int list"
  ft_outcomes :: "close_outcome list"

datatype close_ret = Closed | Interrupted | Close_error

text \<open>\<open>open\<close> and its like return the lowest descriptor that is not in use.\<close>

definition lowest_fd :: "int list \<Rightarrow> int" where
  "lowest_fd used = the (find (\<lambda>fd. fd \<notin> set used) (map int [0..<Suc (length used)]))"

definition open_sys :: "fdtab \<Rightarrow> int \<times> fdtab" where
  "open_sys t = (let fd = lowest_fd (ft_open t) in (fd, t\<lparr>ft_open := fd # ft_open t\<rparr>))"

definition close_sys :: "int \<Rightarrow> fdtab \<Rightarrow> close_ret \<times> fdtab" where
  "close_sys fd t =
     (let t = t\<lparr>ft_closed := ft_closed t @ [fd]\<rparr>;
          gone = t\<lparr>ft_open := removeAll fd (ft_open t)\<rparr> in
      if fd \<notin> set (ft_open t) then (Close_error, t)
      else case ft_outcomes t of
        [] \<Rightarrow> (Closed, gone)
      | C_ok # os \<Rightarrow> (Closed, gone\<lparr>ft_outcomes := os\<rparr>)
      | C_eintr released # os \<Rightarrow> (Interrupted, (if released then gone else t)\<lparr>ft_outcomes := os\<rparr>)
      | C_fail # os \<Rightarrow> (Close_error, gone\<lparr>ft_outcomes := os\<rparr>))"

lemma lowest_fd_fresh: "lowest_fd used \<notin> set used \<and> 0 \<le> lowest_fd used"
proof -
  let ?c = "map int [0..<Suc (length used)]"
  have "\<not> set ?c \<subseteq> set used"
  proof
    assume "set ?c \<subseteq> set used"
    then have "card (set ?c) \<le> card (set used)" by (rule card_mono [OF finite_set])
    moreover have "card (set ?c) = Suc (length used)"
      by (subst distinct_card) (auto simp: distinct_map simp del: upt_Suc)
    ultimately show False using card_length [of used] by simp
  qed
  then have "find (\<lambda>fd. fd \<notin> set used) ?c \<noteq> None" by (auto simp: find_None_iff)
  then obtain fd where "find (\<lambda>fd. fd \<notin> set used) ?c = Some fd" by blast
  moreover from this have "fd \<notin> set used \<and> fd \<in> set ?c"
    by (auto simp: find_Some_iff simp del: upt_Suc)
  ultimately show ?thesis by (auto simp: lowest_fd_def simp del: upt_Suc)
qed

section \<open>The handle\<close>

text \<open>The retry loop ends: an interrupted call uses up one outcome of the schedule.\<close>

function close_loop :: "int \<Rightarrow> fdtab \<Rightarrow> fdtab" where
  "close_loop fd t = (case close_sys fd t of
      (Interrupted, t') \<Rightarrow> close_loop fd t'
    | (_, t') \<Rightarrow> t')"
  by pat_completeness auto
termination
  by (relation "measure (\<lambda>(_, t). length (ft_outcomes t))")
    (auto simp: close_sys_def Let_def split: if_splits list.splits close_outcome.splits)

declare close_loop.simps [simp del]

record UniqueFd =
  u_fd :: int

definition ufd_default :: UniqueFd where
  "ufd_default = \<lparr>u_fd = - 1\<rparr>"

definition ufd_of :: "int \<Rightarrow> UniqueFd" where
  "ufd_of fd = \<lparr>u_fd = fd\<rparr>"

definition ufd_destroy :: "UniqueFd \<Rightarrow> fdtab \<Rightarrow> fdtab" where
  "ufd_destroy h t = (if 0 \<le> u_fd h then close_loop (u_fd h) t else t)"

text \<open>The new handle and what is left in the old one.\<close>

definition ufd_move :: "UniqueFd \<Rightarrow> UniqueFd \<times> UniqueFd" where
  "ufd_move other = (\<lparr>u_fd = u_fd other\<rparr>, other\<lparr>u_fd := - 1\<rparr>)"

definition ufd_move_assign :: "UniqueFd \<Rightarrow> UniqueFd \<Rightarrow> fdtab \<Rightarrow> UniqueFd \<times> UniqueFd \<times> fdtab" where
  "ufd_move_assign self other t =
     (let t = (if 0 \<le> u_fd self then close_loop (u_fd self) t else t) in
      (self\<lparr>u_fd := u_fd other\<rparr>, other\<lparr>u_fd := - 1\<rparr>, t))"

definition ufd_get :: "UniqueFd \<Rightarrow> int" where
  "ufd_get h = u_fd h"

definition ufd_release :: "UniqueFd \<Rightarrow> int \<times> UniqueFd" where
  "ufd_release h = (u_fd h, h\<lparr>u_fd := - 1\<rparr>)"

definition ufd_reset :: "int \<Rightarrow> UniqueFd \<Rightarrow> fdtab \<Rightarrow> UniqueFd \<times> fdtab" where
  "ufd_reset new_fd h t =
     (let t = (if 0 \<le> u_fd h then close_loop (u_fd h) t else t) in (h\<lparr>u_fd := new_fd\<rparr>, t))"

definition ufd_is_valid :: "UniqueFd \<Rightarrow> bool" where
  "ufd_is_valid h = (0 \<le> u_fd h)"

lemma close_loop_open: "set (ft_open (close_loop fd t)) = set (ft_open t) - {fd}"
proof (induction fd t rule: close_loop.induct)
  case (1 fd t)
  obtain r t' where r: "close_sys fd t = (r, t')" by (cases "close_sys fd t") blast
  show ?case
  proof (cases r)
    case Interrupted
    with r have "set (ft_open t') = set (ft_open t) \<or> set (ft_open t') = set (ft_open t) - {fd}"
      by (auto simp: close_sys_def Let_def split: if_splits list.splits close_outcome.splits)
    with 1 [OF r [symmetric] Interrupted] r Interrupted show ?thesis
      by (simp add: close_loop.simps [of fd t] split: if_splits) blast
  qed (use r in \<open>auto simp: close_loop.simps [of fd t] close_sys_def Let_def
        split: if_splits list.splits close_outcome.splits\<close>)
qed

lemma ufd_destroy_open: "set (ft_open (ufd_destroy h t)) = (if ufd_is_valid h then set (ft_open t) - {u_fd h} else set (ft_open t))"
  by (simp add: ufd_destroy_def ufd_is_valid_def close_loop_open)

section \<open>Programs with handles\<close>

text \<open>
  \<open>U_open i\<close> is \<open>h[i].reset(open(...))\<close>, \<open>U_assign i j\<close> is \<open>h[i] = std::move(h[j])\<close>,
  \<open>U_close i\<close> is \<open>h[i].reset()\<close>, \<open>U_release i\<close> gives the descriptor to somebody who keeps
  it. The last component of the state is what was given away.
\<close>

datatype ufd_op = U_open nat | U_assign nat nat | U_close nat | U_release nat

type_synonym ufd_world = "UniqueFd list \<times> fdtab \<times> int list"

fun ufd_step :: "ufd_op \<Rightarrow> ufd_world \<Rightarrow> ufd_world" where
  "ufd_step (U_open i) (hs, t, out) =
     (if i < length hs then
        case open_sys t of (fd, t1) \<Rightarrow> case ufd_reset fd (hs ! i) t1 of (h, t2) \<Rightarrow> (hs[i := h], t2, out)
      else (hs, t, out))"
| "ufd_step (U_assign i j) (hs, t, out) =
     (if i < length hs \<and> j < length hs \<and> i \<noteq> j then
        case ufd_move_assign (hs ! i) (hs ! j) t of (h, h', t') \<Rightarrow> (hs[i := h, j := h'], t', out)
      else (hs, t, out))"
| "ufd_step (U_close i) (hs, t, out) =
     (if i < length hs then case ufd_reset (- 1) (hs ! i) t of (h, t') \<Rightarrow> (hs[i := h], t', out)
      else (hs, t, out))"
| "ufd_step (U_release i) (hs, t, out) =
     (if i < length hs then case ufd_release (hs ! i) of (fd, h) \<Rightarrow>
        (hs[i := h], t, if 0 \<le> fd then fd # out else out)
      else (hs, t, out))"

text \<open>Every open descriptor has one owner: one valid handle, or whoever it was released to.\<close>

definition held :: "UniqueFd list \<Rightarrow> int list" where
  "held hs = filter (\<lambda>fd. 0 \<le> fd) (map ufd_get hs)"

definition owned :: "ufd_world \<Rightarrow> bool" where
  "owned w = (case w of (hs, t, out) \<Rightarrow>
     distinct (held hs) \<and> set (held hs) \<inter> set out = {} \<and> set (ft_open t) = set (held hs) \<union> set out)"

definition holds :: "UniqueFd list \<Rightarrow> nat \<Rightarrow> int \<Rightarrow> bool" where
  "holds hs i fd = (i < length hs \<and> u_fd (hs ! i) = fd \<and> 0 \<le> fd)"

lemma distinct_filter_nth:
  "distinct (filter P xs) \<longleftrightarrow>
    (\<forall>i j. i < length xs \<and> j < length xs \<and> P (xs ! i) \<and> xs ! i = xs ! j \<longrightarrow> i = j)"
proof (induction xs)
  case (Cons x xs)
  have "(\<forall>i j. i < length (x # xs) \<and> j < length (x # xs) \<and> P ((x # xs) ! i) \<and> (x # xs) ! i = (x # xs) ! j \<longrightarrow> i = j)
    \<longleftrightarrow> (P x \<longrightarrow> x \<notin> set xs) \<and> (\<forall>i j. i < length xs \<and> j < length xs \<and> P (xs ! i) \<and> xs ! i = xs ! j \<longrightarrow> i = j)"
    (is "?l \<longleftrightarrow> ?r")
  proof
    assume l: ?l
    have "x \<notin> set xs" if "P x"
      using l [rule_format, of 0] that by (force simp: in_set_conv_nth)
    moreover have "i = j" if "i < length xs" "j < length xs" "P (xs ! i)" "xs ! i = xs ! j" for i j
      using l [rule_format, of "Suc i" "Suc j"] that by simp
    ultimately show ?r by blast
  next
    assume ?r
    then show ?l by (auto simp: nth_Cons split: nat.splits)
  qed
  with Cons show ?case by simp
qed simp

lemma set_held: "fd \<in> set (held hs) \<longleftrightarrow> (\<exists>i. holds hs i fd)"
  by (force simp: held_def holds_def ufd_get_def in_set_conv_nth)

lemma owned_iff:
  "owned (hs, t, out) \<longleftrightarrow>
    (\<forall>i j fd. holds hs i fd \<longrightarrow> holds hs j fd \<longrightarrow> i = j) \<and>
    (\<forall>i fd. holds hs i fd \<longrightarrow> fd \<notin> set out) \<and>
    (\<forall>fd. fd \<in> set (ft_open t) \<longleftrightarrow> (\<exists>i. holds hs i fd) \<or> fd \<in> set out)"
proof -
  have "distinct (held hs) \<longleftrightarrow> (\<forall>i j fd. holds hs i fd \<longrightarrow> holds hs j fd \<longrightarrow> i = j)"
    unfolding held_def distinct_filter_nth holds_def ufd_get_def by auto
  then show ?thesis by (auto simp: owned_def set_held set_eq_iff)
qed

lemma holds_update:
  "i < length hs \<Longrightarrow> holds (hs[i := h]) k fd \<longleftrightarrow> (if k = i then u_fd h = fd \<and> 0 \<le> fd else holds hs k fd)"
  by (auto simp: holds_def nth_list_update)

lemma reset_open:
  "ufd_reset fd h t = (h', t') \<Longrightarrow> u_fd h' = fd \<and> set (ft_open t') = set (ft_open t) - (if 0 \<le> u_fd h then {u_fd h} else {})"
  by (auto simp: ufd_reset_def Let_def close_loop_open)

text \<open>Losing what one handle holds, moving it, gaining a fresh descriptor, giving one away.\<close>

lemma owned_close:
  assumes "owned (hs, t, out)" "\<And>k fd. holds hs' k fd \<longleftrightarrow> k \<noteq> i \<and> holds hs k fd"
    and "\<And>fd. fd \<in> set (ft_open t') \<longleftrightarrow> fd \<in> set (ft_open t) \<and> \<not> holds hs i fd"
  shows "owned (hs', t', out)"
proof -
  have own: "i = k" if "holds hs i fd" "holds hs k fd" for k fd
    using assms(1) that unfolding owned_iff by blast
  have out: "\<not> holds hs i fd" if "fd \<in> set out" for fd
    using assms(1) that unfolding owned_iff by blast
  have rest: "(\<exists>k. k \<noteq> i \<and> holds hs k fd) \<longleftrightarrow> (\<exists>k. holds hs k fd) \<and> \<not> holds hs i fd" for fd
    using own by metis
  show ?thesis using assms(1) out unfolding owned_iff assms(2,3) rest by (intro conjI) auto
qed

lemma owned_move:
  assumes "owned (hs, t, out)" "\<And>k fd. holds hs' k fd \<longleftrightarrow> (if k = i then holds hs j fd else k \<noteq> j \<and> holds hs k fd)"
    and "\<And>fd. \<not> holds hs i fd" "i \<noteq> j"
  shows "owned (hs', t, out)"
proof -
  have "(\<exists>k. holds hs' k fd) \<longleftrightarrow> (\<exists>k. holds hs k fd)" for fd
    unfolding assms(2) using assms(3,4) by metis
  moreover have "k = k'" if "holds hs' k fd" "holds hs' k' fd" for k k' fd
    using that assms(1) unfolding owned_iff assms(2) by (cases "k = i"; cases "k' = i") auto
  moreover have "fd \<notin> set out" if "holds hs' k fd" for k fd
    using that assms(1) unfolding owned_iff assms(2) by (cases "k = i") auto
  ultimately show ?thesis using assms(1) unfolding owned_iff by blast
qed

lemma owned_open:
  assumes "owned (hs, t, out)" "\<And>k x. holds hs' k x \<longleftrightarrow> (if k = i then x = fd else holds hs k x)"
    and "\<And>x. \<not> holds hs i x" "fd \<notin> set (ft_open t)"
    and "\<And>x. x \<in> set (ft_open t') \<longleftrightarrow> x = fd \<or> x \<in> set (ft_open t)"
  shows "owned (hs', t', out)"
proof -
  have "(\<exists>k. holds hs' k x) \<longleftrightarrow> x = fd \<or> (\<exists>k. holds hs k x)" for x
    unfolding assms(2) using assms(3) by metis
  moreover have fresh: "\<not> holds hs k fd" "fd \<notin> set out" for k
    using assms(1,4) unfolding owned_iff by blast+
  moreover have "k = k'" if "holds hs' k x" "holds hs' k' x" for k k' x
    using that assms(1) fresh unfolding owned_iff assms(2) by (cases "k = i"; cases "k' = i") auto
  moreover have "x \<notin> set out" if "holds hs' k x" for k x
    using that assms(1) fresh unfolding owned_iff assms(2) by (cases "k = i") auto
  ultimately show ?thesis using assms(1) unfolding owned_iff assms(5) by blast
qed

lemma owned_release:
  assumes "owned (hs, t, out)" "\<And>k fd. holds hs' k fd \<longleftrightarrow> k \<noteq> i \<and> holds hs k fd"
    and "\<And>fd. fd \<in> set out' \<longleftrightarrow> fd \<in> set out \<or> holds hs i fd"
  shows "owned (hs', t, out')"
proof -
  have own: "i = k" if "holds hs i fd" "holds hs k fd" for k fd
    using assms(1) that unfolding owned_iff by blast
  have rest: "(\<exists>k. k \<noteq> i \<and> holds hs k fd) \<longleftrightarrow> (\<exists>k. holds hs k fd) \<and> \<not> holds hs i fd" for fd
    using own by metis
  show ?thesis using assms(1) own unfolding owned_iff assms(2,3) rest by (intro conjI) auto
qed

lemma holds_self: "i < length hs \<Longrightarrow> holds hs i fd \<longleftrightarrow> u_fd (hs ! i) = fd \<and> 0 \<le> fd"
  by (simp add: holds_def)

lemma reset_owned:
  assumes "owned (hs, t, out)" "i < length hs" "ufd_reset (- 1) (hs ! i) t = (h, t')"
  shows "owned (hs[i := h], t', out)"
proof (rule owned_close [OF assms(1), where i = i])
  fix k fd
  show "holds (hs[i := h]) k fd \<longleftrightarrow> k \<noteq> i \<and> holds hs k fd"
    using assms(2) reset_open [OF assms(3)] by (auto simp: holds_update)
next
  fix fd
  show "fd \<in> set (ft_open t') \<longleftrightarrow> fd \<in> set (ft_open t) \<and> \<not> holds hs i fd"
    using reset_open [OF assms(3)] assms(2) by (auto simp: holds_self split: if_splits)
qed

lemma open_owned:
  assumes o: "owned (hs, t, out)" and i: "i < length hs"
    and s: "open_sys t = (fd, t1)" and r: "ufd_reset fd (hs ! i) t1 = (h, t2)"
  shows "owned (hs[i := h], t2, out)"
proof -
  from s have fd: "fd \<notin> set (ft_open t)" "0 \<le> fd" "set (ft_open t1) = insert fd (set (ft_open t))"
    using lowest_fd_fresh [of "ft_open t"] by (auto simp: open_sys_def Let_def)
  obtain h0 t0 where r0: "ufd_reset (- 1) (hs ! i) t = (h0, t0)" by (cases "ufd_reset (- 1) (hs ! i) t")
  have o0: "owned (hs[i := h0], t0, out)" by (rule reset_owned [OF o i r0])
  have old: "u_fd (hs ! i) \<noteq> fd" if "0 \<le> u_fd (hs ! i)"
    using o fd(1) i that unfolding owned_iff by (metis holds_self)
  show ?thesis
  proof (rule owned_open [OF o0, where i = i and fd = fd])
    fix k x
    show "holds (hs[i := h]) k x \<longleftrightarrow> (if k = i then x = fd else holds (hs[i := h0]) k x)"
      using i fd(2) reset_open [OF r] by (auto simp: holds_update)
    show "\<not> holds (hs[i := h0]) i x" using i reset_open [OF r0] by (auto simp: holds_update)
    show "fd \<notin> set (ft_open t0)" using fd reset_open [OF r0] by auto
    show "x \<in> set (ft_open t2) \<longleftrightarrow> x = fd \<or> x \<in> set (ft_open t0)"
      using reset_open [OF r0] reset_open [OF r] fd(3) old by auto
  qed
qed

lemma assign_owned:
  assumes o: "owned (hs, t, out)" and ij: "i < length hs" "j < length hs" "i \<noteq> j"
    and r: "ufd_move_assign (hs ! i) (hs ! j) t = (h, h', t')"
  shows "owned (hs[i := h, j := h'], t', out)"
proof -
  obtain h0 t0 where r0: "ufd_reset (- 1) (hs ! i) t = (h0, t0)" by (cases "ufd_reset (- 1) (hs ! i) t")
  have o0: "owned (hs[i := h0], t0, out)" by (rule reset_owned [OF o ij(1) r0])
  have e: "t' = t0" "u_fd h = u_fd (hs ! j)" "u_fd h' = - 1" "u_fd h0 = - 1"
    using r r0 by (auto simp: ufd_move_assign_def ufd_reset_def Let_def)
  show ?thesis unfolding e(1)
  proof (rule owned_move [OF o0, where i = i and j = j])
    fix k fd
    show "holds (hs[i := h, j := h']) k fd \<longleftrightarrow>
        (if k = i then holds (hs[i := h0]) j fd else k \<noteq> j \<and> holds (hs[i := h0]) k fd)"
      using ij e by (auto simp: holds_update holds_self)
    show "\<not> holds (hs[i := h0]) i fd" using ij e by (auto simp: holds_update)
  qed (rule ij(3))
qed

lemma release_owned:
  assumes o: "owned (hs, t, out)" and i: "i < length hs" and r: "ufd_release (hs ! i) = (fd, h)"
  shows "owned (hs[i := h], t, if 0 \<le> fd then fd # out else out)"
proof (rule owned_release [OF o, where i = i])
  fix k x
  show "holds (hs[i := h]) k x \<longleftrightarrow> k \<noteq> i \<and> holds hs k x"
    using i r by (auto simp: holds_update ufd_release_def)
  show "x \<in> set (if 0 \<le> fd then fd # out else out) \<longleftrightarrow> x \<in> set out \<or> holds hs i x"
    using i r by (auto simp: holds_self ufd_release_def)
qed

lemma ufd_step_owned: "owned w \<Longrightarrow> owned (ufd_step l w)"
  by (induction l w rule: ufd_step.induct)
    (auto intro: open_owned assign_owned reset_owned dest: release_owned split: prod.splits)

interpretation ufd_sys: guarded_system owned ufd_step
  by unfold_locales (rule ufd_step_owned)

lemma destroy_all_open:
  "set (ft_open (fold ufd_destroy hs t)) = set (ft_open t) - set (held hs)"
  by (induction hs arbitrary: t)
    (auto simp: ufd_destroy_open held_def ufd_get_def ufd_is_valid_def)

definition ufd_start :: "nat \<Rightarrow> close_outcome list \<Rightarrow> ufd_world" where
  "ufd_start n os = (replicate n ufd_default, \<lparr>ft_open = [], ft_closed = [], ft_outcomes = os\<rparr>, [])"

lemma ufd_start_owned: "owned (ufd_start n os)"
  by (auto simp: ufd_start_def owned_iff holds_def ufd_default_def)

text \<open>
  C37. Handles own their descriptors: whatever sequence of opens, move assignments, resets and
  releases a program does with its handles, and however the calls of \<open>close\<close> end, every open
  descriptor has exactly one owner; when all handles are destroyed, what remains open is exactly
  what was released: nothing leaks and nothing that was given away is closed.
\<close>

theorem ufd_ownership:
  "owned (fold ufd_step ops (ufd_start n os)) \<and>
   (case fold ufd_step ops (ufd_start n os) of (hs, t, out) \<Rightarrow>
      set (ft_open (fold ufd_destroy hs t)) = set out)"
proof -
  obtain hs t out where w: "fold ufd_step ops (ufd_start n os) = (hs, t, out)"
    by (cases "fold ufd_step ops (ufd_start n os)")
  have o: "owned (hs, t, out)"
    using ufd_sys.fold_ok [OF ufd_start_owned, of ops n os] w by simp
  then have "set (ft_open (fold ufd_destroy hs t)) = set out"
    unfolding destroy_all_open owned_def by auto
  with o w show ?thesis by simp
qed

end
