(* ===== verification/Udp.thy ===== *)
theory Udp
  imports Crypto Unique_Fd
begin

text \<open>
  \<open>src/ability_a/transport/udp_socket.*\<close>: the rate-limited datagram socket. The clock's
  reading (nanoseconds since its epoch) is an argument of every operation that reads it; what
  the kernel answers to \<open>socket\<close>, \<open>bind\<close>, \<open>getsockname\<close>, \<open>fcntl\<close>, \<open>select\<close>,
  \<open>sendto\<close> and \<open>recvfrom\<close> is an argument too. \<open>udp_send\<close> also returns what it handed to
  \<open>sendto\<close>. The lemmas bound how many datagrams leave in any window of time and show that
  what one side sends the other receives.
\<close>

section \<open>The socket\<close>

record Endpoint =
  ep_address :: string
  ep_port :: u16
  ep_is_broadcast :: bool

type_synonym time_point = int

definition seconds :: "int \<Rightarrow> int" where
  "seconds n = n * 1000000000"

definition milliseconds :: "int \<Rightarrow> int" where
  "milliseconds n = n * 1000000"

definition kUnicastMaxPerSec :: nat where "kUnicastMaxPerSec = 5"
definition kBroadcastPeriod :: int where "kBroadcastPeriod = milliseconds 30000"

record udp =
  us_fd :: int
  us_bound_port :: u16
  us_psk :: bytes
  us_unicast_history :: "(string, time_point list) kv"
  us_last_broadcast_at :: time_point

definition udp_new :: udp where
  "udp_new = \<lparr>us_fd = - 1, us_bound_port = 0, us_psk = [], us_unicast_history = [], us_last_broadcast_at = 0\<rparr>"

text \<open>The two calls of \<open>fcntl\<close>: whether reading and whether setting the flags works.\<close>

definition set_nonblocking :: "bool \<Rightarrow> bool \<Rightarrow> unit Result" where
  "set_nonblocking getfl setfl =
     (if \<not> getfl then Err EC_NET_SEND_FAILED
      else if \<not> setfl then Err EC_NET_SEND_FAILED
      else Ok ())"

datatype bind_ret = Bound | Addr_in_use | Bind_error

definition udp_close :: "udp \<Rightarrow> fdtab \<Rightarrow> udp \<times> fdtab" where
  "udp_close s t = (if 0 \<le> us_fd s then (s\<lparr>us_fd := - 1\<rparr>, close_loop (us_fd s) t) else (s, t))"

text \<open>
  \<open>name\<close> is the port \<open>getsockname\<close> reports. In the last error branch the descriptor is
  closed by hand and then once more by the destructor of \<open>sock\<close>.
\<close>

definition udp_create :: "bool \<Rightarrow> bind_ret \<Rightarrow> u16 option \<Rightarrow> bool \<Rightarrow> bool \<Rightarrow> fdtab \<Rightarrow> udp Result \<times> fdtab" where
  "udp_create socket_ok bound name getfl setfl t =
     (if \<not> socket_ok then (Err EC_NET_SEND_FAILED, t)
      else case open_sys t of (fd, t) \<Rightarrow>
        if bound \<noteq> Bound then
          let t = snd (close_sys fd t) in
          (Err (if bound = Addr_in_use then EC_RESOURCE_BUSY else EC_NET_SEND_FAILED), t)
        else case name of
          None \<Rightarrow> (Err EC_NET_SEND_FAILED, snd (close_sys fd t))
        | Some port \<Rightarrow>
            let sock = udp_new\<lparr>us_fd := fd, us_bound_port := port\<rparr> in
            (case set_nonblocking getfl setfl of
               Ok _ \<Rightarrow> (Ok sock, t)
             | nb \<Rightarrow> (Err (error nb), snd (udp_close sock (snd (close_sys fd t))))))"

definition enable_broadcast :: "bool \<Rightarrow> unit Result" where
  "enable_broadcast setsockopt_ok = (if \<not> setsockopt_ok then Err EC_NET_BROADCAST_FAILED else Ok ())"

definition set_psk :: "bytes \<Rightarrow> udp \<Rightarrow> udp" where
  "set_psk psk s = s\<lparr>us_psk := psk\<rparr>"

definition bound_port :: "udp \<Rightarrow> u16" where
  "bound_port s = us_bound_port s"

section \<open>Rate limits\<close>

definition history_of :: "string \<Rightarrow> udp \<Rightarrow> time_point list" where
  "history_of addr s = (case kv_get (us_unicast_history s) addr of None \<Rightarrow> [] | Some h \<Rightarrow> h)"

definition check_unicast_rate :: "time_point \<Rightarrow> string \<Rightarrow> udp \<Rightarrow> bool \<times> udp" where
  "check_unicast_rate now addr s =
     (let hist = dropWhile (\<lambda>t. now - t > seconds 1) (history_of addr s) in
      if length hist \<ge> kUnicastMaxPerSec
      then (False, s\<lparr>us_unicast_history := kv_put addr hist (us_unicast_history s)\<rparr>)
      else (True, s\<lparr>us_unicast_history := kv_put addr (hist @ [now]) (us_unicast_history s)\<rparr>))"

definition check_broadcast_rate :: "time_point \<Rightarrow> udp \<Rightarrow> bool \<times> udp" where
  "check_broadcast_rate now s =
     (if us_last_broadcast_at s \<noteq> 0 \<and> now - us_last_broadcast_at s < kBroadcastPeriod then (False, s)
      else (True, s\<lparr>us_last_broadcast_at := now\<rparr>))"

section \<open>Sending and receiving\<close>

datatype sendto_ret = Sent nat | Send_again | Send_error

definition zero_nonce :: bytes where
  "zero_nonce = replicate 12 0"

definition udp_frame :: "ossl \<Rightarrow> bytes \<Rightarrow> bytes \<Rightarrow> bytes Result" where
  "udp_frame os psk payload =
     (if length psk = 32 \<and> payload \<noteq> [] then
        case psk_aead_encrypt os psk zero_nonce payload [] of
          Ok enc \<Rightarrow> Ok (zero_nonce @ enc)
        | r \<Rightarrow> Err (error r)
      else Ok payload)"

text \<open>
  \<open>pton\<close> is \<open>inet_pton\<close> succeeding on the address, \<open>ret\<close> the answer of \<open>sendto\<close>. The
  second component is the datagram handed to \<open>sendto\<close>, if the call is reached.
\<close>

definition udp_send :: "ossl \<Rightarrow> (string \<Rightarrow> bool) \<Rightarrow> sendto_ret \<Rightarrow> time_point \<Rightarrow> bytes \<Rightarrow> Endpoint \<Rightarrow> udp
    \<Rightarrow> nat Result \<times> bytes option \<times> udp" where
  "udp_send os pton ret now payload dst s =
     (if us_fd s < 0 then (Err EC_NET_SOCKET_CLOSED, None, s)
      else case (if ep_is_broadcast dst then check_broadcast_rate now s
                 else check_unicast_rate now (ep_address dst) s) of
        (False, s) \<Rightarrow> (Err EC_NET_RATE_LIMITED, None, s)
      | (True, s) \<Rightarrow>
          (case udp_frame os (us_psk s) payload of
             Ok to_send \<Rightarrow>
               if \<not> pton (ep_address dst) then (Err EC_INVALID_ARG, None, s)
               else (case ret of
                   Sent n \<Rightarrow> Ok n
                 | Send_again \<Rightarrow> Err EC_NET_TIMEOUT
                 | Send_error \<Rightarrow> Err EC_NET_SEND_FAILED, Some to_send, s)
           | r \<Rightarrow> (Err (error r), None, s)))"

datatype select_ret = Select_timeout | Select_ready | Select_error
datatype recvfrom_ret = Datagram bytes | Recv_again | Recv_error

text \<open>A datagram that is longer than the 64 KiB buffer is cut by the kernel.\<close>

definition kRecvBuf :: nat where "kRecvBuf = 64 * 1024"

definition udp_unframe :: "ossl \<Rightarrow> bytes \<Rightarrow> bytes \<Rightarrow> bytes Result" where
  "udp_unframe os psk buf =
     (if length psk = 32 \<and> length buf > 12 then
        case psk_aead_decrypt os psk (take 12 buf) (drop 12 buf) [] of
          Ok dec \<Rightarrow> Ok dec
        | r \<Rightarrow> Err (error r)
      else Ok buf)"

definition udp_recv :: "ossl \<Rightarrow> select_ret \<Rightarrow> recvfrom_ret \<Rightarrow> int \<Rightarrow> udp \<Rightarrow> bytes Result" where
  "udp_recv os sel ret timeout_ms s =
     (if us_fd s < 0 then Err EC_NET_SOCKET_CLOSED
      else if timeout_ms \<ge> 0 \<and> sel = Select_timeout then Err EC_NET_TIMEOUT
      else if timeout_ms \<ge> 0 \<and> sel = Select_error then Err EC_NET_SEND_FAILED
      else case ret of
        Recv_again \<Rightarrow> Err EC_NET_TIMEOUT
      | Recv_error \<Rightarrow> Err EC_NET_SEND_FAILED
      | Datagram d \<Rightarrow> udp_unframe os (us_psk s) (take kRecvBuf d))"

section \<open>How much is sent\<close>

text \<open>A run of sends and what each of them handed to the kernel.\<close>

record send_call =
  sc_at :: time_point
  sc_payload :: bytes
  sc_dst :: Endpoint
  sc_ret :: sendto_ret

fun udp_run :: "ossl \<Rightarrow> (string \<Rightarrow> bool) \<Rightarrow> send_call list \<Rightarrow> udp \<Rightarrow> send_call list \<times> udp" where
  "udp_run os pton [] s = ([], s)"
| "udp_run os pton (c # cs) s =
     (case udp_send os pton (sc_ret c) (sc_at c) (sc_payload c) (sc_dst c) s of
        (r, d, s') \<Rightarrow> case udp_run os pton cs s' of
          (sent, s'') \<Rightarrow> (if d = None then sent else c # sent, s''))"

definition to_addr :: "string \<Rightarrow> send_call \<Rightarrow> bool" where
  "to_addr a c = (\<not> ep_is_broadcast (sc_dst c) \<and> ep_address (sc_dst c) = a)"

definition within :: "int \<Rightarrow> int \<Rightarrow> int \<Rightarrow> bool" where
  "within lo hi x = (lo \<le> x \<and> x \<le> hi)"

text \<open>
  The invariant behind the unicast limit: what was accepted for an address is what was dropped
  from the history, all of it more than a second old, followed by the history.
\<close>

definition rate_inv :: "time_point \<Rightarrow> time_point list \<Rightarrow> time_point list \<Rightarrow> bool" where
  "rate_inv now acc hist =
     (\<exists>old. acc = old @ hist \<and> (\<forall>x \<in> set old. now - x > seconds 1) \<and> (\<forall>x \<in> set acc. x \<le> now)
        \<and> (\<forall>lo. length (filter (within lo (lo + seconds 1)) acc) \<le> kUnicastMaxPerSec))"

lemma rate_inv_start: "rate_inv now [] []"
  by (simp add: rate_inv_def)

lemma rate_inv_later:
  assumes "rate_inv t acc hist" "t \<le> now"
  shows "rate_inv now acc (dropWhile (\<lambda>x. now - x > seconds 1) hist)"
proof -
  from assms(1) obtain old where acc: "acc = old @ hist" and old: "\<forall>x \<in> set old. t - x > seconds 1"
    and le: "\<forall>x \<in> set acc. x \<le> t"
    and win: "\<forall>lo. length (filter (within lo (lo + seconds 1)) acc) \<le> kUnicastMaxPerSec"
    unfolding rate_inv_def by blast
  let ?p = "\<lambda>x. now - x > seconds 1"
  have "acc = (old @ takeWhile ?p hist) @ dropWhile ?p hist" using acc by simp
  moreover have "\<forall>x \<in> set (old @ takeWhile ?p hist). now - x > seconds 1"
    using old assms(2) by (auto dest: set_takeWhileD)
  moreover have "\<forall>x \<in> set acc. x \<le> now" using le assms(2) by fastforce
  ultimately show ?thesis using win unfolding rate_inv_def by blast
qed

lemma rate_inv_accept:
  assumes "rate_inv now acc hist" "length hist < kUnicastMaxPerSec"
  shows "rate_inv now (acc @ [now]) (hist @ [now])"
proof -
  from assms(1) obtain old where acc: "acc = old @ hist" and old: "\<forall>x \<in> set old. now - x > seconds 1"
    and le: "\<forall>x \<in> set acc. x \<le> now"
    and win: "\<And>lo. length (filter (within lo (lo + seconds 1)) acc) \<le> kUnicastMaxPerSec"
    unfolding rate_inv_def by blast
  have "length (filter (within lo (lo + seconds 1)) (acc @ [now])) \<le> kUnicastMaxPerSec" for lo
  proof (cases "within lo (lo + seconds 1) now")
    case True
    then have "filter (within lo (lo + seconds 1)) old = []"
      using old by (auto simp: within_def filter_empty_conv)
    then have "length (filter (within lo (lo + seconds 1)) acc) \<le> length hist"
      by (simp add: acc)
    with assms(2) True show ?thesis by simp
  qed (use win in simp)
  with acc old le show ?thesis by (auto simp: rate_inv_def)
qed

lemma history_check [simp]:
  "fst (check_unicast_rate now b s) \<longleftrightarrow> length (dropWhile (\<lambda>t. now - t > seconds 1) (history_of b s)) < kUnicastMaxPerSec"
  "history_of a (snd (check_unicast_rate now b s)) =
     (if a = b then dropWhile (\<lambda>t. now - t > seconds 1) (history_of b s)
        @ (if fst (check_unicast_rate now b s) then [now] else [])
      else history_of a s)"
  by (auto simp: check_unicast_rate_def Let_def history_of_def)

lemma check_rate_frame [frame_simps]:
  "us_last_broadcast_at (snd (check_unicast_rate now b s)) = us_last_broadcast_at s"
  "history_of a (snd (check_broadcast_rate now s)) = history_of a s"
  by (auto simp: check_unicast_rate_def check_broadcast_rate_def Let_def history_of_def)

text \<open>What a send does to the limits, and that nothing leaves when they refuse.\<close>

lemma udp_send_limits:
  assumes "udp_send os pton ret now p dst s = (r, d, s')"
  obtains "us_fd s < 0" "s' = s" "d = None"
  | "\<not> us_fd s < 0" "ep_is_broadcast dst" "s' = snd (check_broadcast_rate now s)"
      "d \<noteq> None \<Longrightarrow> fst (check_broadcast_rate now s)"
  | "\<not> us_fd s < 0" "\<not> ep_is_broadcast dst" "s' = snd (check_unicast_rate now (ep_address dst) s)"
      "d \<noteq> None \<Longrightarrow> fst (check_unicast_rate now (ep_address dst) s)"
proof (cases "us_fd s < 0")
  case True
  with assms show ?thesis by (intro that(1)) (simp_all add: udp_send_def)
next
  case False
  let ?check = "if ep_is_broadcast dst then check_broadcast_rate now s else check_unicast_rate now (ep_address dst) s"
  have "s' = snd ?check \<and> (d \<noteq> None \<longrightarrow> fst ?check)"
    using assms False
    by (cases ?check; cases "fst ?check"; cases "udp_frame os (us_psk (snd ?check)) p")
      (simp_all add: udp_send_def split: if_splits)
  then show ?thesis using False that(2,3) by (cases "ep_is_broadcast dst") simp_all
qed

definition in_second :: "int \<Rightarrow> time_point list \<Rightarrow> nat" where
  "in_second lo xs = length (filter (within lo (lo + seconds 1)) xs)"

lemma in_second_append [simp]: "in_second lo (xs @ ys) = in_second lo xs + in_second lo ys"
  by (simp add: in_second_def)

lemma in_second_Cons: "in_second lo (x # ys) = in_second lo [x] + in_second lo ys"
  by (simp add: in_second_def)

lemma udp_run_Cons:
  assumes "udp_run os pton (c # cs) s = (sent, s')"
  obtains r d s1 sent' where
    "udp_send os pton (sc_ret c) (sc_at c) (sc_payload c) (sc_dst c) s = (r, d, s1)"
    "udp_run os pton cs s1 = (sent', s')" "sent = (if d = None then sent' else c # sent')"
  using assms by (auto split: prod.splits)

text \<open>One send, seen from one address.\<close>

lemma unicast_step:
  assumes "rate_inv t acc (history_of a s)" "t \<le> sc_at c"
    and "udp_send os pton (sc_ret c) (sc_at c) (sc_payload c) (sc_dst c) s = (r, d, s1)"
  obtains acc' t' where "rate_inv t' acc' (history_of a s1)" "t' = t \<or> t' = sc_at c"
    "in_second lo acc + in_second lo (map sc_at (filter (to_addr a) (if d = None then [] else [c]))) \<le> in_second lo acc'"
proof -
  note goal = that
  have keep: ?thesis if "history_of a s1 = history_of a s" "\<not> to_addr a c \<or> d = None"
    by (rule goal [of t acc]) (use assms(1) that in \<open>auto simp: in_second_def\<close>)
  from assms(3) show ?thesis
  proof (cases rule: udp_send_limits)
    case 1
    then show ?thesis using keep by simp
  next
    case 2
    then show ?thesis using keep by (simp add: frame_simps to_addr_def)
  next
    case 3
    note inv = rate_inv_later [OF assms(1,2)]
    show ?thesis
    proof (cases "ep_address (sc_dst c) = a")
      case False
      with 3 keep show ?thesis by (simp add: to_addr_def)
    next
      case True
      show ?thesis
      proof (cases "fst (check_unicast_rate (sc_at c) a s)")
        case True': True
        from inv True' have "rate_inv (sc_at c) (acc @ [sc_at c]) (history_of a s1)"
          using 3 True by (simp add: rate_inv_accept)
        then show ?thesis by (rule that) (simp_all add: in_second_def)
      next
        case False
        with 3 True inv have "rate_inv (sc_at c) acc (history_of a s1)" "d = None" by (cases d; auto)+
        then show ?thesis by (intro that [of "sc_at c" acc]) (simp_all add: in_second_def)
      qed
    qed
  qed
qed

lemma unicast_run:
  assumes "rate_inv t acc (history_of a s)" "sorted (t # map sc_at cs)" "udp_run os pton cs s = (sent, s')"
  shows "in_second lo acc + in_second lo (map sc_at (filter (to_addr a) sent)) \<le> kUnicastMaxPerSec"
  using assms
proof (induction cs arbitrary: t acc s sent)
  case Nil
  then show ?case by (auto simp: rate_inv_def in_second_def)
next
  case (Cons c cs)
  from Cons.prems(3) obtain r d s1 sent' where
    send: "udp_send os pton (sc_ret c) (sc_at c) (sc_payload c) (sc_dst c) s = (r, d, s1)" and
    rest: "udp_run os pton cs s1 = (sent', s')" and sent: "sent = (if d = None then sent' else c # sent')"
    by (rule udp_run_Cons)
  have later: "t \<le> sc_at c" "sorted (sc_at c # map sc_at cs)" "sorted (t # map sc_at cs)"
    using Cons.prems(2) by auto
  obtain acc' t' where i: "rate_inv t' acc' (history_of a s1)" and t': "t' = t \<or> t' = sc_at c" and
    le: "in_second lo acc + in_second lo (map sc_at (filter (to_addr a) (if d = None then [] else [c]))) \<le> in_second lo acc'"
    by (rule unicast_step [OF Cons.prems(1) later(1) send, where lo = lo])
  have "sorted (t' # map sc_at cs)" using t' later by metis
  from Cons.IH [OF i this rest] have
    ih: "in_second lo acc' + in_second lo (map sc_at (filter (to_addr a) sent')) \<le> kUnicastMaxPerSec" .
  have "sent = (if d = None then [] else [c]) @ sent'" using sent by simp
  then show ?case using ih le by (simp only: filter_append map_append in_second_append)
qed

lemma broadcast_run:
  assumes "us_last_broadcast_at s \<le> t" "0 < t" "sorted (t # map sc_at cs)" "udp_run os pton cs s = (sent, s')"
  shows "sorted_wrt (\<lambda>c d. kBroadcastPeriod \<le> sc_at d - sc_at c) (filter (ep_is_broadcast \<circ> sc_dst) sent) \<and>
    (us_last_broadcast_at s \<noteq> 0 \<longrightarrow>
      list_all (\<lambda>c. kBroadcastPeriod \<le> sc_at c - us_last_broadcast_at s) (filter (ep_is_broadcast \<circ> sc_dst) sent)) \<and>
    list_all (\<lambda>c. t \<le> sc_at c) sent"
  using assms
proof (induction cs arbitrary: t s sent)
  case (Cons c cs)
  obtain r d s1 where send: "udp_send os pton (sc_ret c) (sc_at c) (sc_payload c) (sc_dst c) s = (r, d, s1)"
    by (cases "udp_send os pton (sc_ret c) (sc_at c) (sc_payload c) (sc_dst c) s")
  from Cons.prems send obtain sent' where rest: "udp_run os pton cs s1 = (sent', s')" by (auto split: prod.splits)
  from Cons.prems(4) send rest have sent: "sent = (if d = None then sent' else c # sent')" by simp
  have later: "t \<le> sc_at c" "sorted (sc_at c # map sc_at cs)" "sorted (t # map sc_at cs)" "0 < sc_at c"
    using Cons.prems(2,3) by auto
  have other: ?case if "us_last_broadcast_at s1 = us_last_broadcast_at s" "\<not> ep_is_broadcast (sc_dst c) \<or> d = None"
    using Cons.IH [OF _ Cons.prems(2) later(3) rest] Cons.prems(1) that sent later(1) by auto
  from send show ?case
  proof (cases rule: udp_send_limits)
    case 1
    then show ?thesis using other by simp
  next
    case 3
    then show ?thesis using other by (simp add: frame_simps)
  next
    case 2
    show ?thesis
    proof (cases "fst (check_broadcast_rate (sc_at c) s)")
      case False
      with 2 other show ?thesis by (auto simp: check_broadcast_rate_def split: if_splits)
    next
      case True
      then have l: "us_last_broadcast_at s1 = sc_at c"
        "us_last_broadcast_at s \<noteq> 0 \<Longrightarrow> kBroadcastPeriod \<le> sc_at c - us_last_broadcast_at s"
        using 2 by (auto simp: check_broadcast_rate_def split: if_splits)
      note ih = Cons.IH [OF _ later(4) later(2) rest, unfolded l(1)]
      have "list_all (\<lambda>x. t \<le> sc_at x) sent'" using ih later(1) by (auto simp: list_all_iff)
      then show ?thesis using ih later sent l(2) 2 by (auto simp: list_all_iff)
    qed
  qed
qed simp

text \<open>
  C39. At most five datagrams a second reach one address: over any sequence of sends at
  non-decreasing clock readings, from any state whose history is empty, every closed window of
  one second contains at most five datagrams handed to the kernel for that address.
\<close>

theorem unicast_rate_limit:
  assumes "sorted (map sc_at cs)" "us_unicast_history s = []" "udp_run os pton cs s = (sent, s')"
  shows "length (filter (\<lambda>c. to_addr a c \<and> within lo (lo + seconds 1) (sc_at c)) sent) \<le> kUnicastMaxPerSec"
proof (cases cs)
  case Nil
  then show ?thesis using assms(3) by simp
next
  case (Cons c cs')
  have "rate_inv (sc_at c) [] (history_of a s)"
    using assms(2) rate_inv_start by (simp add: history_of_def)
  from unicast_run [OF this, of cs os pton sent s' lo] assms(1,3) Cons
  have "in_second lo (map sc_at (filter (to_addr a) sent)) \<le> kUnicastMaxPerSec" by (simp add: in_second_def)
  then show ?thesis by (simp add: in_second_def filter_map comp_def conj_commute)
qed

text \<open>
  Broadcasts are at least thirty seconds apart: over any sequence of sends at positive,
  non-decreasing clock readings, any two broadcasts handed to the kernel differ by the period.
\<close>

theorem broadcast_rate_limit:
  assumes "sorted (1 # map sc_at cs)" "us_last_broadcast_at s \<le> 1" "udp_run os pton cs s = (sent, s')"
  shows "sorted_wrt (\<lambda>c d. kBroadcastPeriod \<le> sc_at d - sc_at c) (filter (ep_is_broadcast \<circ> sc_dst) sent)"
  using broadcast_run [OF assms(2) _ assms(1,3)] by simp

text \<open>What is sent is received: with the same key on both sides, or with none.\<close>

lemma frame_unframe:
  assumes "ossl_ok os" "udp_frame os psk p = Ok d" "length p < 2 ^ 31"
  shows "udp_unframe os psk d = Ok p \<and>
    length d = (if length psk = 32 \<and> p \<noteq> [] then length p + 28 else length p)"
proof (cases "length psk = 32 \<and> p \<noteq> []")
  case True
  then obtain c where c: "psk_aead_encrypt os psk zero_nonce p [] = Ok c"
    "psk_aead_decrypt os psk zero_nonce c [] = Ok p" "length c = length p + 16"
    using aead_roundtrip [OF assms(1) _ _ assms(3), of psk zero_nonce "[]"] by (auto simp: zero_nonce_def)
  with True assms(2) have "d = zero_nonce @ c" by (simp add: udp_frame_def)
  with True c show ?thesis by (simp add: udp_unframe_def zero_nonce_def)
next
  case False
  with assms(2) show ?thesis by (auto simp: udp_frame_def udp_unframe_def)
qed

lemma udp_send_frame:
  assumes "udp_send os pton ret now p dst s = (res, Some d, s')"
  shows "udp_frame os (us_psk s) p = Ok d"
proof -
  let ?check = "if ep_is_broadcast dst then check_broadcast_rate now s else check_unicast_rate now (ep_address dst) s"
  have "us_psk (snd ?check) = us_psk s"
    by (simp add: check_unicast_rate_def check_broadcast_rate_def Let_def)
  with assms show ?thesis
    by (cases ?check; cases "fst ?check"; cases "udp_frame os (us_psk (snd ?check)) p")
      (simp_all add: udp_send_def split: if_splits)
qed

text \<open>
  A datagram that was handed to the kernel and arrives gives back the payload that was sent,
  as long as it fits the receive buffer; sealed with a key it carries the nonce and the tag, 28
  bytes more than the payload, and an empty payload travels unsealed.
\<close>

theorem udp_roundtrip:
  assumes "ossl_ok os" "udp_send os pton ret now p dst s = (res, Some d, s')"
    and "us_psk r = us_psk s" "0 \<le> us_fd r" "length p + 28 \<le> kRecvBuf"
  shows "udp_recv os Select_ready (Datagram d) timeout r = Ok p \<and>
    length d = (if length (us_psk s) = 32 \<and> p \<noteq> [] then length p + 28 else length p)"
proof -
  have "length p < 2 ^ 31" using assms(5) by (simp add: kRecvBuf_def)
  note frame_unframe [OF assms(1) udp_send_frame [OF assms(2)] this]
  moreover from this have "take kRecvBuf d = d" using assms(5) by (simp split: if_splits)
  ultimately show ?thesis using assms(3,4) by (simp add: udp_recv_def)
qed

section \<open>What the code does not promise\<close>

text \<open>With a key set, a datagram of at most twelve bytes is delivered without any check.\<close>

lemma short_datagram_unchecked:
  assumes "0 \<le> us_fd s" "length d \<le> 12"
  shows "udp_recv os Select_ready (Datagram d) timeout s = Ok d"
proof -
  have "take kRecvBuf d = d" using assms(2) by (simp add: kRecvBuf_def)
  with assms show ?thesis by (simp add: udp_recv_def udp_unframe_def)
qed

text \<open>When \<open>fcntl\<close> fails, the descriptor is closed twice.\<close>

lemma create_closes_twice:
  assumes "open_sys t = (fd, t1)" "ft_outcomes t = []"
  shows "ft_closed (snd (udp_create True Bound (Some port) True False t)) = ft_closed t @ [fd, fd]"
proof -
  have "fst (open_sys t) \<ge> 0" using lowest_fd_fresh [of "ft_open t"] by (simp add: open_sys_def Let_def)
  with assms show ?thesis
    by (auto simp: udp_create_def set_nonblocking_def udp_close_def close_loop.simps close_sys_def open_sys_def Let_def)
qed

section \<open>A concrete run\<close>

definition sample_endpoint :: Endpoint where
  "sample_endpoint = \<lparr>ep_address = ''10.0.0.1'', ep_port = 9000, ep_is_broadcast = False\<rparr>"

definition sample_call :: "time_point \<Rightarrow> bool \<Rightarrow> send_call" where
  "sample_call now bc = \<lparr>sc_at = now, sc_payload = [1, 2], sc_dst = sample_endpoint\<lparr>ep_is_broadcast := bc\<rparr>, sc_ret = Sent 2\<rparr>"

lemmas udp_run_simps = udp_send_def check_unicast_rate_def check_broadcast_rate_def udp_frame_def
  sample_call_def sample_endpoint_def udp_new_def history_of_def kUnicastMaxPerSec_def
  kBroadcastPeriod_def seconds_def milliseconds_def Let_def

theorem unicast_rate_limit_witness:
  "(let sent = fst (udp_run sample_ossl (\<lambda>_. True) (map (\<lambda>t. sample_call t False) [1, 2, 3, 4, 5, 6]) (udp_new\<lparr>us_fd := 3\<rparr>)) in
    length sent = 5 \<and>
    length (filter (\<lambda>c. to_addr ''10.0.0.1'' c \<and> within 1 (1 + seconds 1) (sc_at c)) sent) \<le> kUnicastMaxPerSec)"
proof -
  let ?cs = "map (\<lambda>t. sample_call t False) [1, 2, 3, 4, 5, 6]"
  obtain sent s' where run: "udp_run sample_ossl (\<lambda>_. True) ?cs (udp_new\<lparr>us_fd := 3\<rparr>) = (sent, s')"
    by (cases "udp_run sample_ossl (\<lambda>_. True) ?cs (udp_new\<lparr>us_fd := 3\<rparr>)")
  moreover from run have "length sent = 5" by (auto simp: udp_run_simps)
  moreover have "sorted (map sc_at ?cs)" by (simp add: sample_call_def)
  ultimately show ?thesis
    using unicast_rate_limit [OF _ _ run, of "''10.0.0.1''" 1] by (simp add: udp_new_def)
qed

theorem broadcast_rate_limit_witness:
  "(let sent = fst (udp_run sample_ossl (\<lambda>_. True) [sample_call 1 True, sample_call 2 True, sample_call 30000000001 True]
      (udp_new\<lparr>us_fd := 3\<rparr>)) in
    length sent = 2 \<and>
    sorted_wrt (\<lambda>c d. kBroadcastPeriod \<le> sc_at d - sc_at c) (filter (ep_is_broadcast \<circ> sc_dst) sent))"
proof -
  let ?cs = "[sample_call 1 True, sample_call 2 True, sample_call 30000000001 True]"
  obtain sent s' where run: "udp_run sample_ossl (\<lambda>_. True) ?cs (udp_new\<lparr>us_fd := 3\<rparr>) = (sent, s')"
    by (cases "udp_run sample_ossl (\<lambda>_. True) ?cs (udp_new\<lparr>us_fd := 3\<rparr>)")
  moreover from run have "length sent = 2" by (auto simp: udp_run_simps)
  moreover have "sorted (1 # map sc_at ?cs)" by (simp add: sample_call_def)
  ultimately show ?thesis
    using broadcast_rate_limit [OF _ _ run] by (simp add: udp_new_def)
qed

theorem udp_roundtrip_witness:
  "\<exists>d. udp_recv sample_ossl Select_ready (Datagram d) 0 (udp_new\<lparr>us_fd := 4, us_psk := replicate 32 7\<rparr>) = Ok [1, 2]
     \<and> length d = 30"
proof -
  let ?s = "udp_new\<lparr>us_fd := 3, us_psk := replicate 32 7\<rparr>"
  obtain c where "psk_aead_encrypt sample_ossl (replicate 32 7) zero_nonce [1, 2] [] = Ok c"
    using aead_roundtrip [OF sample_ossl_ok, of "replicate 32 7" zero_nonce "[1, 2]" "[]"] by (auto simp: zero_nonce_def)
  then obtain res s' where
    "udp_send sample_ossl (\<lambda>_. True) (Sent 30) 1 [1, 2] sample_endpoint ?s = (res, Some (zero_nonce @ c), s')"
    by (simp add: udp_run_simps)
  from udp_roundtrip [OF sample_ossl_ok this, of "udp_new\<lparr>us_fd := 4, us_psk := replicate 32 7\<rparr>" 0]
  show ?thesis by (auto simp: udp_new_def kRecvBuf_def)
qed

end
