(* ===== verification/Discovery.thy ===== *)
theory Discovery
  imports Udp Registry
begin

text \<open>
  \<open>src/ability_a/discovery/advertisement.*\<close>, \<open>advertiser.*\<close> and \<open>scanner.*\<close>: the
  announcement of a node, the broadcast frame around it and its verification. The frame is
  magic, version, an eight-byte nonce, a 32-byte MAC over nonce and announcement, and the
  announcement. The background threads and their state machine are in \<open>Service_Loop\<close>.
  Strings are their bytes; the clock, the random source and OpenSSL are arguments.
\<close>

unbundle bit_operations_syntax

section \<open>The announcement\<close>

definition kDiscoveryMagic :: u32 where "kDiscoveryMagic = 0x44434144"
definition kDiscoveryVersion :: u32 where "kDiscoveryVersion = 1"
definition kDiscoveryHeaderSize :: nat where "kDiscoveryHeaderSize = 4 + 4 + 8 + 32"

record AdvertisementPayload =
  ap_node_id :: bytes
  ap_hostname :: bytes
  ap_bind_address :: bytes
  ap_bind_port :: u16
  ap_services :: "bytes list"

definition write_u16 :: "bytes \<Rightarrow> u16 \<Rightarrow> bytes" where
  "write_u16 out v = out @ [ucast (drop_bit 8 v AND 0xFF), ucast (v AND 0xFF)]"

definition read_u16 :: "bytes \<Rightarrow> nat \<Rightarrow> u16" where
  "read_u16 buf off = push_bit 8 (ucast (buf ! off)) OR ucast (buf ! (off + 1))"

definition write_str :: "bytes \<Rightarrow> bytes \<Rightarrow> bytes" where
  "write_str out s = write_u16 out (of_nat (length s)) @ s"

definition serialize_payload :: "AdvertisementPayload \<Rightarrow> bytes" where
  "serialize_payload p =
     (let out = write_str [] (ap_node_id p);
          out = write_str out (ap_hostname p);
          out = write_str out (ap_bind_address p);
          out = write_u16 out (ap_bind_port p);
          out = write_u16 out (of_nat (length (ap_services p)))
      in foldl write_str out (ap_services p))"

text \<open>The string at \<open>off\<close> and the offset behind it; \<open>None\<close> if it does not fit.\<close>

definition read_str :: "bytes \<Rightarrow> nat \<Rightarrow> (bytes \<times> nat) option" where
  "read_str buf off =
     (if off + 2 > length buf then None
      else let len = unat (read_u16 buf off); off = off + 2 in
        if off + len > length buf then None
        else Some (slice off len buf, off + len))"

primrec parse_services :: "nat \<Rightarrow> bytes \<Rightarrow> nat \<Rightarrow> bytes list" where
  "parse_services 0 buf off = []"
| "parse_services (Suc n) buf off = (case read_str buf off of
      None \<Rightarrow> []
    | Some (s, off) \<Rightarrow> s # parse_services n buf off)"

definition empty_payload :: AdvertisementPayload where
  "empty_payload = \<lparr>ap_node_id = [], ap_hostname = [], ap_bind_address = [], ap_bind_port = 0, ap_services = []\<rparr>"

definition parse_payload :: "bytes \<Rightarrow> AdvertisementPayload" where
  "parse_payload buf = (case read_str buf 0 of
      None \<Rightarrow> empty_payload
    | Some (node_id, off) \<Rightarrow>
        let p = empty_payload\<lparr>ap_node_id := node_id\<rparr> in
        case read_str buf off of
          None \<Rightarrow> p
        | Some (hostname, off) \<Rightarrow>
            let p = p\<lparr>ap_hostname := hostname\<rparr> in
            case read_str buf off of
              None \<Rightarrow> p
            | Some (address, off) \<Rightarrow>
                let p = p\<lparr>ap_bind_address := address\<rparr> in
                if off + 2 > length buf then p
                else let p = p\<lparr>ap_bind_port := read_u16 buf off\<rparr>; off = off + 2 in
                  if off + 2 > length buf then p
                  else let n_services = unat (read_u16 buf off); off = off + 2 in
                    p\<lparr>ap_services := parse_services n_services buf off\<rparr>)"

lemma mask16: "(0xFF :: u16) = mask 8"
  by (simp add: mask_eq_exp_minus_1)

lemma read_write_u16:
  assumes "length pre = off"
  shows "read_u16 (pre @ write_u16 [] v @ rest) off = v"
proof -
  have "push_bit 8 (ucast (ucast (drop_bit 8 v AND 0xFF :: u16) :: byte)) OR ucast (ucast (v AND 0xFF :: u16) :: byte) = v"
    by (rule bit_word_eqI) (auto simp: mask16 bit_simps)
  with assms show ?thesis by (simp add: read_u16_def write_u16_def nth_append)
qed

lemma write_u16_app: "write_u16 out v = out @ write_u16 [] v"
  by (simp add: write_u16_def)

lemma write_str_app: "write_str out s = out @ write_str [] s"
  by (simp add: write_str_def write_u16_app [of out])

lemma length_write_u16 [simp, codec_simps]: "length (write_u16 out v) = length out + 2"
  by (simp add: write_u16_def)

lemma length_write_str [simp, codec_simps]: "length (write_str out s) = length out + 2 + length s"
  by (simp add: write_str_def)

lemma unat_of_nat16: "n < 2 ^ 16 \<Longrightarrow> unat (of_nat n :: u16) = n"
  by (simp add: unat_of_nat)

lemma read_write_str:
  assumes "length pre = off" "length s < 2 ^ 16"
  shows "read_str (pre @ write_str [] s @ rest) off = Some (s, off + 2 + length s)"
proof -
  have "read_u16 (pre @ write_u16 [] (of_nat (length s)) @ s @ rest) off = of_nat (length s)"
    by (rule read_write_u16) (rule assms(1))
  then have len: "read_u16 (pre @ write_str [] s @ rest) off = of_nat (length s)"
    by (simp add: write_str_def)
  have "slice (off + 2) (length s) (pre @ write_str [] s @ rest) = s"
    using assms(1) by (simp add: slice_def write_str_def)
  with len assms unat_of_nat16 [OF assms(2)] show ?thesis by (simp add: read_str_def Let_def)
qed

lemma foldl_write_str: "foldl write_str out ss = out @ concat (map (write_str []) ss)"
proof (induction ss arbitrary: out)
  case (Cons s ss)
  then show ?case by (simp add: write_str_app [of out])
qed simp

lemma parse_write_services:
  assumes "length pre = off" "list_all (\<lambda>s. length s < 2 ^ 16) ss"
  shows "parse_services (length ss) (pre @ concat (map (write_str []) ss)) off = ss"
  using assms
proof (induction ss arbitrary: pre off)
  case (Cons s ss)
  have "read_str (pre @ write_str [] s @ concat (map (write_str []) ss)) off = Some (s, off + 2 + length s)"
    by (rule read_write_str) (use Cons.prems in simp_all)
  moreover have "parse_services (length ss) ((pre @ write_str [] s) @ concat (map (write_str []) ss)) (off + 2 + length s) = ss"
    by (rule Cons.IH) (use Cons.prems in simp_all)
  ultimately show ?case by simp
qed simp

definition small_payload :: "AdvertisementPayload \<Rightarrow> bool" where
  "small_payload p = (length (ap_node_id p) < 2 ^ 16 \<and> length (ap_hostname p) < 2 ^ 16 \<and>
     length (ap_bind_address p) < 2 ^ 16 \<and> length (ap_services p) < 2 ^ 16 \<and>
     list_all (\<lambda>s. length s < 2 ^ 16) (ap_services p))"

lemma parse_serialize:
  assumes "small_payload p"
  shows "parse_payload (serialize_payload p) = p"
proof -
  obtain a h b q ss where p: "p = \<lparr>ap_node_id = a, ap_hostname = h, ap_bind_address = b, ap_bind_port = q, ap_services = ss\<rparr>"
    by (cases p) blast
  let ?A = "write_str [] a" and ?H = "write_str [] h" and ?B = "write_str [] b" and ?Q = "write_u16 [] q"
  let ?N = "write_u16 [] (of_nat (length ss))" and ?S = "concat (map (write_str []) ss)"
  have buf: "serialize_payload p = ?A @ ?H @ ?B @ ?Q @ ?N @ ?S" (is "_ = ?buf")
    by (simp add: serialize_payload_def Let_def foldl_write_str p write_u16_app [of "write_u16 _ _"]
        write_u16_app [of "write_str _ _"] write_str_app [of "write_str _ _"] del: append_assoc)
  have l: "length a < 2 ^ 16" "length h < 2 ^ 16" "length b < 2 ^ 16" "length ss < 2 ^ 16"
    "list_all (\<lambda>s. length s < 2 ^ 16) ss"
    using assms by (simp_all add: small_payload_def p)
  define buf where "buf = ?buf"
  define i1 where "i1 = length ?A"
  define i2 where "i2 = length (?A @ ?H)"
  define i3 where "i3 = length (?A @ ?H @ ?B)"
  have r: "read_str buf 0 = Some (a, i1)" "read_str buf i1 = Some (h, i2)" "read_str buf i2 = Some (b, i3)"
    using read_write_str [of "[]" 0 a] read_write_str [of ?A "length ?A" h]
      read_write_str [of "?A @ ?H" "length (?A @ ?H)" b] l
    by (simp_all add: buf_def i1_def i2_def i3_def)
  have q: "read_u16 buf i3 = q" "read_u16 buf (i3 + 2) = of_nat (length ss)"
    using read_write_u16 [of "?A @ ?H @ ?B" "length (?A @ ?H @ ?B)" q]
      read_write_u16 [of "?A @ ?H @ ?B @ ?Q" "length (?A @ ?H @ ?B @ ?Q)" "of_nat (length ss)"]
    by (simp_all add: buf_def i3_def)
  have ss: "parse_services (length ss) buf (i3 + 2 + 2) = ss"
    using parse_write_services [of "?A @ ?H @ ?B @ ?Q @ ?N" "length (?A @ ?H @ ?B) + 2 + 2" ss] l(5)
    by (simp add: buf_def i3_def)
  have "i3 + 4 \<le> length buf" by (simp add: buf_def i3_def)
  then have "parse_payload buf = p"
    using r q ss unat_of_nat16 [OF l(4)]
    by (simp add: parse_payload_def Let_def empty_payload_def p numeral_eq_Suc)
  then show ?thesis by (simp only: buf buf_def)
qed

section \<open>The advertiser\<close>

record AdvertiserConfig =
  ac_bind_address :: string
  ac_bind_port :: u16
  ac_broadcast_port :: u16
  ac_period :: int

record advertiser =
  ad_payload :: AdvertisementPayload
  ad_cfg :: AdvertiserConfig
  ad_psk :: bytes
  ad_sock :: "udp option"

text \<open>
  \<open>sock\<close> is what \<open>UdpSocket::create\<close> answered; whether broadcasting could be enabled makes
  no difference.
\<close>

definition advertiser_create :: "AdvertisementPayload \<Rightarrow> AdvertiserConfig \<Rightarrow> bytes \<Rightarrow> udp Result \<Rightarrow> advertiser option" where
  "advertiser_create payload cfg psk sock =
     (case sock of
        Ok s \<Rightarrow> Some \<lparr>ad_payload = payload, ad_cfg = cfg, ad_psk = (if length psk = 32 then psk else []), ad_sock = Some s\<rparr>
      | _ \<Rightarrow> None)"

definition mac_key_of :: "bytes \<Rightarrow> bytes" where
  "mac_key_of psk = (if length psk = 32 then psk else replicate 32 0)"

definition frame_prefix :: bytes where
  "frame_prefix = [ucast (drop_bit 24 kDiscoveryMagic AND 0xFF), ucast (drop_bit 16 kDiscoveryMagic AND 0xFF),
     ucast (drop_bit 8 kDiscoveryMagic AND 0xFF), ucast (kDiscoveryMagic AND 0xFF),
     ucast (drop_bit 24 kDiscoveryVersion AND 0xFF), ucast (drop_bit 16 kDiscoveryVersion AND 0xFF),
     ucast (drop_bit 8 kDiscoveryVersion AND 0xFF), ucast (kDiscoveryVersion AND 0xFF)]"

definition broadcast_frame :: "ossl \<Rightarrow> rand_src \<Rightarrow> advertiser \<Rightarrow> bytes Result \<times> rand_src" where
  "broadcast_frame os rs a =
     (case random_bytes (replicate 8 0) rs of (rand_ok, nonce, rs) \<Rightarrow>
        if \<not> rand_ok then (Err EC_INTERNAL, rs)
        else
          let payload_bytes = serialize_payload (ad_payload a) in
          case hmac_sha256 os (mac_key_of (ad_psk a)) (nonce @ payload_bytes) of
            Ok mac \<Rightarrow> if length mac \<noteq> 32 then (Err EC_INTERNAL, rs)
              else (Ok (frame_prefix @ nonce @ mac @ payload_bytes), rs)
          | mac \<Rightarrow> (Err (error mac), rs))"

definition broadcast_once :: "ossl \<Rightarrow> (string \<Rightarrow> bool) \<Rightarrow> sendto_ret \<Rightarrow> time_point \<Rightarrow> rand_src \<Rightarrow> advertiser
    \<Rightarrow> nat Result \<times> bytes option \<times> advertiser \<times> rand_src" where
  "broadcast_once os pton ret now rs a =
     (case ad_sock a of
        None \<Rightarrow> (Err EC_NET_SOCKET_CLOSED, None, a, rs)
      | Some sock \<Rightarrow>
          (case broadcast_frame os rs a of
             (Ok frame, rs) \<Rightarrow>
               let ep = \<lparr>ep_address = ac_bind_address (ad_cfg a), ep_port = ac_broadcast_port (ad_cfg a), ep_is_broadcast = True\<rparr> in
               (case udp_send os pton ret now frame ep sock of
                  (r, d, sock) \<Rightarrow> (r, d, a\<lparr>ad_sock := Some sock\<rparr>, rs))
           | (r, rs) \<Rightarrow> (Err (error r), None, a, rs)))"

section \<open>The scanner\<close>

record ScannerConfig =
  sn_bind_port :: u16
  sn_replay_window :: int

record 'cb scanner =
  sn_registry :: "'cb registry option"
  sn_cfg :: ScannerConfig
  sn_psk :: bytes
  sn_sock :: "udp option"
  sn_seen_nonces :: "(string, time_point) kv"

definition scanner_create :: "'cb registry option \<Rightarrow> ScannerConfig \<Rightarrow> bytes \<Rightarrow> udp Result \<Rightarrow> 'cb scanner option" where
  "scanner_create registry cfg psk sock =
     (case sock of
        Ok s \<Rightarrow> Some \<lparr>sn_registry = registry, sn_cfg = cfg, sn_psk = (if length psk = 32 then psk else []),
          sn_sock = Some s, sn_seen_nonces = []\<rparr>
      | _ \<Rightarrow> None)"

definition be32_at :: "bytes \<Rightarrow> nat \<Rightarrow> u32" where
  "be32_at frame i = push_bit 24 (ucast (frame ! i)) OR push_bit 16 (ucast (frame ! (i + 1)))
     OR push_bit 8 (ucast (frame ! (i + 2))) OR ucast (frame ! (i + 3))"

definition hex_digit :: "byte \<Rightarrow> char" where
  "hex_digit d = ''0123456789abcdef'' ! unat (d AND 0xF)"

definition nonce_hex :: "bytes \<Rightarrow> string" where
  "nonce_hex frame = concat (map (\<lambda>i. let b = frame ! (8 + i) in [hex_digit (drop_bit 4 b), hex_digit b]) [0..<8])"

definition purge_nonces :: "time_point \<Rightarrow> 'cb scanner \<Rightarrow> 'cb scanner" where
  "purge_nonces now s = s\<lparr>sn_seen_nonces :=
     filter (\<lambda>(_, t). \<not> now - t > sn_replay_window (sn_cfg s)) (sn_seen_nonces s)\<rparr>"

definition entry_of :: "AdvertisementPayload \<Rightarrow> RegistryEntry" where
  "entry_of p = \<lparr>re_node_id = ap_node_id p, re_hostname = ap_hostname p, re_bind_address = ap_bind_address p,
     re_bind_port = ap_bind_port p,
     re_services = map (\<lambda>s. \<lparr>sd_service_name = s, sd_port = 0, sd_protocol = []\<rparr>) (ap_services p),
     re_last_heartbeat_ns = 0\<rparr>"

definition frame_mac_ok :: "ossl \<Rightarrow> bytes \<Rightarrow> bytes \<Rightarrow> bool" where
  "frame_mac_ok os psk frame =
     (\<not> is_err (hmac_sha256_verify os (mac_key_of psk) (slice 8 8 frame @ drop kDiscoveryHeaderSize frame) (slice 16 32 frame)))"

definition register_payload :: "AdvertisementPayload \<Rightarrow> 'cb scanner \<Rightarrow> bool Result \<times> 'cb scanner \<times> 'cb reg_call list" where
  "register_payload payload s =
     (if ap_node_id payload = [] then (Err EC_SERIALIZE_DECODE_FAILED, s, [])
      else case sn_registry s of
        None \<Rightarrow> (Ok True, s, [])
      | Some r \<Rightarrow> (case register_node (entry_of payload) r of
          (_, r, calls) \<Rightarrow> (Ok True, s\<lparr>sn_registry := Some r\<rparr>, calls)))"

text \<open>The callbacks the registry runs are the third component.\<close>

definition handle_frame :: "ossl \<Rightarrow> time_point \<Rightarrow> bytes \<Rightarrow> 'cb scanner \<Rightarrow> bool Result \<times> 'cb scanner \<times> 'cb reg_call list" where
  "handle_frame os now frame s =
     (if length frame < kDiscoveryHeaderSize then (Err EC_SERIALIZE_DECODE_FAILED, s, [])
      else if be32_at frame 0 \<noteq> kDiscoveryMagic then (Err EC_SERIALIZE_VERSION_MISMATCH, s, [])
      else if be32_at frame 4 \<noteq> kDiscoveryVersion then (Err EC_SERIALIZE_VERSION_MISMATCH, s, [])
      else
        let nonce_str = nonce_hex frame; s = purge_nonces now s in
        if kv_get (sn_seen_nonces s) nonce_str \<noteq> None then (Ok False, s, [])
        else
          let s = s\<lparr>sn_seen_nonces := kv_put nonce_str now (sn_seen_nonces s)\<rparr> in
          if \<not> frame_mac_ok os (sn_psk s) frame then (Ok False, s, [])
          else register_payload (parse_payload (drop kDiscoveryHeaderSize frame)) s)"

definition poll_once :: "ossl \<Rightarrow> select_ret \<Rightarrow> recvfrom_ret \<Rightarrow> time_point \<Rightarrow> 'cb scanner
    \<Rightarrow> bool Result \<times> 'cb scanner \<times> 'cb reg_call list" where
  "poll_once os sel ret now s =
     (case sn_sock s of
        None \<Rightarrow> (Err EC_NET_SOCKET_CLOSED, s, [])
      | Some sock \<Rightarrow> (case udp_recv os sel ret 100 sock of
            Ok frame \<Rightarrow> handle_frame os now frame s
          | r \<Rightarrow> (Err (error r), s, [])))"

lemma handle_frame_sock: "handle_frame os now frame s = (r, s', calls) \<Longrightarrow> sn_sock s' = sn_sock s"
  by (auto simp: handle_frame_def register_payload_def purge_nonces_def Let_def split: if_splits option.splits prod.splits)

definition seen_count :: "'cb scanner \<Rightarrow> nat" where
  "seen_count s = length (sn_seen_nonces s)"

definition clear_nonces :: "'cb scanner \<Rightarrow> 'cb scanner" where
  "clear_nonces s = s\<lparr>sn_seen_nonces := []\<rparr>"

section \<open>Frames\<close>

lemma frame_prefix_value: "frame_prefix = [0x44, 0x43, 0x41, 0x44, 0, 0, 0, 1]"
  by (simp add: frame_prefix_def kDiscoveryMagic_def kDiscoveryVersion_def)

lemma be32_prefix:
  "be32_at (frame_prefix @ rest) 0 = kDiscoveryMagic" "be32_at (frame_prefix @ rest) 4 = kDiscoveryVersion"
  by (simp_all add: frame_prefix_value be32_at_def kDiscoveryMagic_def kDiscoveryVersion_def)

text \<open>What a broadcast frame holds.\<close>

lemma broadcast_frame_ok:
  assumes "broadcast_frame os rs a = (Ok frame, rs')" "ossl_ok os"
  obtains nonce mac where "length nonce = 8" "length mac = 32"
    "frame = frame_prefix @ nonce @ mac @ serialize_payload (ad_payload a)"
    "os_hmac_sha256 os (mac_key_of (ad_psk a)) (nonce @ serialize_payload (ad_payload a)) = Some mac"
proof -
  obtain ok nonce rs1 where r: "random_bytes (replicate 8 0) rs = (ok, nonce, rs1)"
    by (cases "random_bytes (replicate 8 0) rs") auto
  have k: "mac_key_of (ad_psk a) \<noteq> []" by (auto simp: mac_key_of_def)
  obtain mac where m: "hmac_sha256 os (mac_key_of (ad_psk a)) (nonce @ serialize_payload (ad_payload a)) = Ok mac"
    "os_hmac_sha256 os (mac_key_of (ad_psk a)) (nonce @ serialize_payload (ad_payload a)) = Some mac" "length mac = 32"
    using hmac_ok [OF assms(2) k] by blast
  from length_random [OF r] have "length nonce = 8" by simp
  moreover have "frame = frame_prefix @ nonce @ mac @ serialize_payload (ad_payload a)"
    using assms(1) r m by (auto simp: broadcast_frame_def Let_def split: if_splits)
  ultimately show ?thesis using m by (intro that)
qed

lemma frame_parts:
  assumes "length nonce = 8" "length mac = 32"
  shows "slice 8 8 (frame_prefix @ nonce @ mac @ p) = nonce" "slice 16 32 (frame_prefix @ nonce @ mac @ p) = mac"
    "drop kDiscoveryHeaderSize (frame_prefix @ nonce @ mac @ p) = p"
    "kDiscoveryHeaderSize \<le> length (frame_prefix @ nonce @ mac @ p)"
  using assms by (simp_all add: frame_prefix_value slice_def kDiscoveryHeaderSize_def)

lemma mac_key_nonempty [simp]: "mac_key_of psk \<noteq> []"
  by (auto simp: mac_key_of_def)

lemma frame_mac_iff:
  assumes "ossl_ok os" "48 \<le> length frame"
  shows "frame_mac_ok os psk frame \<longleftrightarrow>
    os_hmac_sha256 os (mac_key_of psk) (slice 8 8 frame @ drop kDiscoveryHeaderSize frame) = Some (slice 16 32 frame)"
  using hmac_verify_iff [OF assms(1) mac_key_nonempty, of "slice 16 32 frame"] assms(2)
  by (simp add: frame_mac_ok_def)

text \<open>The registry after a frame, and when it can change.\<close>

lemma handle_frame_rejects:
  assumes "handle_frame os now frame s = (r, s', calls)" "r \<noteq> Ok True"
  shows "sn_registry s' = sn_registry s \<and> calls = []"
  using assms
  by (auto simp: handle_frame_def register_payload_def purge_nonces_def Let_def split: if_splits option.splits prod.splits)

lemma handle_frame_accepts:
  assumes "handle_frame os now frame s = (Ok True, s', calls)"
  shows "kDiscoveryHeaderSize \<le> length frame \<and> be32_at frame 0 = kDiscoveryMagic \<and> be32_at frame 4 = kDiscoveryVersion
    \<and> kv_get (sn_seen_nonces (purge_nonces now s)) (nonce_hex frame) = None \<and> frame_mac_ok os (sn_psk s) frame
    \<and> sn_seen_nonces s' = kv_put (nonce_hex frame) now (sn_seen_nonces (purge_nonces now s))"
  using assms
  by (auto simp: handle_frame_def register_payload_def purge_nonces_def Let_def split: if_splits option.splits prod.splits)

text \<open>
  Only authentic announcements reach the registry: whenever handling a frame changes the
  registry, runs a callback or answers true, the frame has the right header, its MAC field is the
  HMAC of its nonce and its payload under the scanner's key, and its nonce was not in the window.
\<close>

theorem scanner_only_authentic:
  assumes "ossl_ok os" "handle_frame os now frame s = (r, s', calls)"
    and "r = Ok True \<or> sn_registry s' \<noteq> sn_registry s \<or> calls \<noteq> []"
  shows "be32_at frame 0 = kDiscoveryMagic \<and> be32_at frame 4 = kDiscoveryVersion \<and>
    os_hmac_sha256 os (mac_key_of (sn_psk s)) (slice 8 8 frame @ drop 48 frame) = Some (slice 16 32 frame) \<and>
    kv_get (sn_seen_nonces (purge_nonces now s)) (nonce_hex frame) = None"
proof -
  have r: "r = Ok True" using handle_frame_rejects [OF assms(2)] assms(3) by blast
  with handle_frame_accepts assms(2) have a: "kDiscoveryHeaderSize \<le> length frame \<and> be32_at frame 0 = kDiscoveryMagic
    \<and> be32_at frame 4 = kDiscoveryVersion \<and> kv_get (sn_seen_nonces (purge_nonces now s)) (nonce_hex frame) = None
    \<and> frame_mac_ok os (sn_psk s) frame" by blast
  then show ?thesis using frame_mac_iff [OF assms(1), of frame "sn_psk s"] by (simp add: kDiscoveryHeaderSize_def)
qed

text \<open>
  What an advertiser with the same key broadcasts, a scanner that has not seen the nonce
  accepts: it answers true and the registry then holds exactly the announced node under its id;
  the same frame again within the replay window is ignored and changes nothing.
\<close>

theorem scanner_accepts_genuine:
  assumes "ossl_ok os" "broadcast_frame os rs a = (Ok frame, rs')"
    and "small_payload (ad_payload a)" "ap_node_id (ad_payload a) \<noteq> []"
    and "mac_key_of (sn_psk s) = mac_key_of (ad_psk a)" "sn_registry s = Some reg"
    and "kv_get (sn_seen_nonces s) (nonce_hex frame) = None"
    and "now \<le> later" "later - now \<le> sn_replay_window (sn_cfg s)"
  shows "\<exists>s' calls reg' s''. handle_frame os now frame s = (Ok True, s', calls) \<and> sn_registry s' = Some reg' \<and>
    reg_get_node (ap_node_id (ad_payload a)) reg' = Ok (entry_of (ad_payload a)) \<and>
    handle_frame os later frame s' = (Ok False, s'', []) \<and> sn_registry s'' = Some reg'"
proof -
  obtain nonce mac where f: "length nonce = 8" "length mac = 32"
    and frame: "frame = frame_prefix @ nonce @ mac @ serialize_payload (ad_payload a)"
    and h: "os_hmac_sha256 os (mac_key_of (ad_psk a)) (nonce @ serialize_payload (ad_payload a)) = Some mac"
    by (rule broadcast_frame_ok [OF assms(2,1)])
  note parts = frame_parts [OF f, of "serialize_payload (ad_payload a)", folded frame]
  have hdr: "be32_at frame 0 = kDiscoveryMagic" "be32_at frame 4 = kDiscoveryVersion"
    unfolding frame by (rule be32_prefix)+
  have "48 \<le> length frame" using parts(4) by (simp add: kDiscoveryHeaderSize_def)
  then have mac: "frame_mac_ok os (sn_psk s) frame"
    using frame_mac_iff [OF assms(1), of frame "sn_psk s"] parts assms(5) h by simp
  let ?seen = "kv_put (nonce_hex frame) now (sn_seen_nonces (purge_nonces now s))"
  obtain isnew reg' calls where reg: "register_node (entry_of (ad_payload a)) reg = (isnew, reg', calls)"
    by (cases "register_node (entry_of (ad_payload a)) reg") auto
  let ?s = "s\<lparr>sn_registry := Some reg', sn_seen_nonces := ?seen\<rparr>"
  have fresh: "kv_get (sn_seen_nonces (purge_nonces now s)) (nonce_hex frame) = None"
    using assms(7) by (auto simp: purge_nonces_def map_of_eq_None_iff)
  have first: "handle_frame os now frame s = (Ok True, ?s, calls)"
    using hdr mac fresh parts(3,4) parse_serialize [OF assms(3)] assms(4,6) reg
    by (simp add: handle_frame_def register_payload_def purge_nonces_def frame_mac_ok_def)
  have "reg_get_node (ap_node_id (ad_payload a)) reg' = Ok (entry_of (ad_payload a))"
    using reg assms(4) by (auto simp: register_node_def entry_of_def reg_get_node_def Let_def)
  moreover have "kv_get (sn_seen_nonces (purge_nonces later ?s)) (nonce_hex frame) \<noteq> None"
  proof -
    have "(nonce_hex frame, now) \<in> set ?seen" by (rule map_of_SomeD) simp
    then have "(nonce_hex frame, now) \<in> set (sn_seen_nonces (purge_nonces later ?s))"
      using assms(9) by (simp add: purge_nonces_def)
    then show ?thesis by (metis not_None_eq weak_map_of_SomeI)
  qed
  then obtain s'' where "handle_frame os later frame ?s = (Ok False, s'', []) \<and> sn_registry s'' = Some reg'"
    using hdr parts(4) by (simp add: handle_frame_def Let_def purge_nonces_def)
  ultimately show ?thesis using first by auto
qed

section \<open>Replays\<close>

text \<open>A run over received frames; the result lists the accepted ones with their times.\<close>

fun scan_run :: "ossl \<Rightarrow> (time_point \<times> bytes) list \<Rightarrow> 'cb scanner \<Rightarrow> (time_point \<times> bytes) list" where
  "scan_run os [] s = []"
| "scan_run os ((now, frame) # fs) s =
     (case handle_frame os now frame s of (r, s', _) \<Rightarrow>
        if r = Ok True then (now, frame) # scan_run os fs s' else scan_run os fs s')"

lemma handle_frame_cfg: "handle_frame os now frame s = (r, s', calls) \<Longrightarrow> sn_cfg s' = sn_cfg s"
  by (auto simp: handle_frame_def register_payload_def purge_nonces_def Let_def
      split: if_splits option.splits prod.splits)

lemma handle_frame_seen:
  assumes "handle_frame os now frame s = (r, s', calls)"
  shows "sn_seen_nonces s' = sn_seen_nonces s \<or> sn_seen_nonces s' = sn_seen_nonces (purge_nonces now s) \<or>
    sn_seen_nonces s' = kv_put (nonce_hex frame) now (sn_seen_nonces (purge_nonces now s))"
  using assms
  by (auto simp: handle_frame_def register_payload_def purge_nonces_def Let_def
      split: if_splits option.splits prod.splits)

text \<open>A nonce first met at \<open>a\<close> is remembered since then or later, or the window is over.\<close>

definition remembered :: "string \<Rightarrow> time_point \<Rightarrow> time_point \<Rightarrow> 'cb scanner \<Rightarrow> bool" where
  "remembered n a now s = (now - a > sn_replay_window (sn_cfg s) \<or>
     (\<exists>t. (n, t) \<in> set (sn_seen_nonces s) \<and> a \<le> t))"

lemma remembered_purge:
  "remembered n a now s \<Longrightarrow> now \<le> now' \<Longrightarrow> remembered n a now' (purge_nonces now' s)"
  by (force simp: remembered_def purge_nonces_def)

lemma kv_put_keeps: "p \<in> set m \<Longrightarrow> fst p \<noteq> k \<Longrightarrow> p \<in> set (kv_put k v m)"
  by (induction m) auto

lemma kv_put_in: "(k, v) \<in> set (kv_put k v m)"
  by (rule map_of_SomeD) simp

lemma remembered_put:
  assumes "remembered n a now s" "a \<le> now" "sn_seen_nonces s' = kv_put k now (sn_seen_nonces s)" "sn_cfg s' = sn_cfg s"
  shows "remembered n a now s'"
proof (cases "n = k")
  case True
  then have "(n, now) \<in> set (sn_seen_nonces s')" using assms(3) kv_put_in by simp
  with assms(2) show ?thesis unfolding remembered_def by blast
next
  case False
  then show ?thesis using assms(1,3,4) kv_put_keeps [of "(n, _)" "sn_seen_nonces s" k now]
    unfolding remembered_def by auto
qed

lemma remembered_step:
  assumes "remembered n a t s" "a \<le> t" "t \<le> now" "handle_frame os now frame s = (r, s', calls)"
  shows "remembered n a now s'"
proof -
  have p: "remembered n a now (purge_nonces now s)" by (rule remembered_purge [OF assms(1,3)])
  have cfg: "sn_cfg (purge_nonces now s) = sn_cfg s" by (simp add: purge_nonces_def)
  note same = remembered_def [of n a now] handle_frame_cfg [OF assms(4)] cfg
  from handle_frame_seen [OF assms(4)] show ?thesis
  proof (elim disjE)
    assume "sn_seen_nonces s' = sn_seen_nonces s"
    with assms(1,3) show ?thesis unfolding remembered_def handle_frame_cfg [OF assms(4)] by auto
  next
    assume "sn_seen_nonces s' = sn_seen_nonces (purge_nonces now s)"
    with p show ?thesis unfolding same by auto
  next
    assume "sn_seen_nonces s' = kv_put (nonce_hex frame) now (sn_seen_nonces (purge_nonces now s))"
    then show ?thesis using remembered_put [OF p] assms(2,3) handle_frame_cfg [OF assms(4)] cfg by simp
  qed
qed

lemma scan_run_after:
  assumes "remembered n a t s" "a \<le> t" "sorted (t # map fst fs)"
  shows "list_all (\<lambda>(x, f). nonce_hex f = n \<longrightarrow> x - a > sn_replay_window (sn_cfg s)) (scan_run os fs s)"
  using assms
proof (induction fs arbitrary: t s)
  case (Cons f fs)
  obtain now frame where f: "f = (now, frame)" by (cases f)
  obtain r s' calls where h: "handle_frame os now frame s = (r, s', calls)" by (cases "handle_frame os now frame s")
  have t: "t \<le> now" "a \<le> now" "sorted (now # map fst fs)" using Cons.prems(2,3) f by auto
  note ih = Cons.IH [OF remembered_step [OF Cons.prems(1,2) t(1) h] t(2,3), unfolded handle_frame_cfg [OF h]]
  have "now - a > sn_replay_window (sn_cfg s)" if "r = Ok True" "nonce_hex frame = n"
  proof (rule ccontr)
    assume "\<not> now - a > sn_replay_window (sn_cfg s)"
    with remembered_purge [OF Cons.prems(1) t(1)] obtain u where "(n, u) \<in> set (sn_seen_nonces (purge_nonces now s))"
      by (auto simp: remembered_def purge_nonces_def)
    moreover have "kv_get (sn_seen_nonces (purge_nonces now s)) n = None"
      using handle_frame_accepts [of os now frame s s' calls] h that by simp
    ultimately show False by (force simp: map_of_eq_None_iff)
  qed
  with ih show ?case by (simp add: f h)
qed simp

text \<open>
  The replay window holds: over any sequence of received frames at non-decreasing clock
  readings, two accepted frames with the same nonce are more than the window apart, whatever
  was received between them.
\<close>

theorem scanner_replay_window:
  assumes "sorted (map fst fs)"
  shows "sorted_wrt (\<lambda>(x, f) (y, g). nonce_hex f = nonce_hex g \<longrightarrow> y - x > sn_replay_window (sn_cfg s)) (scan_run os fs s)"
  using assms
proof (induction fs arbitrary: s)
  case (Cons f fs)
  obtain now frame where f: "f = (now, frame)" by (cases f)
  obtain r s' calls where h: "handle_frame os now frame s = (r, s', calls)" by (cases "handle_frame os now frame s")
  note ih = Cons.IH [of s', unfolded handle_frame_cfg [OF h]]
  show ?case
  proof (cases "r = Ok True")
    case True
    then have "remembered (nonce_hex frame) now now s'"
      using handle_frame_accepts h kv_put_in unfolding remembered_def by fastforce
    from scan_run_after [OF this, of fs os] Cons.prems f h True
    have "list_all (\<lambda>(y, g). nonce_hex g = nonce_hex frame \<longrightarrow> y - now > sn_replay_window (sn_cfg s)) (scan_run os fs s')"
      by (simp add: handle_frame_cfg [OF h])
    with ih Cons.prems True show ?thesis by (auto simp: f h list_all_iff)
  qed (use ih Cons.prems in \<open>simp add: f h\<close>)
qed simp

section \<open>A nonce is used up before its frame is checked\<close>

text \<open>
  Whoever sends a frame with an honest frame's nonce and a wrong MAC first makes the scanner
  ignore the honest frame.
\<close>

lemma forged_frame_burns_nonce:
  assumes "48 \<le> length g" "be32_at g 0 = kDiscoveryMagic" "be32_at g 4 = kDiscoveryVersion"
    and "nonce_hex g = nonce_hex frame" "\<not> frame_mac_ok os (sn_psk s) g"
    and "48 \<le> length frame" "be32_at frame 0 = kDiscoveryMagic" "be32_at frame 4 = kDiscoveryVersion"
    and "now \<le> later" "later - now \<le> sn_replay_window (sn_cfg s)"
    and "handle_frame os now g s = (r, s', calls)"
    and "kv_get (sn_seen_nonces (purge_nonces now s)) (nonce_hex frame) = None"
  shows "fst (handle_frame os later frame s') = Ok False"
proof -
  have s': "s' = (purge_nonces now s)\<lparr>sn_seen_nonces := kv_put (nonce_hex frame) now (sn_seen_nonces (purge_nonces now s))\<rparr>"
    using assms by (simp add: handle_frame_def Let_def kDiscoveryHeaderSize_def purge_nonces_def)
  then have "(nonce_hex frame, now) \<in> set (sn_seen_nonces (purge_nonces later s'))"
    using assms(10) kv_put_in by (simp add: purge_nonces_def)
  then have "kv_get (sn_seen_nonces (purge_nonces later s')) (nonce_hex frame) \<noteq> None"
    by (metis not_None_eq weak_map_of_SomeI)
  with assms(6-8) show ?thesis by (simp add: handle_frame_def Let_def kDiscoveryHeaderSize_def)
qed

section \<open>A concrete announcement\<close>

definition sample_advertiser :: advertiser where
  "sample_advertiser = \<lparr>ad_payload = \<lparr>ap_node_id = [110], ap_hostname = [], ap_bind_address = [], ap_bind_port = 9000,
       ap_services = [[97]]\<rparr>,
     ad_cfg = \<lparr>ac_bind_address = ''127.0.0.1'', ac_bind_port = 0, ac_broadcast_port = 19999, ac_period = seconds 30\<rparr>,
     ad_psk = replicate 32 7, ad_sock = None\<rparr>"

definition sample_scanner :: "nat scanner" where
  "sample_scanner = \<lparr>sn_registry = Some registry_new,
     sn_cfg = \<lparr>sn_bind_port = 19999, sn_replay_window = seconds 300\<rparr>,
     sn_psk = replicate 32 7, sn_sock = None, sn_seen_nonces = []\<rparr>"

definition sample_frame :: bytes where
  "sample_frame = frame_prefix @ replicate 8 1 @ replicate 32 7 @ serialize_payload (ad_payload sample_advertiser)"

lemma sample_frame_value:
  "broadcast_frame sample_ossl [Some (replicate 8 1)] sample_advertiser = (Ok sample_frame, [])"
  by code_simp

lemma sample_runs:
  "scan_run sample_ossl [(1, sample_frame), (2, sample_frame), (seconds 400, sample_frame)] sample_scanner
    = [(1, sample_frame), (seconds 400, sample_frame)]"
  by code_simp

theorem scanner_replay_window_witness:
  "sorted_wrt (\<lambda>(x, f) (y, g). nonce_hex f = nonce_hex g \<longrightarrow> y - x > seconds 300)
    [(1, sample_frame), (seconds 400, sample_frame)]"
  using scanner_replay_window [of "[(1, sample_frame), (2, sample_frame), (seconds 400, sample_frame)]"
      sample_scanner sample_ossl, unfolded sample_runs]
  by (simp add: seconds_def sample_scanner_def)

theorem scanner_accepts_genuine_witness:
  "\<exists>s' calls reg' s''. handle_frame sample_ossl 1 sample_frame sample_scanner = (Ok True, s', calls) \<and>
    sn_registry s' = Some reg' \<and>
    reg_get_node [110] reg' = Ok (entry_of (ad_payload sample_advertiser)) \<and>
    handle_frame sample_ossl 5 sample_frame s' = (Ok False, s'', []) \<and> sn_registry s'' = Some reg'"
  using scanner_accepts_genuine [OF sample_ossl_ok sample_frame_value, of sample_scanner registry_new 1 5]
  by (simp add: sample_advertiser_def sample_scanner_def small_payload_def seconds_def)

theorem scanner_only_authentic_witness:
  "os_hmac_sha256 sample_ossl (mac_key_of (sn_psk sample_scanner)) (slice 8 8 sample_frame @ drop 48 sample_frame)
    = Some (slice 16 32 sample_frame)"
proof -
  have "fst (handle_frame sample_ossl 1 sample_frame sample_scanner) = Ok True" by code_simp
  then obtain s' calls where "handle_frame sample_ossl 1 sample_frame sample_scanner = (Ok True, s', calls)"
    by (cases "handle_frame sample_ossl 1 sample_frame sample_scanner") auto
  from scanner_only_authentic [OF sample_ossl_ok this] show ?thesis by simp
qed

end
