(* ===== verification/Discovery_Run.thy ===== *)
theory Discovery_Run
  imports Discovery "HOL-Library.Sublist"
begin

text \<open>
  The loops of the two background threads (\<open>src/ability_a/discovery/scanner.cpp\<close>,
  \<open>advertiser.cpp\<close>). A run of the scanner is a list of rounds, each with what \<open>select\<close>, \<open>recvfrom\<close>
  and the clock answer: whoever is on the network chooses the datagrams. A run of the advertiser
  is a list of rounds with what the kernel and the clock answer, the clock readings of its sleep
  included.

  Shown: what the registry and its subscribers hold after any run of the scanner; that an
  advertiser whose period is at least that of the rate limit never runs into it.
\<close>

section \<open>The scanner's loop\<close>

type_synonym scan_round = "select_ret \<times> recvfrom_ret \<times> time_point"

fun scanner_rounds :: "ossl \<Rightarrow> scan_round list \<Rightarrow> 'cb scanner \<Rightarrow> 'cb scanner \<times> 'cb reg_call list" where
  "scanner_rounds os [] s = (s, [])"
| "scanner_rounds os ((sel, ret, now) # rounds) s =
     (case poll_once os sel ret now s of (_, s, calls) \<Rightarrow>
        (case scanner_rounds os rounds s of (s, calls') \<Rightarrow> (s, calls @ calls')))"

text \<open>The frames that the socket hands over, with the times at which they are handled.\<close>

definition received :: "ossl \<Rightarrow> udp \<Rightarrow> scan_round list \<Rightarrow> (time_point \<times> bytes) list" where
  "received os sock rounds = List.map_filter
     (\<lambda>(sel, ret, now). case udp_recv os sel ret 100 sock of Ok frame \<Rightarrow> Some (now, frame) | _ \<Rightarrow> None) rounds"

definition announced :: "bytes \<Rightarrow> RegistryEntry" where
  "announced frame = entry_of (parse_payload (drop kDiscoveryHeaderSize frame))"

definition authentic :: "ossl \<Rightarrow> bytes \<Rightarrow> bytes \<Rightarrow> bool" where
  "authentic os psk frame = (kDiscoveryHeaderSize \<le> length frame \<and>
     be32_at frame 0 = kDiscoveryMagic \<and> be32_at frame 4 = kDiscoveryVersion \<and>
     os_hmac_sha256 os (mac_key_of psk) (slice 8 8 frame @ drop kDiscoveryHeaderSize frame) = Some (slice 16 32 frame))"

lemma received_simps [simp]:
  "received os sock [] = []"
  "received os sock ((sel, ret, now) # rounds) =
     (case udp_recv os sel ret 100 sock of Ok frame \<Rightarrow> (now, frame) # received os sock rounds | _ \<Rightarrow> received os sock rounds)"
  by (simp_all add: received_def List.map_filter_simps split: Result.split)

lemma received_at: "(t, f) \<in> set (received os sock rounds) \<Longrightarrow> \<exists>sel ret. (sel, ret, t) \<in> set rounds"
  by (force simp: received_def List.map_filter_def split: Result.splits)

lemma received_times: "sorted (map (\<lambda>(_, _, now). now) rounds) \<Longrightarrow> sorted (map fst (received os sock rounds))"
proof (induction rounds)
  case (Cons x rounds)
  obtain sel ret now where x: "x = (sel, ret, now)" by (cases x)
  have "now \<le> t" if "(t, f) \<in> set (received os sock rounds)" for t f
    using received_at [OF that] Cons.prems by (auto simp: x)
  with Cons show ?case by (auto simp: x split: Result.split)
qed simp

lemma handle_frame_psk: "handle_frame os now frame s = (r, s', calls) \<Longrightarrow> sn_psk s' = sn_psk s"
  by (auto simp: handle_frame_def register_payload_def purge_nonces_def Let_def split: if_splits option.splits prod.splits)

text \<open>One accepted frame: the node it announces is registered and each subscriber hears of it.\<close>

lemma handle_frame_registers:
  assumes "handle_frame os now frame s = (Ok True, s', calls)" "sn_registry s = Some r"
  shows "\<exists>b r'. sn_registry s' = Some r' \<and> register_node (announced frame) r = (b, r', calls) \<and> re_node_id (announced frame) \<noteq> []"
  using assms
  by (auto simp: handle_frame_def register_payload_def purge_nonces_def Let_def announced_def entry_of_def
      split: if_splits option.splits prod.splits)

definition registers :: "RegistryEntry \<Rightarrow> (bytes \<rightharpoonup> RegistryEntry) \<Rightarrow> (bytes \<rightharpoonup> RegistryEntry)" where
  "registers e m = m(re_node_id e \<mapsto> e)"

lemma register_node_effect:
  assumes "reg_ok r" "register_node e r = (b, r', calls)" "re_node_id e \<noteq> []"
  shows "reg_ok r'" "reg_subs r' = reg_subs r" "kv_get (reg_nodes r') = registers e (kv_get (reg_nodes r))"
    "kv_get (reg_subs r) sid = Some (Some cb) \<Longrightarrow> map snd (seen_by sid calls) = [e]"
proof -
  have r': "r' = fst (snd (register_node e r))" using assms(2) by simp
  show ok: "reg_ok r'" unfolding r' by (rule reg.put_ok [OF assms(1)])
  show subs: "reg_subs r' = reg_subs r" using assms(2) by (auto simp: register_node_def Let_def split: if_splits)
  show "kv_get (reg_nodes r') = registers e (kv_get (reg_nodes r))"
    unfolding r' registers_def by (rule reg.put_lookup [OF assms(1,3)])
  assume "kv_get (reg_subs r) sid = Some (Some cb)"
  with ok subs have "seen_by sid (notify ev e r') = [(ev, e)]" for ev by (simp add: seen_by_notify reg_ok_def)
  with assms(2,3) show "map snd (seen_by sid calls) = [e]" by (auto simp: register_node_def Let_def)
qed

lemma scanner_rounds_spec:
  assumes "ossl_ok os" "sn_sock s = Some sock" "sn_registry s = Some r" "reg_ok r" "scanner_rounds os rounds s = (s', calls)"
  shows "\<exists>r'. sn_registry s' = Some r' \<and>
    (let acc = map snd (scan_run os (received os sock rounds) s) in
     list_all (authentic os (sn_psk s)) acc \<and>
     kv_get (reg_nodes r') = fold registers (map announced acc) (kv_get (reg_nodes r)) \<and>
     (\<forall>sid cb. kv_get (reg_subs r) sid = Some (Some cb) \<longrightarrow> map snd (seen_by sid calls) = map announced acc))"
  using assms(2-5)
proof (induction rounds arbitrary: s r s' calls)
  case Nil
  then show ?case by (simp add: seen_by_def)
next
  case (Cons round rounds)
  obtain sel ret now where x: "round = (sel, ret, now)" by (cases round)
  obtain res s1 c1 where p: "poll_once os sel ret now s = (res, s1, c1)" by (cases "poll_once os sel ret now s")
  obtain c2 where rest: "scanner_rounds os rounds s1 = (s', c2)" and calls: "calls = c1 @ c2"
    using Cons.prems(4) by (auto simp: x p split: prod.splits)
  show ?case
  proof (cases "udp_recv os sel ret 100 sock")
    case (Ok frame)
    with p Cons.prems(1) have h: "handle_frame os now frame s = (res, s1, c1)" by (simp add: poll_once_def)
    have same: "sn_sock s1 = Some sock" "sn_psk s1 = sn_psk s"
      using handle_frame_sock [OF h] handle_frame_psk [OF h] Cons.prems(1) by simp_all
    show ?thesis
    proof (cases "res = Ok True")
      case True
      obtain b r1 where r1: "sn_registry s1 = Some r1" "register_node (announced frame) r = (b, r1, c1)" "re_node_id (announced frame) \<noteq> []"
        using handle_frame_registers [of os now frame s s1 c1 r] h True Cons.prems(2) by blast
      note reg = register_node_effect [OF Cons.prems(3) r1(2,3)]
      have "authentic os (sn_psk s) frame"
        using handle_frame_accepts [of os now frame s s1 c1] h True frame_mac_iff [OF assms(1), of frame "sn_psk s"]
        by (simp add: authentic_def kDiscoveryHeaderSize_def)
      with Cons.IH [OF same(1) r1(1) reg(1) rest] reg(2-4) show ?thesis
        by (simp add: x Ok h True calls seen_by_append Let_def same)
    next
      case False
      from handle_frame_rejects [OF h False] Cons.prems(2) have "sn_registry s1 = Some r" "c1 = []" by simp_all
      with Cons.IH [OF same(1) this(1) Cons.prems(3) rest] False show ?thesis by (simp add: x Ok h calls same)
    qed
  qed (use Cons.IH [OF Cons.prems(1-3)] p rest calls Cons.prems(1) in \<open>auto simp: x poll_once_def\<close>)
qed

lemma scan_run_subseq: "subseq (scan_run os fs s) fs"
proof (induction fs arbitrary: s)
  case (Cons f fs)
  then show ?case by (cases f) (simp add: list_emb_Cons split: prod.split)
qed simp

lemma scan_run_received: "x \<in> set (scan_run os fs s) \<Longrightarrow> x \<in> set fs"
  using list_emb_set [OF scan_run_subseq] by metis

text \<open>
  C9. The registry is what was announced: whatever anybody on the network sends, after any run of
  the scanner's loop the table is the one before, with the accepted announcements entered in their
  order; each subscriber has heard of exactly these, in order; each accepted frame carries the
  HMAC of its nonce and payload under the scanner's key; and two accepted frames with the same
  nonce are more than the replay window apart.
\<close>

theorem scanner_history:
  assumes "ossl_ok os" "sn_sock s = Some sock" "sn_registry s = Some r" "reg_ok r"
    and "kv_get (reg_subs r) sid = Some (Some cb)" "scanner_rounds os rounds s = (s', calls)"
    and "sorted (map (\<lambda>(_, _, now). now) rounds)"
  shows "\<exists>r' acc. sn_registry s' = Some r' \<and> subseq acc (received os sock rounds) \<and>
    kv_get (reg_nodes r') = fold registers (map (announced \<circ> snd) acc) (kv_get (reg_nodes r)) \<and>
    map snd (seen_by sid calls) = map (announced \<circ> snd) acc \<and>
    list_all (authentic os (sn_psk s) \<circ> snd) acc \<and>
    sorted_wrt (\<lambda>(x, f) (y, g). nonce_hex f = nonce_hex g \<longrightarrow> y - x > sn_replay_window (sn_cfg s)) acc"
proof -
  let ?acc = "scan_run os (received os sock rounds) s"
  have "sorted_wrt (\<lambda>(x, f) (y, g). nonce_hex f = nonce_hex g \<longrightarrow> y - x > sn_replay_window (sn_cfg s)) ?acc"
    by (rule scanner_replay_window [OF received_times [OF assms(7)]])
  moreover obtain r' where "sn_registry s' = Some r'" "list_all (authentic os (sn_psk s)) (map snd ?acc)"
    "kv_get (reg_nodes r') = fold registers (map announced (map snd ?acc)) (kv_get (reg_nodes r))"
    "map snd (seen_by sid calls) = map announced (map snd ?acc)"
    using scanner_rounds_spec [OF assms(1-4,6), unfolded Let_def] assms(5) by (elim exE conjE) simp
  ultimately show ?thesis
    by (intro exI [of _ r'] exI [of _ ?acc] conjI scan_run_subseq) (simp_all only: map_map list.pred_map)
qed

lemma ran_fold_registers: "ran (fold registers es m) \<subseteq> ran m \<union> set es"
proof (induction es arbitrary: m)
  case (Cons e es)
  have "ran (registers e m) \<subseteq> insert e (ran m)" by (auto simp: registers_def ran_def)
  with Cons [of "registers e m"] show ?case by auto
qed simp

definition subscribed_scanner :: "nat scanner" where
  "subscribed_scanner = sample_scanner\<lparr>sn_sock := Some (udp_new\<lparr>us_fd := 4\<rparr>),
     sn_registry := Some (snd (subscribe (Some 0) registry_new))\<rparr>"

definition sample_rounds :: "scan_round list" where
  "sample_rounds = [(Select_ready, Datagram sample_frame, 1), (Select_timeout, Recv_again, 2),
     (Select_ready, Datagram [1, 2, 3], 3), (Select_ready, Datagram sample_frame, 4)]"

lemma sample_received:
  "received sample_ossl (udp_new\<lparr>us_fd := 4\<rparr>) sample_rounds = [(1, sample_frame), (3, [1, 2, 3]), (4, sample_frame)]"
proof -
  have "length sample_frame < 100" by code_simp
  then have "take kRecvBuf sample_frame = sample_frame" by (simp add: kRecvBuf_def)
  then show ?thesis by (simp add: sample_rounds_def udp_recv_def udp_unframe_def udp_new_def kRecvBuf_def)
qed

lemma scanner_history_witness:
  "case scanner_rounds sample_ossl sample_rounds subscribed_scanner of (s', calls) \<Rightarrow>
    \<exists>r' acc. sn_registry s' = Some r' \<and> subseq acc [(1 :: time_point, sample_frame), (3, [1, 2, 3]), (4, sample_frame)] \<and>
      kv_get (reg_nodes r') = fold registers (map (announced \<circ> snd) acc) Map.empty \<and>
      map snd (seen_by 1 calls) = map (announced \<circ> snd) acc"
proof -
  let ?r = "snd (subscribe (Some 0) registry_new) :: nat registry"
  have r: "reg_ok ?r" "kv_get (reg_subs ?r) 1 = Some (Some 0)" "reg_nodes ?r = []"
    by (simp_all add: subscribe_def registry_new_def reg_ok_def)
  have s: "sn_sock subscribed_scanner = Some (udp_new\<lparr>us_fd := 4\<rparr>)" "sn_registry subscribed_scanner = Some ?r"
    by (simp_all add: subscribed_scanner_def)
  have t: "sorted (map (\<lambda>(_, _, now). now) sample_rounds)" by (simp add: sample_rounds_def)
  obtain s' calls where run: "scanner_rounds sample_ossl sample_rounds subscribed_scanner = (s', calls)" by fastforce
  from scanner_history [OF sample_ossl_ok s r(1,2) run t] show ?thesis unfolding run sample_received r(3) map_of.simps prod.case by blast
qed

section \<open>The advertiser's loop\<close>

record adv_round =
  ar_pton :: "string \<Rightarrow> bool"
  ar_ret :: sendto_ret
  ar_at :: time_point
  ar_slept :: time_point
  ar_wakes :: "time_point list"

text \<open>
  The sleep in slices: the first reading of the clock that is not before the end; \<open>None\<close> if
  \<open>stop\<close> comes first.
\<close>

fun sleep_ends :: "time_point \<Rightarrow> time_point list \<Rightarrow> time_point option" where
  "sleep_ends till [] = None"
| "sleep_ends till (t # ts) = (if t < till then sleep_ends till ts else Some t)"

text \<open>What each broadcast answered and handed to the kernel.\<close>

fun advertiser_run :: "ossl \<Rightarrow> adv_round list \<Rightarrow> rand_src \<Rightarrow> advertiser \<Rightarrow> (nat Result \<times> bytes option) list \<times> advertiser" where
  "advertiser_run os [] rs a = ([], a)"
| "advertiser_run os (x # xs) rs a =
     (case broadcast_once os (ar_pton x) (ar_ret x) (ar_at x) rs a of (r, d, a, rs) \<Rightarrow>
        (case sleep_ends (ar_slept x + ac_period (ad_cfg a)) (ar_wakes x) of
           None \<Rightarrow> ([(r, d)], a)
         | Some _ \<Rightarrow> (case advertiser_run os xs rs a of (out, a) \<Rightarrow> ((r, d) # out, a))))"

lemma sleep_ends_Some: "sleep_ends till ts = Some t \<Longrightarrow> t \<in> set ts \<and> till \<le> t"
  by (induction ts) (auto split: if_splits)

lemma broadcast_once_round:
  assumes "broadcast_once os pton ret now rs a = (r, d, a', rs')" "ad_sock a = Some sock"
    and "us_last_broadcast_at sock \<noteq> 0 \<Longrightarrow> kBroadcastPeriod \<le> now - us_last_broadcast_at sock"
  shows "r \<noteq> Err EC_NET_RATE_LIMITED" "ad_cfg a' = ad_cfg a"
    "\<exists>sock'. ad_sock a' = Some sock' \<and> us_last_broadcast_at sock' \<in> {us_last_broadcast_at sock, now}"
  using assms
  by (auto simp: broadcast_once_def broadcast_frame_def hmac_sha256_def psk_aead_encrypt_def udp_send_def udp_frame_def
      check_broadcast_rate_def Let_def split: if_splits option.splits prod.splits sendto_ret.splits)

definition clock_readings :: "adv_round list \<Rightarrow> time_point list" where
  "clock_readings xs = concat (map (\<lambda>x. ar_at x # ar_slept x # ar_wakes x) xs)"

text \<open>
  C38. A newly created advertiser, which has not broadcast yet, whose period is at least the rate
  limit's never runs into the limit: with non-decreasing clock readings no round of its loop is
  answered with the error of the limit.
\<close>

theorem advertiser_never_limited:
  assumes "sorted (clock_readings xs)" "kBroadcastPeriod \<le> ac_period (ad_cfg a)" "ad_sock a = Some sock"
    and "us_last_broadcast_at sock = 0" "advertiser_run os xs rs a = (out, a')"
  shows "Err EC_NET_RATE_LIMITED \<notin> fst ` set out"
proof -
  have "Err EC_NET_RATE_LIMITED \<notin> fst ` set out"
    if "us_last_broadcast_at sock \<noteq> 0 \<longrightarrow> xs \<noteq> [] \<longrightarrow> kBroadcastPeriod \<le> ar_at (hd xs) - us_last_broadcast_at sock"
    using assms(1-3,5) that
  proof (induction xs arbitrary: rs a sock out)
    case (Cons x xs)
    obtain r d a1 rs1 where b: "broadcast_once os (ar_pton x) (ar_ret x) (ar_at x) rs a = (r, d, a1, rs1)"
      by (cases "broadcast_once os (ar_pton x) (ar_ret x) (ar_at x) rs a")
    have "us_last_broadcast_at sock \<noteq> 0 \<Longrightarrow> kBroadcastPeriod \<le> ar_at x - us_last_broadcast_at sock"
      using Cons.prems(5) by simp
    note round = broadcast_once_round [OF b Cons.prems(3) this]
    show ?case
    proof (cases "sleep_ends (ar_slept x + ac_period (ad_cfg a1)) (ar_wakes x)")
      case None
      with Cons.prems(4) b round(1) show ?thesis by auto
    next
      case (Some t)
      obtain out1 where o: "advertiser_run os xs rs1 a1 = (out1, a')" "out = (r, d) # out1"
        using Cons.prems(4) b Some by (auto split: prod.splits)
      obtain sock1 where k: "ad_sock a1 = Some sock1" "us_last_broadcast_at sock1 \<in> {us_last_broadcast_at sock, ar_at x}"
        using round(3) by blast
      have t: "t \<in> set (ar_wakes x)" "ar_slept x + kBroadcastPeriod \<le> t"
        using sleep_ends_Some [OF Some] Cons.prems(2) round(2) by auto
      have "kBroadcastPeriod \<le> ar_at (hd xs) - us_last_broadcast_at sock1" if "xs \<noteq> []" "us_last_broadcast_at sock1 \<noteq> 0"
      proof -
        have "ar_at (hd xs) \<in> set (clock_readings xs)" using that(1) by (cases xs) (simp_all add: clock_readings_def)
        with Cons.prems(1) t(1) have "t \<le> ar_at (hd xs)" "ar_at x \<le> ar_slept x"
          by (auto simp: clock_readings_def sorted_append)
        with t(2) k(2) Cons.prems(5) that(2) show ?thesis by (auto simp: kBroadcastPeriod_def milliseconds_def)
      qed
      moreover have "sorted (clock_readings xs)" using Cons.prems(1) by (simp add: clock_readings_def sorted_append)
      ultimately have "Err EC_NET_RATE_LIMITED \<notin> fst ` set out1"
        using Cons.IH [OF _ _ k(1) o(1)] Cons.prems(2) round(2) by simp
      with round(1) o(2) show ?thesis by simp
    qed
  qed simp
  with assms(4) show ?thesis by simp
qed

lemma advertiser_never_limited_witness:
  "let x = \<lparr>ar_pton = \<lambda>_. True, ar_ret = Sent 100, ar_at = seconds 1, ar_slept = seconds 2, ar_wakes = [seconds 20, seconds 33]\<rparr>;
       y = x\<lparr>ar_at := seconds 34, ar_slept := seconds 34, ar_wakes := []\<rparr> in
   Err EC_NET_RATE_LIMITED \<notin> fst ` set (fst (advertiser_run sample_ossl [x, y]
     [Some (replicate 8 1), Some (replicate 8 2)] (sample_advertiser\<lparr>ad_sock := Some (udp_new\<lparr>us_fd := 3\<rparr>)\<rparr>)))"
proof -
  let ?x = "\<lparr>ar_pton = \<lambda>_. True, ar_ret = Sent 100, ar_at = seconds 1, ar_slept = seconds 2, ar_wakes = [seconds 20, seconds 33]\<rparr>"
  let ?y = "?x\<lparr>ar_at := seconds 34, ar_slept := seconds 34, ar_wakes := []\<rparr>"
  let ?a = "sample_advertiser\<lparr>ad_sock := Some (udp_new\<lparr>us_fd := 3\<rparr>)\<rparr>"
  obtain out a' where run: "advertiser_run sample_ossl [?x, ?y] [Some (replicate 8 1), Some (replicate 8 2)] ?a = (out, a')"
    by fastforce
  have "Err EC_NET_RATE_LIMITED \<notin> fst ` set out"
    by (rule advertiser_never_limited [OF _ _ _ _ run, of "udp_new\<lparr>us_fd := 3\<rparr>"])
      (simp_all add: clock_readings_def seconds_def kBroadcastPeriod_def milliseconds_def sample_advertiser_def udp_new_def)
  with run show ?thesis unfolding Let_def by (simp only: fst_conv simp_thms)
qed

end
