(* ===== verification/Service_Loop.thy ===== *)
theory Service_Loop
  imports Interfaces Step_Systems
begin

text \<open>
  The start/stop protocol that \<open>Advertiser\<close> and \<open>Scanner\<close> (\<open>src/ability_a/discovery\<close>)
  share: an atomic state, a background thread, a thread that calls \<open>start\<close> and one that
  calls \<open>stop\<close>. Every atomic access is one step of the relation \<open>lstep\<close>, so its paths are
  the interleavings. The two classes differ in \<open>stop\<close> only: the advertiser joins the thread
  and then closes the socket, the scanner closes first. With \<open>par = False\<close> a call begins
  only when no other call is in progress.
\<close>

datatype LoopState = kStopped | kStarting | kRunning
datatype loop_kind = Advertiser_loop | Scanner_loop

text \<open>
  \<open>thread_\<close>: not joinable, started and not yet in its first statement, in its loop, ended.
\<close>

datatype worker = No_thread | Spawned | Looping | Exited

datatype start_pc = Start_idle | Start_spawn | Start_wait
datatype stop_pc = Stop_idle | Stop_join | Stop_close

record loop =
  lp_state :: LoopState
  lp_worker :: worker
  lp_start :: start_pc
  lp_stop :: stop_pc
  lp_sock_open :: bool
  lp_terminated :: bool

definition loop_new :: loop where
  "loop_new = \<lparr>lp_state = kStopped, lp_worker = No_thread, lp_start = Start_idle, lp_stop = Stop_idle,
     lp_sock_open = True, lp_terminated = False\<rparr>"

text \<open>What \<open>stop\<close> does first, and what follows the join and the close.\<close>

definition stop_first :: "loop_kind \<Rightarrow> stop_pc" where
  "stop_first k = (case k of Advertiser_loop \<Rightarrow> Stop_join | Scanner_loop \<Rightarrow> Stop_close)"

definition after_join :: "loop_kind \<Rightarrow> stop_pc" where
  "after_join k = (case k of Advertiser_loop \<Rightarrow> Stop_close | Scanner_loop \<Rightarrow> Stop_idle)"

definition after_close :: "loop_kind \<Rightarrow> stop_pc" where
  "after_close k = (case k of Advertiser_loop \<Rightarrow> Stop_idle | Scanner_loop \<Rightarrow> Stop_join)"

definition loop_running :: "loop \<Rightarrow> bool" where
  "loop_running s = (lp_state s = kRunning)"

text \<open>
  Assigning a new thread to a \<open>std::thread\<close> that is still joinable ends the program
  (\<open>Terminate\<close>). \<open>Start_busy\<close> and \<open>Stop_noop\<close> are calls that return at once.
\<close>

datatype loop_label = Start_call | Start_busy | Spawn | Terminate | Worker_begin | Worker_iter | Worker_exit
  | Start_return | Stop_call | Stop_noop | Join | Close_sock

inductive lstep :: "loop_kind \<Rightarrow> bool \<Rightarrow> loop_label \<Rightarrow> loop \<Rightarrow> loop \<Rightarrow> bool" for k par where
  start_call: "\<lbrakk>\<not> lp_terminated s; lp_start s = Start_idle; par \<or> lp_stop s = Stop_idle; lp_state s = kStopped\<rbrakk>
    \<Longrightarrow> lstep k par Start_call s (s\<lparr>lp_state := kStarting, lp_start := Start_spawn\<rparr>)"
| start_busy: "\<lbrakk>\<not> lp_terminated s; lp_start s = Start_idle; par \<or> lp_stop s = Stop_idle; lp_state s \<noteq> kStopped\<rbrakk>
    \<Longrightarrow> lstep k par Start_busy s s"
| spawn: "\<lbrakk>\<not> lp_terminated s; lp_start s = Start_spawn; lp_worker s = No_thread\<rbrakk>
    \<Longrightarrow> lstep k par Spawn s (s\<lparr>lp_worker := Spawned, lp_start := Start_wait\<rparr>)"
| spawn_joinable: "\<lbrakk>\<not> lp_terminated s; lp_start s = Start_spawn; lp_worker s \<noteq> No_thread\<rbrakk>
    \<Longrightarrow> lstep k par Terminate s (s\<lparr>lp_terminated := True\<rparr>)"
| worker_begin: "\<lbrakk>\<not> lp_terminated s; lp_worker s = Spawned\<rbrakk>
    \<Longrightarrow> lstep k par Worker_begin s (s\<lparr>lp_state := kRunning, lp_worker := Looping\<rparr>)"
| worker_iter: "\<lbrakk>\<not> lp_terminated s; lp_worker s = Looping; lp_state s = kRunning\<rbrakk> \<Longrightarrow> lstep k par Worker_iter s s"
| worker_exit: "\<lbrakk>\<not> lp_terminated s; lp_worker s = Looping; lp_state s \<noteq> kRunning\<rbrakk>
    \<Longrightarrow> lstep k par Worker_exit s (s\<lparr>lp_worker := Exited\<rparr>)"
| start_return: "\<lbrakk>\<not> lp_terminated s; lp_start s = Start_wait; lp_state s \<noteq> kStarting\<rbrakk>
    \<Longrightarrow> lstep k par Start_return s (s\<lparr>lp_start := Start_idle\<rparr>)"
| stop_call: "\<lbrakk>\<not> lp_terminated s; lp_stop s = Stop_idle; par \<or> lp_start s = Start_idle; lp_state s \<noteq> kStopped\<rbrakk>
    \<Longrightarrow> lstep k par Stop_call s (s\<lparr>lp_state := kStopped, lp_stop := stop_first k\<rparr>)"
| stop_noop: "\<lbrakk>\<not> lp_terminated s; lp_stop s = Stop_idle; par \<or> lp_start s = Start_idle; lp_state s = kStopped\<rbrakk>
    \<Longrightarrow> lstep k par Stop_noop s s"
| join: "\<lbrakk>\<not> lp_terminated s; lp_stop s = Stop_join; lp_worker s = Exited \<or> lp_worker s = No_thread\<rbrakk>
    \<Longrightarrow> lstep k par Join s (s\<lparr>lp_worker := No_thread, lp_stop := after_join k\<rparr>)"
| close_sock: "\<lbrakk>\<not> lp_terminated s; lp_stop s = Stop_close\<rbrakk>
    \<Longrightarrow> lstep k par Close_sock s (s\<lparr>lp_sock_open := False, lp_stop := after_close k\<rparr>)"

inductive_cases lstepE [elim]: "lstep k par l s s'"

inductive_simps lstep_stop_simps: "lstep k par Join s s'" "lstep k par Close_sock s s'" "lstep k par Worker_exit s s'"

text \<open>A step of any label, and runs of them.\<close>

definition lnext :: "loop_kind \<Rightarrow> bool \<Rightarrow> loop \<Rightarrow> loop \<Rightarrow> bool" where
  "lnext k par s t = (\<exists>l. lstep k par l s t)"

abbreviation lsteps :: "loop_kind \<Rightarrow> bool \<Rightarrow> loop \<Rightarrow> loop \<Rightarrow> bool" where
  "lsteps k par \<equiv> (lnext k par)\<^sup>*\<^sup>*"

lemma snoc: "lsteps k par s t \<Longrightarrow> lstep k par l t u \<Longrightarrow> lsteps k par s u"
  by (meson lnext_def rtranclp.rtrancl_into_rtrancl)

lemmas refl = rtranclp.rtrancl_refl [of "lnext k par" for k par]

definition loop_reachable :: "loop_kind \<Rightarrow> bool \<Rightarrow> loop set" where
  "loop_reachable k par = {s. lsteps k par loop_new s}"

lemmas loop_order = stop_first_def after_join_def after_close_def

section \<open>One call at a time\<close>

definition loop_inv :: "loop_kind \<Rightarrow> loop \<Rightarrow> bool" where
  "loop_inv k s = (\<not> lp_terminated s \<and> (lp_start s = Start_idle \<or> lp_stop s = Stop_idle) \<and>
     (case lp_start s of
        Start_spawn \<Rightarrow> lp_state s = kStarting \<and> lp_worker s = No_thread
      | Start_wait \<Rightarrow> (lp_state s = kStarting \<and> lp_worker s = Spawned) \<or> (lp_state s = kRunning \<and> lp_worker s = Looping)
      | Start_idle \<Rightarrow>
          (case lp_stop s of
             Stop_idle \<Rightarrow> (lp_state s = kRunning \<and> lp_worker s = Looping) \<or> (lp_state s = kStopped \<and> lp_worker s = No_thread)
           | Stop_join \<Rightarrow> lp_state s = kStopped \<and> lp_worker s \<in> {Looping, Exited} \<and> (k = Scanner_loop \<longrightarrow> \<not> lp_sock_open s)
           | Stop_close \<Rightarrow> lp_state s = kStopped \<and>
               (k = Advertiser_loop \<longrightarrow> lp_worker s = No_thread) \<and> (k = Scanner_loop \<longrightarrow> lp_worker s \<in> {Looping, Exited}))))"

lemma loop_inv_step: "lstep k False l s s' \<Longrightarrow> loop_inv k s \<Longrightarrow> loop_inv k s'"
  by (cases k; erule lstepE) (auto simp: loop_inv_def loop_order split: start_pc.splits stop_pc.splits loop_kind.splits)

lemma loop_inv_new: "loop_inv k loop_new"
  by (simp add: loop_inv_def loop_new_def)

definition stop_measure :: "loop_kind \<Rightarrow> loop \<Rightarrow> nat" where
  "stop_measure k s = (if lp_worker s = Looping then 1 else 0) +
     (if lp_stop s = stop_first k then 1 else 0)"

lemma stop_measure_step:
  "lstep k False l s t \<Longrightarrow> loop_inv k s \<Longrightarrow> lp_stop s \<noteq> Stop_idle \<Longrightarrow> lp_stop t \<noteq> Stop_idle \<Longrightarrow>
     stop_measure k t < stop_measure k s"
  by (cases k; erule lstepE)
    (auto simp: loop_inv_def loop_order stop_measure_def split: start_pc.splits stop_pc.splits loop_kind.splits)

interpretation loop_sys: ranked_system "lnext k False" loop_new "loop_inv k" "\<lambda>s. lp_stop s \<noteq> Stop_idle" "stop_measure k"
  for k
  by unfold_locales (auto simp: lnext_def intro: loop_inv_new loop_inv_step stop_measure_step)

text \<open>
  With one call at a time the protocol is right: in every state any interleaving of the
  caller and the thread can reach, the program has not been terminated, and whenever no call is
  in progress the service either runs with its thread in the loop or is stopped without a thread.
\<close>

theorem loop_sequential_safe:
  "loop_reachable k False \<subseteq> {s. \<not> lp_terminated s} \<and>
   loop_reachable k False \<inter> {s. lp_start s = Start_idle \<and> lp_stop s = Stop_idle}
     \<subseteq> {s. loop_running s \<and> lp_worker s = Looping} \<union> {s. lp_state s = kStopped \<and> lp_worker s = No_thread}"
proof -
  have "loop_inv k s" if "s \<in> loop_reachable k False" for s
    using that loop_sys.reachable_inv by (simp add: loop_reachable_def)
  note inv = this
  have "\<not> lp_terminated s" if "s \<in> loop_reachable k False" for s
    using inv [OF that] by (simp add: loop_inv_def)
  moreover have "loop_running s \<and> lp_worker s = Looping \<or> lp_state s = kStopped \<and> lp_worker s = No_thread"
    if "s \<in> loop_reachable k False" "lp_start s = Start_idle" "lp_stop s = Stop_idle" for s
    using inv [OF that(1)] that(2,3) by (simp add: loop_inv_def loop_running_def)
  ultimately show ?thesis by auto
qed

text \<open>\<open>n\<close> steps in a row after each of which \<open>stop\<close> has still not returned.\<close>

definition stopping :: "loop_kind \<Rightarrow> bool \<Rightarrow> nat \<Rightarrow> loop \<Rightarrow> bool" where
  "stopping k par = stays (lnext k par) (\<lambda>s. lp_stop s \<noteq> Stop_idle)"

text \<open>
  C36. A call of \<open>stop\<close> returns: with one call at a time, in every reachable state in which a
  call of \<open>stop\<close> is in progress some step can be taken, and no execution stays inside the call
  for more than two steps.
\<close>

theorem loop_stop_returns:
  assumes "s \<in> loop_reachable k False" "lp_stop s \<noteq> Stop_idle"
  shows "(\<exists>l s'. lstep k False l s s') \<and> {n. stopping k False n s} \<subseteq> {0..2}"
proof -
  have inv: "loop_inv k s" using assms(1) loop_sys.reachable_inv by (simp add: loop_reachable_def)
  have "stop_measure k s \<le> 2" by (simp add: stop_measure_def)
  then have "{n. stopping k False n s} \<subseteq> {0..2}" using loop_sys.stays_bound [OF _ inv] by (fastforce simp: stopping_def)
  moreover have "\<exists>l s'. lstep k False l s s'"
    using inv assms(2) lstep.worker_exit [of s k False] lstep.join [of s k False] lstep.close_sock [of s k False]
    by (cases "lp_stop s"; cases "lp_worker s") (auto simp: loop_inv_def split: start_pc.splits)
  ultimately show ?thesis by blast
qed

section \<open>A stop while a start is in progress\<close>

definition hung :: "loop_kind \<Rightarrow> loop \<Rightarrow> bool" where
  "hung k s = (\<not> lp_terminated s \<and> loop_running s \<and> lp_worker s = Looping \<and>
     (lp_stop s = Stop_join \<or> lp_stop s = stop_first k) \<and> lp_start s \<noteq> Start_spawn)"

lemma hung_step: "lstep k True l s s' \<Longrightarrow> hung k s \<Longrightarrow> hung k s'"
  by (cases k; erule lstepE) (auto simp: hung_def loop_order loop_running_def)

lemma hung_steps: "lsteps k True s t \<Longrightarrow> hung k s \<Longrightarrow> hung k t"
  by (induction rule: rtranclp_induct) (auto simp: lnext_def dest: hung_step)

text \<open>
  A \<open>stop\<close> that overtakes a \<open>start\<close> is lost: for both classes there is a reachable state
  from which, whatever happens, the call of \<open>stop\<close> never returns and the service keeps running.
  The schedule is: \<open>start\<close> has created the thread, \<open>stop\<close> resets the state, and only then the
  thread stores \<open>kRunning\<close>.
\<close>

theorem loop_stop_lost:
  "\<exists>s \<in> loop_reachable k True. lp_stop s \<noteq> Stop_idle \<and>
     {t. lsteps k True s t} \<subseteq> {t. loop_running t \<and> lp_stop t \<noteq> Stop_idle \<and> \<not> lp_terminated t}"
proof -
  let ?s1 = "loop_new\<lparr>lp_state := kStarting, lp_start := Start_spawn\<rparr>"
  let ?s2 = "?s1\<lparr>lp_worker := Spawned, lp_start := Start_wait\<rparr>"
  let ?s3 = "?s2\<lparr>lp_state := kStopped, lp_stop := stop_first k\<rparr>"
  let ?s4 = "?s3\<lparr>lp_state := kRunning, lp_worker := Looping\<rparr>"
  have "lsteps k True loop_new ?s1" by (rule snoc [OF refl start_call]) (simp_all add: loop_new_def)
  then have "lsteps k True loop_new ?s2" by (rule snoc [OF _ spawn]) (simp_all add: loop_new_def)
  then have "lsteps k True loop_new ?s3" by (rule snoc [OF _ stop_call]) (simp_all add: loop_new_def)
  then have "lsteps k True loop_new ?s4" by (rule snoc [OF _ worker_begin]) (simp_all add: loop_new_def)
  moreover have h: "hung k ?s4" by (simp add: hung_def loop_running_def loop_new_def)
  have stop: "hung k t \<Longrightarrow> loop_running t \<and> lp_stop t \<noteq> Stop_idle \<and> \<not> lp_terminated t" for t
    by (cases k) (auto simp: hung_def loop_order)
  moreover have "{t. lsteps k True ?s4 t} \<subseteq> {t. loop_running t \<and> lp_stop t \<noteq> Stop_idle \<and> \<not> lp_terminated t}"
    using hung_steps [OF _ h] stop by blast
  ultimately show ?thesis using stop [OF h] unfolding loop_reachable_def by blast
qed

theorem loop_stop_returns_witness:
  "{n. stopping Advertiser_loop False n (loop_new\<lparr>lp_worker := Looping, lp_stop := Stop_join\<rparr>)} \<subseteq> {0..2}"
proof -
  let ?k = Advertiser_loop
  let ?s1 = "loop_new\<lparr>lp_state := kStarting, lp_start := Start_spawn\<rparr>"
  let ?s2 = "?s1\<lparr>lp_worker := Spawned, lp_start := Start_wait\<rparr>"
  let ?s3 = "?s2\<lparr>lp_state := kRunning, lp_worker := Looping\<rparr>"
  let ?s4 = "?s3\<lparr>lp_start := Start_idle\<rparr>"
  let ?s5 = "?s4\<lparr>lp_state := kStopped, lp_stop := stop_first ?k\<rparr>"
  have "lsteps ?k False loop_new ?s1" by (rule snoc [OF refl start_call]) (simp_all add: loop_new_def)
  then have "lsteps ?k False loop_new ?s2" by (rule snoc [OF _ spawn]) (simp_all add: loop_new_def)
  then have "lsteps ?k False loop_new ?s3" by (rule snoc [OF _ worker_begin]) (simp_all add: loop_new_def)
  then have "lsteps ?k False loop_new ?s4" by (rule snoc [OF _ start_return]) (simp_all add: loop_new_def)
  then have "lsteps ?k False loop_new ?s5" by (rule snoc [OF _ stop_call]) (simp_all add: loop_new_def)
  moreover have "?s5 = loop_new\<lparr>lp_worker := Looping, lp_stop := Stop_join\<rparr>"
    by (simp add: loop_order loop_new_def)
  ultimately show ?thesis
    using loop_stop_returns [of "loop_new\<lparr>lp_worker := Looping, lp_stop := Stop_join\<rparr>" ?k]
    by (simp add: loop_reachable_def)
qed

end
