(* ===== verification/Inproc_Channel.thy ===== *)
theory Inproc_Channel
  imports Interfaces
begin

text \<open>
  \<open>src/ability_b/transport/channel.hpp\<close> and \<open>inproc_channel.*\<close>: messages, and the channel
  inside one process with its three priority queues. The priority of a message is the byte
  behind the enumeration, because a message that comes from a wire can hold any byte.

  A blocking \<open>recv_base\<close> releases the lock while it waits. What other threads do meanwhile is
  an argument: one list of operations for every time the waiting thread is woken. The abstract
  view of a channel is the list of waiting messages, per priority and in the order of arrival.
\<close>

section \<open>Messages\<close>

datatype TransportType = Inproc | Ipc | Tcp
datatype RecvStatus = RS_Ok | RS_Timeout | RS_Closed | RS_Error
datatype SendResult = SR_Ok | SR_Full | SR_Closed | SR_Error

type_synonym MessagePriority = byte

definition Heartbeat_prio :: MessagePriority where "Heartbeat_prio = 0"
definition Control_prio :: MessagePriority where "Control_prio = 1"
definition Data_prio :: MessagePriority where "Data_prio = 2"

record MessageFrame =
  mf_payload :: bytes
  mf_priority :: MessagePriority
  mf_seq :: u64

definition frame_default :: MessageFrame where
  "frame_default = \<lparr>mf_payload = [], mf_priority = Data_prio, mf_seq = 0\<rparr>"

text \<open>The typed wrapper: \<open>send\<close> hands the base channel a frame that does not hold the value.\<close>

definition channel_send :: "(MessageFrame \<Rightarrow> 's \<Rightarrow> SendResult \<times> 's) \<Rightarrow> 'v \<Rightarrow> MessagePriority \<Rightarrow> 's \<Rightarrow> SendResult \<times> 's" where
  "channel_send send_base v p s = send_base (frame_default\<lparr>mf_priority := p\<rparr>) s"

definition channel_recv :: "(MessageFrame \<Rightarrow> int \<Rightarrow> 's \<Rightarrow> RecvStatus \<times> MessageFrame \<times> 's) \<Rightarrow> 'v \<Rightarrow> int \<Rightarrow> 's
    \<Rightarrow> RecvStatus \<times> 'v \<times> 's" where
  "channel_recv recv_base v timeout_ms s = (case recv_base frame_default timeout_ms s of (st, _, s') \<Rightarrow> (st, v, s'))"

section \<open>The channel\<close>

record inproc =
  iq_queues :: "MessageFrame list list"
  iq_capacity :: nat
  iq_closed :: bool
  iq_next_seq :: u64

definition inproc_new :: "nat \<Rightarrow> inproc" where
  "inproc_new capacity = \<lparr>iq_queues = [[], [], []], iq_capacity = capacity, iq_closed = False, iq_next_seq = 0\<rparr>"

definition inproc_transport :: "inproc \<Rightarrow> TransportType" where
  "inproc_transport s = Inproc"

definition inproc_send :: "MessageFrame \<Rightarrow> inproc \<Rightarrow> SendResult \<times> inproc" where
  "inproc_send m s =
     (if iq_closed s then (SR_Closed, s)
      else let prio = unat (mf_priority m) in
        if prio \<ge> length (iq_queues s) then (SR_Error, s)
        else if mf_priority m \<noteq> Heartbeat_prio \<and> length (iq_queues s ! prio) \<ge> iq_capacity s then (SR_Full, s)
        else
          let m = m\<lparr>mf_seq := iq_next_seq s + 1\<rparr> in
          (SR_Ok, s\<lparr>iq_next_seq := iq_next_seq s + 1,
             iq_queues := (iq_queues s)[prio := iq_queues s ! prio @ [m]]\<rparr>))"

definition inproc_close :: "inproc \<Rightarrow> inproc" where
  "inproc_close s = s\<lparr>iq_closed := True\<rparr>"

text \<open>The first message of the first queue that has one.\<close>

fun pick_queue :: "MessageFrame list list \<Rightarrow> (MessageFrame \<times> MessageFrame list list) option" where
  "pick_queue [] = None"
| "pick_queue ([] # qs) = map_option (\<lambda>(m, qs'). (m, [] # qs')) (pick_queue qs)"
| "pick_queue ((m # q) # qs) = Some (m, q # qs)"

definition inproc_pick :: "inproc \<Rightarrow> (MessageFrame \<times> inproc) option" where
  "inproc_pick s = map_option (\<lambda>(m, qs). (m, s\<lparr>iq_queues := qs\<rparr>)) (pick_queue (iq_queues s))"

datatype env_op = Env_send MessageFrame | Env_close

fun env_step :: "env_op \<Rightarrow> inproc \<Rightarrow> inproc" where
  "env_step (Env_send m) s = snd (inproc_send m s)"
| "env_step Env_close s = inproc_close s"

text \<open>
  Waiting with the predicate \<open>closed_ || pick()\<close>, which takes the message it finds into \<open>m\<close>.
  \<open>wakes\<close> is what the other threads do before each time the predicate is evaluated again. A
  wait without a limit that is not woken any more does not return: \<open>None\<close>.
\<close>

fun inproc_wait :: "bool \<Rightarrow> env_op list list \<Rightarrow> MessageFrame \<Rightarrow> inproc \<Rightarrow> (MessageFrame \<times> inproc) option" where
  "inproc_wait forever wakes m s =
     (if iq_closed s then Some (m, s)
      else case inproc_pick s of
        Some (m', s') \<Rightarrow> Some (m', s')
      | None \<Rightarrow> (case wakes of
            [] \<Rightarrow> if forever then None else Some (m, s)
          | ops # rest \<Rightarrow> inproc_wait forever rest m (fold env_step ops s)))"

declare inproc_wait.simps [simp del]

definition inproc_recv :: "env_op list list \<Rightarrow> MessageFrame \<Rightarrow> int \<Rightarrow> inproc \<Rightarrow> (RecvStatus \<times> MessageFrame \<times> inproc) option" where
  "inproc_recv wakes m timeout_ms s =
     (case inproc_pick s of
        Some (m', s') \<Rightarrow> Some (RS_Ok, m', s')
      | None \<Rightarrow>
          if timeout_ms = 0 then Some (RS_Timeout, m, s)
          else if iq_closed s then Some (RS_Closed, m, s)
          else case inproc_wait (timeout_ms < 0) wakes m s of
            None \<Rightarrow> None
          | Some (m, s) \<Rightarrow>
              if iq_closed s \<and> list_all (\<lambda>q. q = []) (iq_queues s) then Some (RS_Closed, m, s)
              else case inproc_pick s of
                Some (m', s') \<Rightarrow> Some (RS_Ok, m', s')
              | None \<Rightarrow> Some (RS_Timeout, m, s))"

section \<open>The abstract view\<close>

text \<open>
  The invariant: three queues; each holds messages of its own priority only, numbered upwards;
  the queues of the two lower priorities are within the capacity.
\<close>

definition inproc_ok :: "inproc \<Rightarrow> bool" where
  "inproc_ok s = (case iq_queues s of
      [h, c, d] \<Rightarrow> list_all (\<lambda>m. mf_priority m = 0) h \<and> list_all (\<lambda>m. mf_priority m = 1) c \<and>
        list_all (\<lambda>m. mf_priority m = 2) d \<and> length c \<le> iq_capacity s \<and> length d \<le> iq_capacity s
    | _ \<Rightarrow> False)"

lemma inproc_ok_new: "inproc_ok (inproc_new c)"
  by (simp add: inproc_ok_def inproc_new_def)

text \<open>What waits, most urgent first.\<close>

definition waiting :: "inproc \<Rightarrow> MessageFrame list" where
  "waiting s = concat (iq_queues s)"

lemma pick_queue_some:
  "pick_queue qs = Some (m, qs') \<Longrightarrow> concat qs = m # concat qs'"
  by (induction qs arbitrary: qs' rule: pick_queue.induct) auto

lemma pick_queue_none: "pick_queue qs = None \<longleftrightarrow> concat qs = []"
  by (induction qs rule: pick_queue.induct) auto

lemma pick_none: "inproc_pick s = None \<longleftrightarrow> waiting s = []"
  by (simp add: inproc_pick_def waiting_def pick_queue_none)

lemma pick_some: "inproc_pick s = Some (m, s') \<Longrightarrow> waiting s = m # waiting s'"
  by (auto simp: inproc_pick_def waiting_def dest: pick_queue_some)

lemma three_queues:
  assumes "inproc_ok s"
  obtains h c d where "iq_queues s = [h, c, d]"
    "list_all (\<lambda>m. mf_priority m = 0) h" "list_all (\<lambda>m. mf_priority m = 1) c" "list_all (\<lambda>m. mf_priority m = 2) d"
    "length c \<le> iq_capacity s" "length d \<le> iq_capacity s"
  using assms by (auto simp: inproc_ok_def split: list.splits)

lemma prio_cases:
  fixes w :: byte
  assumes "unat w < 3"
  obtains "w = 0" | "w = 1" | "w = 2"
proof -
  from assms consider "unat w = 0" | "unat w = 1" | "unat w = 2" by linarith
  then show ?thesis using that by cases (auto simp: word_unat_eq_iff)
qed

text \<open>Sending, outcome by outcome.\<close>

lemma inproc_send_ok:
  assumes "inproc_ok s" "inproc_send m s = (r, s')"
  shows "inproc_ok s'"
proof -
  obtain h c d where q: "iq_queues s = [h, c, d]"
    "list_all (\<lambda>m. mf_priority m = 0) h" "list_all (\<lambda>m. mf_priority m = 1) c" "list_all (\<lambda>m. mf_priority m = 2) d"
    "length c \<le> iq_capacity s" "length d \<le> iq_capacity s"
    by (rule three_queues [OF assms(1)])
  show ?thesis
  proof (cases "unat (mf_priority m) < 3")
    case True
    then show ?thesis
      by (cases rule: prio_cases)
        (use assms(2) q in \<open>auto simp: inproc_send_def inproc_ok_def Let_def Heartbeat_prio_def split: if_splits\<close>)
  qed (use assms q in \<open>auto simp: inproc_send_def Let_def split: if_splits\<close>)
qed

definition of_prio :: "nat \<Rightarrow> MessageFrame list \<Rightarrow> MessageFrame list" where
  "of_prio p = filter (\<lambda>m. unat (mf_priority m) = p)"

lemma of_prio_simps [simp]:
  "of_prio p [] = []" "of_prio p (xs @ ys) = of_prio p xs @ of_prio p ys"
  "of_prio p (m # ms) = (if unat (mf_priority m) = p then m # of_prio p ms else of_prio p ms)"
  by (simp_all add: of_prio_def)

lemma of_prio_same: "list_all (\<lambda>m. mf_priority m = w) q \<Longrightarrow> of_prio p q = (if unat w = p then q else [])"
  by (induction q) auto

lemma waiting_prio:
  assumes "inproc_ok s" "p < 3"
  shows "of_prio p (waiting s) = iq_queues s ! p"
proof -
  obtain h c d where q: "iq_queues s = [h, c, d]"
    "list_all (\<lambda>m. mf_priority m = 0) h" "list_all (\<lambda>m. mf_priority m = 1) c" "list_all (\<lambda>m. mf_priority m = 2) d"
    by (rule three_queues [OF assms(1)])
  from assms(2) consider "p = 0" | "p = 1" | "p = 2" by linarith
  then show ?thesis by cases (use q in \<open>simp_all add: waiting_def of_prio_same\<close>)
qed

lemma inproc_send_waiting:
  assumes "inproc_ok s" "inproc_send m s = (r, s')"
  shows "if r = SR_Ok then iq_next_seq s' = iq_next_seq s + 1 \<and>
      of_prio p (waiting s') = of_prio p (waiting s) @ of_prio p [m\<lparr>mf_seq := iq_next_seq s + 1\<rparr>]
    else s' = s"
proof (cases "unat (mf_priority m) < 3")
  case True
  obtain h c d where q: "iq_queues s = [h, c, d]"
    "list_all (\<lambda>m. mf_priority m = 0) h" "list_all (\<lambda>m. mf_priority m = 1) c" "list_all (\<lambda>m. mf_priority m = 2) d"
    by (rule three_queues [OF assms(1)])
  from True show ?thesis
    by (cases rule: prio_cases)
      (use assms(2) q in \<open>auto simp: inproc_send_def waiting_def Let_def of_prio_same Heartbeat_prio_def split: if_splits\<close>)
next
  case False
  obtain h c d where "iq_queues s = [h, c, d]" by (rule three_queues [OF assms(1)])
  with False assms(2) show ?thesis by (auto simp: inproc_send_def Let_def split: if_splits)
qed

text \<open>Taking a message out.\<close>

lemma pick_ok:
  assumes "inproc_ok s" "inproc_pick s = Some (m, s')"
  shows "inproc_ok s' \<and> iq_next_seq s' = iq_next_seq s \<and> iq_closed s' = iq_closed s \<and>
    list_all (\<lambda>x. mf_priority m \<le> mf_priority x) (waiting s')"
proof -
  obtain h c d where q: "iq_queues s = [h, c, d]"
    "list_all (\<lambda>m. mf_priority m = 0) h" "list_all (\<lambda>m. mf_priority m = 1) c" "list_all (\<lambda>m. mf_priority m = 2) d"
    "length c \<le> iq_capacity s" "length d \<le> iq_capacity s"
    by (rule three_queues [OF assms(1)])
  have le: "(0 :: byte) \<le> x" "(1 :: byte) \<le> 2" for x by (simp_all add: word_le_nat_alt)
  show ?thesis
    by (cases h; cases c; cases d)
      (use assms(2) q le in \<open>auto simp: inproc_pick_def inproc_ok_def waiting_def list_all_iff\<close>)
qed

section \<open>Runs\<close>

text \<open>
  A run of sends, receives with any timeout, and closes, one call after the other: nothing else
  happens while a receive waits. It lists the accepted messages, as they were numbered, and the
  delivered ones, each with what was still waiting behind it. It ends at a receive that waits for
  ever.
\<close>

datatype chan_op = C_send MessageFrame | C_recv int | C_close

fun inproc_run :: "chan_op list \<Rightarrow> inproc \<Rightarrow> MessageFrame list \<times> (MessageFrame \<times> MessageFrame list) list \<times> inproc" where
  "inproc_run [] s = ([], [], s)"
| "inproc_run (C_send m # ops) s =
     (case inproc_send m s of (r, s') \<Rightarrow> case inproc_run ops s' of (ins, outs, t) \<Rightarrow>
        (if r = SR_Ok then m\<lparr>mf_seq := iq_next_seq s'\<rparr> # ins else ins, outs, t))"
| "inproc_run (C_recv timeout_ms # ops) s =
     (case inproc_recv [] frame_default timeout_ms s of
        Some (RS_Ok, m, s') \<Rightarrow> (case inproc_run ops s' of (ins, outs, t) \<Rightarrow> (ins, (m, waiting s') # outs, t))
      | Some (_, _, s') \<Rightarrow> inproc_run ops s'
      | None \<Rightarrow> ([], [], s))"
| "inproc_run (C_close # ops) s = inproc_run ops (inproc_close s)"

lemma recv_undisturbed:
  "inproc_recv [] m timeout_ms s = (case inproc_pick s of
      Some (m', s') \<Rightarrow> Some (RS_Ok, m', s')
    | None \<Rightarrow> if timeout_ms = 0 then Some (RS_Timeout, m, s) else if iq_closed s then Some (RS_Closed, m, s)
        else if timeout_ms < 0 then None else Some (RS_Timeout, m, s))"
  by (auto simp: inproc_recv_def inproc_wait.simps split: option.splits)

lemma close_keeps: "inproc_ok (inproc_close s) = inproc_ok s" "waiting (inproc_close s) = waiting s"
  "iq_next_seq (inproc_close s) = iq_next_seq s"
  by (simp_all add: inproc_close_def inproc_ok_def waiting_def split: list.splits)

lemma inproc_run_fifo:
  assumes "inproc_ok s" "inproc_run ops s = (ins, outs, t)"
  shows "inproc_ok t \<and> of_prio p (waiting s) @ of_prio p ins = of_prio p (map fst outs) @ of_prio p (waiting t) \<and>
    map mf_seq ins = map (\<lambda>n. iq_next_seq s + 1 + of_nat n) [0..<length ins] \<and>
    list_all (\<lambda>(m, w). list_all (\<lambda>x. mf_priority m \<le> mf_priority x) w) outs"
  using assms
proof (induction ops arbitrary: s ins outs)
  case (Cons op ops)
  show ?case
  proof (cases op)
    case (C_send m)
    obtain r s' where send: "inproc_send m s = (r, s')" by (cases "inproc_send m s")
    obtain ins' where run: "inproc_run ops s' = (ins', outs, t)"
      and ins: "ins = (if r = SR_Ok then m\<lparr>mf_seq := iq_next_seq s'\<rparr> # ins' else ins')"
      using Cons.prems(2) C_send send by (auto split: prod.splits)
    note ih = Cons.IH [OF inproc_send_ok [OF Cons.prems(1) send] run]
    note eff = inproc_send_waiting [OF Cons.prems(1) send, of p]
    show ?thesis
    proof (cases "r = SR_Ok")
      case True
      have "map mf_seq ins = map (\<lambda>n. iq_next_seq s + 1 + of_nat n) [0..<length ins]"
        using ih eff ins True
        by (simp add: upt_conv_Cons map_Suc_upt [symmetric] add.assoc del: upt_Suc)
      moreover have "of_prio p (waiting s') = of_prio p (waiting s) @ of_prio p [m\<lparr>mf_seq := iq_next_seq s'\<rparr>]"
        using eff True by simp
      moreover have "of_prio p ins = of_prio p [m\<lparr>mf_seq := iq_next_seq s'\<rparr>] @ of_prio p ins'"
        using ins True by simp
      ultimately show ?thesis using ih by (auto simp del: of_prio_simps(3))
    qed (use ih eff ins in simp)
  next
    case (C_recv timeout_ms)
    show ?thesis
    proof (cases "inproc_pick s")
      case None
      with C_recv Cons.prems(2) have "inproc_run ops s = (ins, outs, t) \<or> ins = [] \<and> outs = [] \<and> t = s"
        by (auto simp: recv_undisturbed split: if_splits)
      then show ?thesis using Cons.IH [OF Cons.prems(1)] Cons.prems(1) by auto
    next
      case (Some q)
      then obtain m s' where pick: "inproc_pick s = Some (m, s')" by (cases q) simp
      obtain outs' where run: "inproc_run ops s' = (ins, outs', t)" and outs: "outs = (m, waiting s') # outs'"
        using Cons.prems(2) C_recv pick by (auto simp: recv_undisturbed split: prod.splits)
      note ih = Cons.IH [OF _ run] and ok = pick_ok [OF Cons.prems(1) pick]
      then show ?thesis using pick_some [OF pick] outs by simp
    qed
  next
    case C_close
    with Cons.IH [of "inproc_close s" ins outs] Cons.prems show ?thesis by (simp add: close_keeps)
  qed
qed simp

text \<open>
  C23. The channel is a queue per priority, as long as no message arrives while a receive waits:
  for any sequence of sends, receives with any timeout and closes on a new channel, one call after
  the other, the messages of each priority are delivered in the order in which they were accepted,
  none lost, none twice; accepted messages are numbered 1, 2, 3 and so on; and a receive never
  delivers a message while a more urgent one is waiting. (What happens to a
  receive that is woken by a message is shown in the next section.)
\<close>

theorem inproc_priority_fifo:
  "case inproc_run ops (inproc_new c) of (ins, outs, t) \<Rightarrow>
     of_prio p ins = of_prio p (map fst outs) @ of_prio p (waiting t) \<and>
     map mf_seq ins = map (\<lambda>n. of_nat (n + 1)) [0..<length ins] \<and>
     list_all (\<lambda>(m, w). list_all (\<lambda>x. mf_priority m \<le> mf_priority x) w) outs"
proof -
  obtain ins outs t where run: "inproc_run ops (inproc_new c) = (ins, outs, t)"
    by (cases "inproc_run ops (inproc_new c)")
  have "waiting (inproc_new c) = []" "iq_next_seq (inproc_new c) = 0"
    by (simp_all add: waiting_def inproc_new_def)
  with inproc_run_fifo [OF inproc_ok_new run, of p] show ?thesis unfolding run by simp
qed

text \<open>Heartbeats are accepted as long as the channel is open, whatever its capacity.\<close>

lemma heartbeat_accepted:
  assumes "inproc_ok s" "\<not> iq_closed s" "mf_priority m = Heartbeat_prio"
  shows "fst (inproc_send m s) = SR_Ok"
  using assms by (auto simp: inproc_send_def Let_def Heartbeat_prio_def inproc_ok_def split: list.splits)

section \<open>Waiting\<close>

lemma env_steps_ok: "inproc_ok s \<Longrightarrow> inproc_ok (fold env_step ops s)"
proof (induction ops arbitrary: s)
  case (Cons op ops)
  have "inproc_ok (env_step op s)"
  proof (cases op)
    case (Env_send m)
    then show ?thesis using inproc_send_ok [OF Cons.prems, of m] by (cases "inproc_send m s") simp
  next
    case Env_close
    then show ?thesis using Cons.prems by (simp add: inproc_close_def inproc_ok_def split: list.splits)
  qed
  then show ?case using Cons.IH by simp
qed simp

text \<open>
  C24. A blocking receive loses a message: when it starts on an empty open channel and is woken
  by messages, it takes the first of them out twice over: the most urgent message is gone, and
  the call answers with the second one or, when there was only one, with a timeout.
\<close>

theorem inproc_blocking_recv_loses:
  assumes "\<not> iq_closed s" "waiting s = []" "timeout_ms \<noteq> 0"
    and "\<not> iq_closed (fold env_step ops s)" "waiting (fold env_step ops s) = m1 # rest"
  shows "\<exists>s'. inproc_recv (ops # wakes) m timeout_ms s =
      Some (if rest = [] then RS_Timeout else RS_Ok, hd (rest @ [m1]), s') \<and> waiting s' = tl rest"
proof -
  let ?s1 = "fold env_step ops s"
  have none: "inproc_pick s = None" using assms(2) by (simp add: pick_none)
  have "inproc_pick ?s1 \<noteq> None" using assms(5) by (simp add: pick_none)
  then obtain x s2 where p1: "inproc_pick ?s1 = Some (x, s2)" by auto
  with pick_some [OF p1] assms(5) have w: "x = m1" "waiting s2 = rest" by simp_all
  have c2: "\<not> iq_closed s2" using p1 assms(4) by (auto simp: inproc_pick_def)
  have wait: "inproc_wait (timeout_ms < 0) (ops # wakes) m s = Some (m1, s2)"
    using none p1 assms(1,4) w by (simp add: inproc_wait.simps [of _ _ m s] inproc_wait.simps [of _ wakes])
  show ?thesis
  proof (cases rest)
    case Nil
    then have "inproc_pick s2 = None" using w by (simp add: pick_none)
    then show ?thesis using none wait c2 assms(1,3) Nil w by (simp add: inproc_recv_def)
  next
    case (Cons m2 rest')
    then have "inproc_pick s2 \<noteq> None" using w by (simp add: pick_none)
    then obtain y s3 where p2: "inproc_pick s2 = Some (y, s3)" by auto
    with pick_some [OF p2] w Cons have "y = m2" "waiting s3 = rest'" by simp_all
    then show ?thesis using none wait c2 assms(1,3) Cons p2 by (simp add: inproc_recv_def)
  qed
qed

theorem inproc_blocking_recv_loses_witness:
  "\<exists>s'. inproc_recv [[Env_send \<lparr>mf_payload = [7], mf_priority = 0, mf_seq = 0\<rparr>]] frame_default 100 (inproc_new 4)
     = Some (RS_Timeout, \<lparr>mf_payload = [7], mf_priority = 0, mf_seq = 1\<rparr>, s') \<and> waiting s' = []"
proof -
  let ?f = "\<lparr>mf_payload = [7], mf_priority = 0, mf_seq = 0\<rparr>"
  have s: "snd (inproc_send ?f (inproc_new 4)) =
      (inproc_new 4)\<lparr>iq_next_seq := 1, iq_queues := [[?f\<lparr>mf_seq := 1\<rparr>], [], []]\<rparr>"
    by (simp add: inproc_send_def inproc_new_def Heartbeat_prio_def)
  show ?thesis
    using inproc_blocking_recv_loses [of "inproc_new 4" 100 "[Env_send ?f]" "?f\<lparr>mf_seq := 1\<rparr>" "[]" "[]" frame_default] s
    by (simp add: inproc_new_def waiting_def)
qed

text \<open>The typed wrapper never sends its value.\<close>

lemma channel_send_drops_value: "channel_send send_base v p s = channel_send send_base w p s"
  by (simp add: channel_send_def)

end
