(* ===== verification/Tcp_Channel.thy ===== *)
theory Tcp_Channel
  imports Inproc_Channel
begin

text \<open>
  \<open>src/ability_b/transport/tcp_channel.*\<close>: the frame codec and the channel over a ZeroMQ
  DEALER socket. What ZeroMQ answers is an argument of each operation. The codec is
  characterised completely; the channel's state keeps an invariant through every sequence of
  operations; and a frame that the network delivers arrives as it was sent.
\<close>

unbundle bit_operations_syntax

section \<open>The frame codec\<close>

text \<open>The loop that peels eight bits at a time, and the one that shifts by \<open>i * 8\<close>.\<close>

primrec peel_bytes :: "nat \<Rightarrow> u64 \<Rightarrow> bytes" where
  "peel_bytes 0 v = []"
| "peel_bytes (Suc n) v = ucast (v AND 0xFF) # peel_bytes n (drop_bit 8 v)"

definition encode_frame :: "MessageFrame \<Rightarrow> bytes" where
  "encode_frame m =
     (let plen = (of_nat (length (mf_payload m)) :: u32) in
      [mf_priority m] @ peel_bytes 8 (mf_seq m)
      @ map (\<lambda>i. ucast (drop_bit (i * 8) plen AND 0xFF)) [0..<4] @ mf_payload m)"

definition gather64 :: "nat \<Rightarrow> bytes \<Rightarrow> u64" where
  "gather64 off data = fold (\<lambda>i seq. seq OR push_bit (i * 8) (ucast (data ! (off + i)))) [0..<8] 0"

definition gather32 :: "nat \<Rightarrow> bytes \<Rightarrow> u32" where
  "gather32 off data = fold (\<lambda>i plen. plen OR push_bit (i * 8) (ucast (data ! (off + i)))) [0..<4] 0"

definition kFrameHeader :: nat where "kFrameHeader = 1 + 8 + 4"

text \<open>\<open>len - 13\<close> does not wrap: the first guard has been passed.\<close>

definition decode_frame :: "bytes \<Rightarrow> MessageFrame option" where
  "decode_frame data =
     (if length data < kFrameHeader then None
      else let plen = unat (gather32 9 data) in
        if plen > length data - kFrameHeader then None
        else Some \<lparr>mf_payload = slice 13 plen data, mf_priority = data ! 0, mf_seq = gather64 1 data\<rparr>)"

lemma mask_ff64: "(0xFF :: u64) = mask 8" and mask_ff32: "(0xFF :: u32) = mask 8"
  by (simp_all add: mask_eq_exp_minus_1)

lemma peel_bytes_nth: "i < n \<Longrightarrow> peel_bytes n v ! i = ucast (drop_bit (i * 8) v AND 0xFF)"
proof (induction n arbitrary: i v)
  case (Suc n)
  then show ?case by (cases i) (simp_all add: algebra_simps)
qed simp

lemma length_peel_bytes [simp, codec_simps]: "length (peel_bytes n v) = n"
  by (induction n arbitrary: v) simp_all

lemma bit_gather:
  fixes f :: "nat \<Rightarrow> byte" and w :: "'a::len word"
  assumes "8 * n \<le> LENGTH('a)" "k < LENGTH('a)"
  shows "bit (fold (\<lambda>i acc. acc OR push_bit (i * 8) (ucast (f i))) [0..<n] w) k
    \<longleftrightarrow> bit w k \<or> (k < 8 * n \<and> bit (f (k div 8)) (k mod 8))"
  using assms
proof (induction n)
  case (Suc n)
  let ?g = "fold (\<lambda>i acc. acc OR push_bit (i * 8) (ucast (f i))) [0..<n] w"
  have ih: "bit ?g k \<longleftrightarrow> bit w k \<or> (k < 8 * n \<and> bit (f (k div 8)) (k mod 8))" using Suc by simp
  have top: "\<not> bit (f n) (k - n * 8)" if "n * 8 + 8 \<le> k"
    using that by (auto dest: bit_imp_le_length)
  have p: "bit (push_bit (n * 8) (ucast (f n) :: 'a word)) k \<longleftrightarrow> n * 8 \<le> k \<and> bit (f n) (k - n * 8)"
    using Suc.prems by (auto simp: bit_simps)
  have split: "fold (\<lambda>i acc. acc OR push_bit (i * 8) (ucast (f i))) [0..<Suc n] w = ?g OR push_bit (n * 8) (ucast (f n))"
    by simp
  consider "k < 8 * n" | "8 * n \<le> k" "k < 8 * Suc n" | "8 * Suc n \<le> k" by linarith
  then show ?case
  proof cases
    case 1
    then show ?thesis unfolding split bit_or_iff ih p by simp
  next
    case 2
    then have "k div 8 = n" "k mod 8 = k - n * 8" by (simp_all add: div_nat_eqI minus_div_mult_eq_mod [symmetric])
    with 2 show ?thesis unfolding split bit_or_iff ih p by auto
  next
    case 3
    with top show ?thesis unfolding split bit_or_iff ih p by auto
  qed
qed simp

lemma gather64_bit: "k < 64 \<Longrightarrow> bit (gather64 off data) k \<longleftrightarrow> bit (data ! (off + k div 8)) (k mod 8)"
  unfolding gather64_def using bit_gather [of 8 k "\<lambda>i. data ! (off + i)" "0 :: u64"] by simp

lemma gather32_bit: "k < 32 \<Longrightarrow> bit (gather32 off data) k \<longleftrightarrow> bit (data ! (off + k div 8)) (k mod 8)"
  unfolding gather32_def using bit_gather [of 4 k "\<lambda>i. data ! (off + i)" "0 :: u32"] by simp

lemma gather64_of_bytes:
  assumes "\<And>i. i < 8 \<Longrightarrow> data ! (off + i) = ucast (drop_bit (i * 8) v AND 0xFF)"
  shows "gather64 off data = v"
proof (rule bit_word_eqI)
  fix k assume k: "k < LENGTH(64)"
  then have "bit (gather64 off data) k \<longleftrightarrow> bit (drop_bit (k div 8 * 8) v AND 0xFF) (k mod 8)"
    using assms [of "k div 8"] by (simp add: gather64_bit bit_simps)
  also have "\<dots> \<longleftrightarrow> bit v k"
    using mod_less_divisor [of 8 k] by (simp add: mask_ff64 bit_simps del: mod_less_divisor)
  finally show "bit (gather64 off data) k \<longleftrightarrow> bit v k" .
qed

lemma gather32_of_bytes:
  assumes "\<And>i. i < 4 \<Longrightarrow> data ! (off + i) = ucast (drop_bit (i * 8) v AND 0xFF)"
  shows "gather32 off data = v"
proof (rule bit_word_eqI)
  fix k assume k: "k < LENGTH(32)"
  then have "bit (gather32 off data) k \<longleftrightarrow> bit (drop_bit (k div 8 * 8) v AND 0xFF) (k mod 8)"
    using assms [of "k div 8"] by (simp add: gather32_bit bit_simps)
  also have "\<dots> \<longleftrightarrow> bit v k"
    using mod_less_divisor [of 8 k] by (simp add: mask_ff32 bit_simps del: mod_less_divisor)
  finally show "bit (gather32 off data) k \<longleftrightarrow> bit v k" .
qed

lemma byte_of_gather64: "i < 8 \<Longrightarrow> ucast (drop_bit (i * 8) (gather64 off data) AND 0xFF) = data ! (off + i)"
  by (rule bit_word_eqI) (auto simp: mask_ff64 bit_simps gather64_bit)

lemma byte_of_gather32: "i < 4 \<Longrightarrow> ucast (drop_bit (i * 8) (gather32 off data) AND 0xFF) = data ! (off + i)"
  by (rule bit_word_eqI) (auto simp: mask_ff32 bit_simps gather32_bit)

definition len_bytes :: "u32 \<Rightarrow> bytes" where
  "len_bytes plen = map (\<lambda>i. ucast (drop_bit (i * 8) plen AND 0xFF)) [0..<4]"

lemma len_bytes_nth: "length (len_bytes plen) = 4" "j < 4 \<Longrightarrow> len_bytes plen ! j = ucast (drop_bit (j * 8) plen AND 0xFF)"
  by (simp_all add: len_bytes_def)

lemma encode_frame_parts:
  "encode_frame m = [mf_priority m] @ peel_bytes 8 (mf_seq m) @ len_bytes (of_nat (length (mf_payload m))) @ mf_payload m"
  by (simp add: encode_frame_def len_bytes_def Let_def)

lemma encode_frame_nth:
  "encode_frame m ! 0 = mf_priority m"
  "j < 8 \<Longrightarrow> encode_frame m ! (1 + j) = ucast (drop_bit (j * 8) (mf_seq m) AND 0xFF)"
  "j < 4 \<Longrightarrow> encode_frame m ! (9 + j) = ucast (drop_bit (j * 8) (of_nat (length (mf_payload m)) :: u32) AND 0xFF)"
  "encode_frame m ! (13 + j) = mf_payload m ! j"
proof -
  show "encode_frame m ! 0 = mf_priority m" by (simp add: encode_frame_parts)
  show "j < 8 \<Longrightarrow> encode_frame m ! (1 + j) = ucast (drop_bit (j * 8) (mf_seq m) AND 0xFF)"
    by (simp add: encode_frame_parts nth_append peel_bytes_nth del: peel_bytes.simps)
  have "encode_frame m ! (9 + k) = (len_bytes (of_nat (length (mf_payload m))) @ mf_payload m) ! k" for k
    using nth_append_length_plus [of "[mf_priority m] @ peel_bytes 8 (mf_seq m)" "len_bytes (of_nat (length (mf_payload m))) @ mf_payload m" k]
    by (simp add: encode_frame_parts)
  note this [of j] this [of "4 + j"]
  then show "j < 4 \<Longrightarrow> encode_frame m ! (9 + j) = ucast (drop_bit (j * 8) (of_nat (length (mf_payload m)) :: u32) AND 0xFF)"
    "encode_frame m ! (13 + j) = mf_payload m ! j"
    by (simp_all add: nth_append len_bytes_nth)
qed

lemma length_encode_frame: "length (encode_frame m) = 13 + length (mf_payload m)"
  by (simp add: encode_frame_parts len_bytes_nth)

lemma encode_prefix:
  assumes "13 + unat (gather32 9 data) \<le> length data"
    and "m = \<lparr>mf_payload = slice 13 (unat (gather32 9 data)) data, mf_priority = data ! 0, mf_seq = gather64 1 data\<rparr>"
  shows "encode_frame m = take (13 + unat (gather32 9 data)) data"
proof (rule nth_equalityI)
  let ?plen = "unat (gather32 9 data)"
  have pl: "length (mf_payload m) = ?plen" using assms by simp
  then show "length (encode_frame m) = length (take (13 + ?plen) data)"
    using assms(1) by (simp add: length_encode_frame)
  fix i assume "i < length (encode_frame m)"
  then have i: "i < 13 + ?plen" by (simp add: length_encode_frame pl)
  have t: "take (13 + ?plen) data ! i = data ! i" using i by simp
  consider "i = 0" | j where "i = 1 + j" "j < 8" | j where "i = 9 + j" "j < 4" | j where "i = 13 + j" "j < ?plen"
  proof -
    from i consider "i = 0" | "1 \<le> i" "i < 9" | "9 \<le> i" "i < 13" | "13 \<le> i" by linarith
    then show ?thesis
      by cases (use i that(1) that(2) [of "i - 1"] that(3) [of "i - 9"] that(4) [of "i - 13"] in auto)
  qed
  then show "encode_frame m ! i = take (13 + ?plen) data ! i"
  proof cases
    case (2 j)
    then show ?thesis unfolding t by (simp only: encode_frame_nth) (simp add: assms(2) byte_of_gather64 [of j 1 data, simplified])
  next
    case (3 j)
    then show ?thesis unfolding t by (simp only: encode_frame_nth pl) (simp add: byte_of_gather32)
  next
    case (4 j)
    then show ?thesis unfolding t using assms by (simp only: encode_frame_nth) (simp add: nth_slice)
  qed (simp add: encode_frame_nth assms(2) i)
qed

lemma decode_encode:
  assumes "length (mf_payload m) < 2 ^ 32"
  shows "decode_frame (encode_frame m @ rest) = Some m"
proof -
  let ?data = "encode_frame m @ rest" and ?n = "length (mf_payload m)"
  have nth: "?data ! i = encode_frame m ! i" if "i < 13" for i
    using that by (simp add: nth_append length_encode_frame)
  have seq: "gather64 1 ?data = mf_seq m"
    by (rule gather64_of_bytes) (simp add: nth encode_frame_nth [unfolded One_nat_def plus_nat.simps])
  have plen: "gather32 9 ?data = of_nat ?n"
    by (rule gather32_of_bytes) (simp add: nth encode_frame_nth)
  have "drop 13 ?data = mf_payload m @ rest" by (simp add: encode_frame_parts len_bytes_nth)
  then have "slice 13 ?n ?data = mf_payload m" by (simp add: slice_def)
  moreover have "?data ! 0 = mf_priority m" using nth [of 0] encode_frame_nth(1) by simp
  ultimately show ?thesis
    using assms seq plen by (simp add: decode_frame_def kFrameHeader_def Let_def unat_of_nat length_encode_frame)
qed

lemma decode_sound:
  assumes "decode_frame data = Some m"
  shows "data = encode_frame m @ drop (length (encode_frame m)) data \<and> length (mf_payload m) < 2 ^ 32"
proof -
  let ?plen = "unat (gather32 9 data)"
  from assms have len: "13 + ?plen \<le> length data"
    and m: "m = \<lparr>mf_payload = slice 13 ?plen data, mf_priority = data ! 0, mf_seq = gather64 1 data\<rparr>"
    by (auto simp: decode_frame_def kFrameHeader_def Let_def split: if_splits)
  have "length (mf_payload m) = ?plen" using len m by simp
  moreover have "?plen < 2 ^ 32" using unsigned_less [of "gather32 9 data", where ?'a = nat] by simp
  ultimately show ?thesis using encode_prefix [OF len m] length_encode_frame [of m]
    by (metis append_take_drop_id)
qed

text \<open>
  C27. The decoder accepts exactly the encodings: a byte string decodes to a message if and only
  if it is that message's encoding followed by any bytes, and the payload's length fits the
  32-bit field. So decoding undoes encoding, and nothing else is ever accepted.
\<close>

theorem decode_frame_iff:
  "decode_frame data = Some m \<longleftrightarrow>
    (\<exists>rest. data = encode_frame m @ rest) \<and> length (mf_payload m) < 2 ^ 32"
  using decode_sound [of data m] decode_encode [of m] by blast

section \<open>The channel\<close>

record TcpChannelConfig =
  tcf_connect_uri :: string
  tcf_connect_timeout :: int
  tcf_reconnect_backoff_init :: int
  tcf_reconnect_backoff_max :: int
  tcf_io_timeout :: int
  tcf_send_hwm :: int
  tcf_recv_hwm :: int

record tcp =
  tc_cfg :: TcpChannelConfig
  tc_context :: bool
  tc_socket :: bool
  tc_rcvtimeo :: int
  tc_connected :: bool
  tc_closed :: bool
  tc_next_seq :: u64
  tc_last_error :: ErrorCode

definition ms_to_zmq_timeout :: "int \<Rightarrow> int" where
  "ms_to_zmq_timeout ms = (if ms < 0 then - 1 else ms)"

text \<open>
  \<open>zmq_ok\<close> is whether \<open>zmq_connect\<close> accepts the URI; \<open>ctx_ok\<close> and \<open>socket_ok\<close>, whether the context and
  the socket can be made. The configured timeout is a 64-bit count of milliseconds, converted to
  \<open>int\<close>; the timeout of a receive is an \<open>int\<close> already.
\<close>

definition tcp_connect :: "bool \<Rightarrow> tcp \<Rightarrow> bool \<times> tcp" where
  "tcp_connect zmq_ok s =
     (if tc_closed s then (False, s\<lparr>tc_last_error := EC_INVALID_ARG\<rparr>)
      else if \<not> tc_socket s then (False, s\<lparr>tc_last_error := EC_INTERNAL\<rparr>)
      else if \<not> zmq_ok then (False, s\<lparr>tc_last_error := EC_NET_CONNECTION_REFUSED\<rparr>)
      else (True, s\<lparr>tc_connected := True, tc_last_error := EC_OK\<rparr>))"

definition tcp_new :: "bool \<Rightarrow> bool \<Rightarrow> bool \<Rightarrow> TcpChannelConfig \<Rightarrow> bool \<Rightarrow> tcp" where
  "tcp_new ctx_ok socket_ok zmq_ok cfg auto_connect =
     (let s = \<lparr>tc_cfg = cfg, tc_context = ctx_ok, tc_socket = False, tc_rcvtimeo = - 1, tc_connected = False,
        tc_closed = False, tc_next_seq = 0, tc_last_error = EC_OK\<rparr> in
      if \<not> ctx_ok then s\<lparr>tc_last_error := EC_INTERNAL\<rparr>
      else if \<not> socket_ok then s\<lparr>tc_last_error := EC_INTERNAL\<rparr>
      else
        let s = s\<lparr>tc_socket := True, tc_rcvtimeo := ms_to_zmq_timeout (c_int (tcf_io_timeout cfg))\<rparr> in
        if auto_connect then snd (tcp_connect zmq_ok s) else s)"

definition close_socket_locked :: "tcp \<Rightarrow> tcp" where
  "close_socket_locked s = s\<lparr>tc_connected := False, tc_socket := False\<rparr>"

definition tcp_close :: "tcp \<Rightarrow> tcp" where
  "tcp_close s = (if tc_closed s then s else close_socket_locked (s\<lparr>tc_closed := True\<rparr>))"

definition is_connected :: "tcp \<Rightarrow> bool" where
  "is_connected s = tc_connected s"

definition last_error :: "tcp \<Rightarrow> ErrorCode" where
  "last_error s = tc_last_error s"

definition tcp_endpoint :: "tcp \<Rightarrow> string" where
  "tcp_endpoint s = tcf_connect_uri (tc_cfg s)"

definition tcp_transport :: "tcp \<Rightarrow> TransportType" where
  "tcp_transport s = Tcp"

text \<open>How \<open>zmq_msg_send\<close> ends: the error numbers the code tells apart.\<close>

datatype zmq_send_ret = Zs_sent | Zs_eagain | Zs_ehostunreach | Zs_econnrefused | Zs_enetunreach | Zs_other

text \<open>The second component is the message handed to ZeroMQ and whether it was sent with \<open>ZMQ_DONTWAIT\<close>.\<close>

definition tcp_send :: "zmq_send_ret \<Rightarrow> MessageFrame \<Rightarrow> tcp \<Rightarrow> SendResult \<times> (bytes \<times> bool) option \<times> tcp" where
  "tcp_send zmq m s =
     (if tc_closed s then (SR_Closed, None, s)
      else if \<not> tc_socket s then (SR_Error, None, s)
      else
        let m = m\<lparr>mf_seq := tc_next_seq s + 1\<rparr>;
            s = s\<lparr>tc_next_seq := tc_next_seq s + 1\<rparr>;
            out = Some (encode_frame m, mf_priority m = Heartbeat_prio) in
        if zmq = Zs_eagain then (SR_Full, out, s\<lparr>tc_last_error := EC_NET_TIMEOUT\<rparr>)
        else if zmq = Zs_ehostunreach \<or> zmq = Zs_econnrefused \<or> zmq = Zs_enetunreach
        then (SR_Error, out, s\<lparr>tc_last_error := EC_NET_CONNECTION_REFUSED, tc_connected := False\<rparr>)
        else if zmq = Zs_other then (SR_Error, out, s\<lparr>tc_last_error := EC_INTERNAL\<rparr>)
        else (SR_Ok, out, s\<lparr>tc_last_error := EC_OK\<rparr>))"

datatype zmq_recv_ret = Zr_message bytes | Zr_eagain | Zr_ehostunreach | Zr_econnrefused | Zr_other

text \<open>
  The receive timeout of the socket is overwritten for the call and restored on every way out;
  \<open>timeo\<close> is the timeout in force while the call waits. A frame that does not decode leaves
  what the decoder had already stored in \<open>m\<close>: the priority and the number, if the header is
  complete.
\<close>

definition decode_into :: "bytes \<Rightarrow> MessageFrame \<Rightarrow> bool \<times> MessageFrame" where
  "decode_into data m = (case decode_frame data of
      Some m' \<Rightarrow> (True, m')
    | None \<Rightarrow> (False, if length data < kFrameHeader then m
        else m\<lparr>mf_priority := data ! 0, mf_seq := gather64 1 data\<rparr>))"

definition tcp_recv :: "(int \<Rightarrow> zmq_recv_ret) \<Rightarrow> MessageFrame \<Rightarrow> int \<Rightarrow> tcp \<Rightarrow> RecvStatus \<times> MessageFrame \<times> tcp" where
  "tcp_recv zmq m timeout_ms s =
     (if tc_closed s then (RS_Closed, m, s)
      else if \<not> tc_socket s then (RS_Error, m, s)
      else
        let old_to = tc_rcvtimeo s;
            s = s\<lparr>tc_rcvtimeo := ms_to_zmq_timeout timeout_ms\<rparr>;
            ret = zmq (tc_rcvtimeo s);
            s = s\<lparr>tc_rcvtimeo := old_to\<rparr> in
        case ret of
          Zr_eagain \<Rightarrow> (RS_Timeout, m, s\<lparr>tc_last_error := EC_NET_TIMEOUT\<rparr>)
        | Zr_ehostunreach \<Rightarrow> (RS_Error, m, s\<lparr>tc_last_error := EC_NET_CONNECTION_REFUSED\<rparr>)
        | Zr_econnrefused \<Rightarrow> (RS_Error, m, s\<lparr>tc_last_error := EC_NET_CONNECTION_REFUSED\<rparr>)
        | Zr_other \<Rightarrow> (RS_Error, m, s\<lparr>tc_last_error := EC_INTERNAL\<rparr>)
        | Zr_message buf \<Rightarrow>
            (case decode_into buf m of
               (False, m) \<Rightarrow> (RS_Error, m, s\<lparr>tc_last_error := EC_PROTOCOL_TRUNCATED_BUFFER\<rparr>)
             | (True, m) \<Rightarrow> (RS_Ok, m, s\<lparr>tc_last_error := EC_OK\<rparr>)))"

section \<open>Operations in sequence\<close>

datatype tcp_op = T_connect bool | T_send zmq_send_ret MessageFrame | T_recv zmq_recv_ret int | T_close

fun tcp_step :: "tcp_op \<Rightarrow> tcp \<Rightarrow> tcp" where
  "tcp_step (T_connect ok) s = snd (tcp_connect ok s)"
| "tcp_step (T_send z m) s = snd (snd (tcp_send z m s))"
| "tcp_step (T_recv z t) s = snd (snd (tcp_recv (\<lambda>_. z) frame_default t s))"
| "tcp_step T_close s = tcp_close s"

text \<open>
  The invariant: connected only with an open socket, an open socket only in a context and
  before the close.
\<close>

definition tcp_ok :: "tcp \<Rightarrow> bool" where
  "tcp_ok s = ((tc_connected s \<longrightarrow> tc_socket s) \<and> (tc_socket s \<longrightarrow> tc_context s \<and> \<not> tc_closed s))"

lemma tcp_ok_new: "tcp_ok (tcp_new c so z cfg a)"
  by (simp add: tcp_ok_def tcp_new_def tcp_connect_def Let_def)

lemma tcp_step_ok: "tcp_ok s \<Longrightarrow> tcp_ok (tcp_step l s)"
  by (cases l)
    (auto simp: tcp_ok_def tcp_connect_def tcp_send_def tcp_recv_def tcp_close_def close_socket_locked_def Let_def
      split: zmq_recv_ret.splits prod.splits bool.splits)

lemma tcp_step_frame [frame_simps]:
  "tc_rcvtimeo (tcp_step l s) = tc_rcvtimeo s" "tc_cfg (tcp_step l s) = tc_cfg s"
  "tc_closed (tcp_step l s) = (tc_closed s \<or> l = T_close)"
  by (cases l;
      auto simp: tcp_connect_def tcp_send_def tcp_recv_def tcp_close_def close_socket_locked_def Let_def
        split: zmq_recv_ret.splits prod.splits bool.splits)+

interpretation tcp_sys: guarded_system tcp_ok tcp_step
  by unfold_locales (rule tcp_step_ok)

lemma tcp_run_no_socket: "\<not> tc_socket s \<Longrightarrow> \<not> tc_socket (fold tcp_step ops s)"
proof (induction ops arbitrary: s)
  case (Cons l ops)
  have "\<not> tc_socket (tcp_step l s)"
    using Cons.prems by (cases l) (simp_all add: tcp_connect_def tcp_send_def tcp_recv_def tcp_close_def close_socket_locked_def)
  then show ?case using Cons.IH by simp
qed simp

lemma tcp_run_frame:
  "tc_rcvtimeo (fold tcp_step ops s) = tc_rcvtimeo s \<and> tc_closed (fold tcp_step ops s) = (tc_closed s \<or> T_close \<in> set ops)"
  by (induction ops arbitrary: s) (auto simp: frame_simps)

text \<open>
  C25. The state of the channel is consistent through every sequence of calls, whether or not the
  context and the socket could be made and however ZeroMQ ends the connecting, sending and
  receiving: the channel is connected only while its socket is open; between calls the socket's own
  receive timeout is what the configured number of milliseconds is as an \<open>int\<close>, or, if creation
  failed, there never is a socket; and after a \<open>close\<close>, whatever is called next, the channel stays
  unconnected and every send and receive is answered with Closed.
\<close>

theorem tcp_channel_consistent:
  "let s = fold tcp_step ops (tcp_new ctx_ok socket_ok z cfg a); s' = fold tcp_step ops' (tcp_close s) in
     tcp_ok s \<and> (if ctx_ok \<and> socket_ok then tc_rcvtimeo s = ms_to_zmq_timeout (c_int (tcf_io_timeout cfg)) else \<not> tc_socket s) \<and>
     \<not> is_connected s' \<and> tcp_send zs m s' = (SR_Closed, None, s') \<and> tcp_recv zr m t s' = (RS_Closed, m, s')"
proof -
  let ?s = "fold tcp_step ops (tcp_new ctx_ok socket_ok z cfg a)" and ?s' = "fold tcp_step ops' \<circ> tcp_close"
  have ok: "tcp_ok ?s" by (rule tcp_sys.fold_ok [OF tcp_ok_new])
  then have ok': "tcp_ok (?s' ?s)" using tcp_sys.fold_ok [OF tcp_step_ok [of ?s T_close]] by simp
  have "if ctx_ok \<and> socket_ok then tc_rcvtimeo ?s = ms_to_zmq_timeout (c_int (tcf_io_timeout cfg)) else \<not> tc_socket ?s"
    by (auto simp: tcp_run_frame tcp_new_def tcp_connect_def Let_def tcp_run_no_socket)
  moreover have "tc_closed (?s' ?s)"
    by (simp add: tcp_run_frame tcp_close_def close_socket_locked_def)
  moreover from this have "\<not> is_connected (?s' ?s)" using ok' by (auto simp: tcp_ok_def is_connected_def)
  ultimately show ?thesis using ok by (simp add: tcp_send_def tcp_recv_def Let_def)
qed

text \<open>A timeout of \<open>2 ^ 31\<close> milliseconds or more does not survive the conversion: some become endless.\<close>

lemma long_timeout_endless: "tc_rcvtimeo (tcp_new True True z (cfg\<lparr>tcf_io_timeout := 2 ^ 31\<rparr>) a) = - 1"
  by (simp add: tcp_new_def tcp_connect_def ms_to_zmq_timeout_def Let_def c_int_def)

text \<open>
  A message that the network delivers arrives as it was sent: if the bytes one channel hands
  to ZeroMQ are what the other gets, the receiver answers Ok with the payload and the priority
  of the message and the number the sender counted, in whatever variable it was asked to use.
\<close>

theorem tcp_delivery:
  assumes "tcp_send z m s = (r, Some (data, nowait), s')" "length (mf_payload m) < 2 ^ 32"
    and "tc_socket t" "\<not> tc_closed t"
  shows "\<exists>t'. tcp_recv (\<lambda>_. Zr_message data) m' timeout t = (RS_Ok, m\<lparr>mf_seq := tc_next_seq s + 1\<rparr>, t') \<and>
    tc_next_seq s' = tc_next_seq s + 1 \<and> nowait = (mf_priority m = Heartbeat_prio)"
proof -
  from assms(1) have d: "data = encode_frame (m\<lparr>mf_seq := tc_next_seq s + 1\<rparr>)" "nowait = (mf_priority m = Heartbeat_prio)"
    "tc_next_seq s' = tc_next_seq s + 1"
    by (auto simp: tcp_send_def Let_def split: if_splits)
  have "decode_frame data = Some (m\<lparr>mf_seq := tc_next_seq s + 1\<rparr>)"
    using decode_encode [of "m\<lparr>mf_seq := tc_next_seq s + 1\<rparr>" "[]"] assms(2) d(1) by simp
  with assms(3,4) d(2,3) show ?thesis by (simp add: tcp_recv_def decode_into_def Let_def)
qed

definition sample_tcp_cfg :: TcpChannelConfig where
  "sample_tcp_cfg = \<lparr>tcf_connect_uri = ''tcp://127.0.0.1:5555'', tcf_connect_timeout = 5000,
     tcf_reconnect_backoff_init = 100, tcf_reconnect_backoff_max = 30000, tcf_io_timeout = 5000,
     tcf_send_hwm = 1000, tcf_recv_hwm = 1000\<rparr>"

theorem tcp_delivery_witness:
  "\<exists>t'. tcp_recv (\<lambda>_. Zr_message (encode_frame \<lparr>mf_payload = [5, 6], mf_priority = 1, mf_seq = 1\<rparr>)) frame_default 10
     (tcp_new True True True sample_tcp_cfg True) = (RS_Ok, \<lparr>mf_payload = [5, 6], mf_priority = 1, mf_seq = 1\<rparr>, t')"
proof -
  let ?s = "tcp_new True True True sample_tcp_cfg True"
  let ?m = "\<lparr>mf_payload = [5, 6], mf_priority = 1, mf_seq = 0\<rparr>"
  have "tcp_send Zs_sent ?m ?s = (SR_Ok, Some (encode_frame (?m\<lparr>mf_seq := 1\<rparr>), False), ?s\<lparr>tc_next_seq := 1\<rparr>)"
    by (simp add: tcp_send_def tcp_new_def tcp_connect_def Heartbeat_prio_def Let_def)
  from tcp_delivery [OF this, of ?s frame_default 10] show ?thesis
    by (simp add: tcp_new_def tcp_connect_def)
qed

end
