(* ===== verification/Tcp_Threads.thy ===== *)
theory Tcp_Threads
  imports Tcp_Channel Step_Systems
begin

text \<open>
  \<open>connect\<close>, \<open>send_base\<close>, \<open>recv_base\<close> and \<open>close\<close> of
  \<open>src/ability_b/transport/tcp_channel.cpp\<close>, called from any number of threads. \<open>connect\<close> and
  \<open>close\<close> take the mutex, \<open>send_base\<close> and \<open>recv_base\<close> do not: they test \<open>closed_\<close>, then the socket
  pointer, and for every call of ZeroMQ read the pointer once more and are inside it until it
  returns. A step is one of these accesses. What ZeroMQ demands: a socket is not closed while a
  call on it is in progress, and no call begins on a closed socket; a null pointer it answers with
  an error. With \<open>par = False\<close> a call begins only when no other is in progress.

  Shown: in any interleaving the socket is closed exactly once and the channel is not connected
  afterwards; one call at a time keeps to ZeroMQ's rules; a \<open>close\<close> beside a send does not.
\<close>

section \<open>Steps\<close>

text \<open>
  Where a caller is. \<open>K_open\<close>, \<open>K_checked\<close>, \<open>K_loaded p\<close>, \<open>K_inside\<close>: sending or receiving, after the
  first test, the second test, the read of the pointer, in ZeroMQ. \<open>K_conn_open\<close> to
  \<open>K_conn_locked\<close>: in \<open>connect\<close>. \<open>K_close\<close> to \<open>K_close_freed\<close>: in \<open>close\<close>, after \<open>closed_\<close> is set, with the
  mutex, and after \<open>zmq_close\<close> with the pointer still in place.
\<close>

datatype tcp_pc = K_rest | K_open | K_checked | K_loaded bool | K_inside
  | K_conn_open | K_conn_checked | K_conn_locked | K_close | K_close_locked | K_close_freed

record tcp_threads =
  tt_closed :: bool
  tt_connected :: bool
  tt_ptr :: bool
  tt_lock :: "nat option"
  tt_pc :: "nat \<Rightarrow> tcp_pc"
  tt_zmq_closed :: nat
  tt_misuse :: bool

definition tt_new :: "bool \<Rightarrow> tcp_threads" where
  "tt_new connected = \<lparr>tt_closed = False, tt_connected = connected, tt_ptr = True, tt_lock = None, tt_pc = (\<lambda>_. K_rest),
     tt_zmq_closed = 0, tt_misuse = False\<rparr>"

definition tt_goto :: "nat \<Rightarrow> tcp_pc \<Rightarrow> tcp_threads \<Rightarrow> tcp_threads" where
  "tt_goto c p s = s\<lparr>tt_pc := (tt_pc s)(c := p)\<rparr>"

definition tt_free :: "bool \<Rightarrow> nat \<Rightarrow> tcp_threads \<Rightarrow> bool" where
  "tt_free par c s = (tt_pc s c = K_rest \<and> (par \<or> tt_pc s = (\<lambda>_. K_rest)))"

inductive tstep :: "bool \<Rightarrow> tcp_threads \<Rightarrow> tcp_threads \<Rightarrow> bool" for par where
  io_open: "\<lbrakk>tt_free par c s; \<not> tt_closed s\<rbrakk> \<Longrightarrow> tstep par s (tt_goto c K_open s)"
| io_check: "tt_pc s c = K_open \<Longrightarrow> tstep par s (tt_goto c (if tt_ptr s then K_checked else K_rest) s)"
| io_load: "tt_pc s c = K_checked \<Longrightarrow> tstep par s (tt_goto c (K_loaded (tt_ptr s)) s)"
| io_null: "tt_pc s c = K_loaded False \<Longrightarrow> tstep par s (tt_goto c K_rest s)"
| io_begin: "tt_pc s c = K_loaded True \<Longrightarrow>
    tstep par s (tt_goto c K_inside (s\<lparr>tt_misuse := tt_misuse s \<or> 0 < tt_zmq_closed s\<rparr>))"
| io_more: "tt_pc s c = K_inside \<Longrightarrow> tstep par s (tt_goto c K_checked s)"
| io_end: "tt_pc s c = K_inside \<Longrightarrow> tstep par s (tt_goto c K_rest (s\<lparr>tt_connected := tt_connected s \<and> \<not> refused\<rparr>))"
| conn_open: "\<lbrakk>tt_free par c s; \<not> tt_closed s\<rbrakk> \<Longrightarrow> tstep par s (tt_goto c K_conn_open s)"
| conn_check: "tt_pc s c = K_conn_open \<Longrightarrow> tstep par s (tt_goto c (if tt_ptr s then K_conn_checked else K_rest) s)"
| conn_lock: "\<lbrakk>tt_pc s c = K_conn_checked; tt_lock s = None\<rbrakk> \<Longrightarrow> tstep par s (tt_goto c K_conn_locked (s\<lparr>tt_lock := Some c\<rparr>))"
| conn_call: "tt_pc s c = K_conn_locked \<Longrightarrow>
    tstep par s (tt_goto c K_rest (s\<lparr>tt_lock := None, tt_connected := tt_connected s \<or> (tt_ptr s \<and> uri_ok)\<rparr>))"
| close_call: "\<lbrakk>tt_free par c s; \<not> tt_closed s\<rbrakk> \<Longrightarrow> tstep par s (tt_goto c K_close (s\<lparr>tt_closed := True\<rparr>))"
| close_lock: "\<lbrakk>tt_pc s c = K_close; tt_lock s = None\<rbrakk> \<Longrightarrow> tstep par s (tt_goto c K_close_locked (s\<lparr>tt_lock := Some c\<rparr>))"
| close_zmq: "tt_pc s c = K_close_locked \<Longrightarrow>
    tstep par s (tt_goto c K_close_freed (s\<lparr>tt_connected := False, tt_zmq_closed := tt_zmq_closed s + (if tt_ptr s then 1 else 0),
      tt_misuse := tt_misuse s \<or> (\<exists>d. tt_pc s d = K_inside)\<rparr>))"
| close_null: "tt_pc s c = K_close_freed \<Longrightarrow> tstep par s (tt_goto c K_rest (s\<lparr>tt_ptr := False, tt_lock := None\<rparr>))"

definition tcp_reachable :: "bool \<Rightarrow> bool \<Rightarrow> tcp_threads set" where
  "tcp_reachable par connected = {s. (tstep par)\<^sup>*\<^sup>* (tt_new connected) s}"

section \<open>Every interleaving\<close>

fun in_close :: "tcp_pc \<Rightarrow> bool" where
  "in_close p = (p = K_close \<or> p = K_close_locked \<or> p = K_close_freed)"

fun holds_lock :: "tcp_pc \<Rightarrow> bool" where
  "holds_lock p = (p = K_conn_locked \<or> p = K_close_locked \<or> p = K_close_freed)"

text \<open>The mutex is held by whom it says, and at most one caller has got past the test in \<open>close\<close>.\<close>

definition tt_excl :: "tcp_threads \<Rightarrow> bool" where
  "tt_excl s = ((\<forall>c. holds_lock (tt_pc s c) = (tt_lock s = Some c)) \<and>
     (\<forall>c d. in_close (tt_pc s c) \<longrightarrow> in_close (tt_pc s d) \<longrightarrow> c = d))"

text \<open>The socket: open; closed with the pointer still there, by the one who holds the mutex; gone.\<close>

definition tt_life :: "tcp_threads \<Rightarrow> bool" where
  "tt_life s = ((tt_zmq_closed s = 0 \<and> tt_ptr s \<and> (\<forall>c. tt_pc s c \<noteq> K_close_freed) \<and> tt_closed s = (\<exists>c. in_close (tt_pc s c))) \<or>
     (tt_zmq_closed s = 1 \<and> tt_closed s \<and> \<not> tt_connected s \<and>
       (if tt_ptr s then \<exists>c. tt_pc s c = K_close_freed else \<forall>c. \<not> in_close (tt_pc s c))))"

definition tt_inv :: "tcp_threads \<Rightarrow> bool" where
  "tt_inv s = (tt_excl s \<and> tt_life s)"

lemma tt_goto_fields [simp]:
  "tt_closed (tt_goto c p s) = tt_closed s" "tt_connected (tt_goto c p s) = tt_connected s" "tt_ptr (tt_goto c p s) = tt_ptr s"
  "tt_lock (tt_goto c p s) = tt_lock s" "tt_zmq_closed (tt_goto c p s) = tt_zmq_closed s"
  "tt_misuse (tt_goto c p s) = tt_misuse s" "tt_pc (tt_goto c p s) = (tt_pc s)(c := p)"
  by (simp_all add: tt_goto_def)

lemma tt_excl_keep:
  assumes "tt_excl s" "tt_lock t = tt_lock s" "tt_pc t = (tt_pc s)(c := p)"
    and "holds_lock p = holds_lock (tt_pc s c)" "in_close p \<Longrightarrow> in_close (tt_pc s c)"
  shows "tt_excl t"
  using assms unfolding tt_excl_def by (simp only: fun_upd_apply) metis

lemma tt_life_keep:
  assumes "tt_life s" "tt_pc t = (tt_pc s)(c := p)" "in_close p = in_close (tt_pc s c)"
    and "(p = K_close_freed) = (tt_pc s c = K_close_freed)" "tt_closed t = tt_closed s" "tt_ptr t = tt_ptr s"
    and "tt_zmq_closed t = tt_zmq_closed s" "tt_zmq_closed s \<noteq> 0 \<Longrightarrow> tt_connected t \<Longrightarrow> tt_connected s"
  shows "tt_life t"
proof -
  have pc: "in_close (tt_pc t d) = in_close (tt_pc s d)" "(tt_pc t d = K_close_freed) = (tt_pc s d = K_close_freed)" for d
    using assms(2-4) by auto
  show ?thesis using assms(1,5-8) unfolding tt_life_def pc by auto
qed

text \<open>A step outside the mutex and outside \<open>close\<close>.\<close>

lemma tt_inv_quiet:
  assumes "tt_inv s" "tt_lock t = tt_lock s" "tt_pc t = tt_pc s" "tt_closed t = tt_closed s"
    and "tt_ptr t = tt_ptr s" "tt_zmq_closed t = tt_zmq_closed s" "tt_connected t \<Longrightarrow> tt_connected s"
    and "\<not> holds_lock p" "\<not> in_close p" "\<not> holds_lock (tt_pc s c)" "\<not> in_close (tt_pc s c)"
  shows "tt_inv (tt_goto c p t)"
  unfolding tt_inv_def
proof
  show "tt_excl (tt_goto c p t)" by (rule tt_excl_keep [of s _ c p]) (use assms in \<open>simp_all add: tt_inv_def\<close>)
  show "tt_life (tt_goto c p t)" by (rule tt_life_keep [of s _ c p]) (use assms in \<open>auto simp: tt_inv_def\<close>)
qed

lemma tt_inv_step:
  assumes "tstep par s t" "tt_inv s"
  shows "tt_inv t"
proof -
  have ex: "tt_excl s" and li: "tt_life s" using assms(2) by (simp_all add: tt_inv_def)
  note lock = ex [unfolded tt_excl_def, THEN conjunct1, rule_format]
    and one = ex [unfolded tt_excl_def, THEN conjunct2, rule_format]
  show ?thesis using assms(1)
  proof (cases rule: tstep.cases)
    case (conn_lock c)
    have "tt_excl t" using ex conn_lock unfolding tt_excl_def by (auto split: if_splits)
    moreover have "tt_life t" by (rule tt_life_keep [OF li, of _ c K_conn_locked]) (simp_all add: conn_lock)
    ultimately show ?thesis by (simp add: tt_inv_def)
  next
    case (conn_call c uri_ok)
    have l: "tt_lock s = Some c" using lock [of c] conn_call(2) by simp
    have "tt_excl t" using ex conn_call l unfolding tt_excl_def by (auto split: if_splits)
    moreover have "tt_pc s d \<noteq> K_close_freed" for d using lock [of d] l conn_call(2) by (cases "d = c") auto
    then have "tt_zmq_closed s = 0 \<or> \<not> tt_ptr s" using li by (auto simp: tt_life_def)
    then have "tt_life t" by (intro tt_life_keep [OF li, of _ c K_rest]) (auto simp: conn_call)
    ultimately show ?thesis by (simp add: tt_inv_def)
  next
    case (close_call c)
    then have "\<not> in_close (tt_pc s d)" for d using li unfolding tt_life_def by auto
    moreover have "tt_lock s \<noteq> Some c" using lock [of c] close_call(2) by (simp add: tt_free_def)
    ultimately have "tt_excl t" using ex close_call unfolding tt_excl_def tt_free_def by auto
    moreover have "tt_life t" using li close_call unfolding tt_life_def tt_free_def by (auto split: if_splits)
    ultimately show ?thesis by (simp add: tt_inv_def)
  next
    case (close_lock c)
    have "tt_excl t" using ex close_lock unfolding tt_excl_def by (auto split: if_splits)
    moreover have "tt_life t" by (rule tt_life_keep [OF li, of _ c K_close_locked]) (simp_all add: close_lock)
    ultimately show ?thesis by (simp add: tt_inv_def)
  next
    case (close_zmq c)
    have "tt_excl t" by (rule tt_excl_keep [OF ex, of _ c K_close_freed]) (simp_all add: close_zmq)
    moreover have "tt_pc s d \<noteq> K_close_freed" for d using one [of c d] close_zmq(2) by auto
    then have "tt_life t" using li close_zmq unfolding tt_life_def by (auto split: if_splits)
    ultimately show ?thesis by (simp add: tt_inv_def)
  next
    case (close_null c)
    have l: "tt_lock s = Some c" using lock [of c] close_null(2) by simp
    have "tt_excl t" using ex close_null l unfolding tt_excl_def by (auto split: if_splits)
    moreover have "\<not> in_close (tt_pc s d)" if "d \<noteq> c" for d using one [of c d] close_null(2) that by auto
    then have "tt_life t" using li close_null unfolding tt_life_def by (auto split: if_splits)
    ultimately show ?thesis by (simp add: tt_inv_def)
  qed (auto simp: tt_free_def intro!: tt_inv_quiet [OF assms(2)])
qed

lemma tt_inv_new: "tt_inv (tt_new connected)"
  by (simp add: tt_inv_def tt_excl_def tt_life_def tt_new_def)

interpretation tt_sys: step_system "tstep par" "tt_new connected" tt_inv for par connected
  by unfold_locales (auto intro: tt_inv_new tt_inv_step)

section \<open>One call at a time\<close>

definition uses_socket :: "tcp_pc \<Rightarrow> bool" where
  "uses_socket p = (p \<in> {K_open, K_checked, K_loaded True, K_inside})"

definition tt_alone :: "tcp_threads \<Rightarrow> bool" where
  "tt_alone s = (\<not> tt_misuse s \<and> (\<forall>c d. tt_pc s c \<noteq> K_rest \<longrightarrow> tt_pc s d \<noteq> K_rest \<longrightarrow> c = d) \<and>
     (\<forall>c. uses_socket (tt_pc s c) \<longrightarrow> \<not> tt_closed s))"

lemma tt_alone_step:
  assumes "tstep False s t" "tt_inv s" "tt_alone s"
  shows "tt_alone t"
proof -
  have one: "tt_pc s c \<noteq> K_rest \<Longrightarrow> d \<noteq> c \<Longrightarrow> tt_pc s d = K_rest" for c d using assms(3) unfolding tt_alone_def by metis
  have open': "tt_zmq_closed s = 0" if "\<not> tt_closed s" using assms(2) that by (simp add: tt_inv_def tt_life_def)
  have goto: "tt_alone (tt_goto c p u)"
    if "\<And>d. d \<noteq> c \<Longrightarrow> tt_pc u d = K_rest" "\<not> tt_misuse u" "uses_socket p \<Longrightarrow> \<not> tt_closed u" for c p u
    using that unfolding tt_alone_def by (auto simp: uses_socket_def)
  have rest: "\<not> tt_misuse s" "uses_socket (tt_pc s c) \<Longrightarrow> \<not> tt_closed s" for c using assms(3) by (auto simp: tt_alone_def)
  show ?thesis using assms(1)
  proof (cases rule: tstep.cases)
    case (io_begin c)
    have "\<not> tt_closed s" using rest(2) [of c] io_begin(2) by (simp add: uses_socket_def)
    then show ?thesis using io_begin one [of c] rest(1) open' by (auto intro!: goto)
  next
    case (close_zmq c)
    have "tt_pc s d \<noteq> K_inside" for d using close_zmq(2) one [of c d] by (cases "d = c") auto
    then show ?thesis using close_zmq one [of c] rest(1) by (auto intro!: goto simp: uses_socket_def)
  qed (use one rest in \<open>force intro!: goto simp: uses_socket_def tt_free_def\<close>)+
qed

lemma tt_alone_new: "tt_alone (tt_new connected)"
  by (simp add: tt_alone_def tt_new_def uses_socket_def)

interpretation tt_alone_sys: step_system "tstep False" "tt_new connected" "\<lambda>s. tt_inv s \<and> tt_alone s" for connected
  by unfold_locales (auto intro: tt_inv_new tt_inv_step tt_alone_new tt_alone_step)

text \<open>
  C26. The socket is closed once: in any interleaving of calls from any number of threads \<open>zmq_close\<close>
  is called at most once; from then on the channel is not connected; and when \<open>closed_\<close> is set and
  no \<open>close\<close> is in progress, it has been called and the pointer is null. With one call at a time no
  call begins on a closed socket and none is in progress when it is closed.
\<close>

theorem tcp_close_once:
  "tcp_reachable par connected \<subseteq> {s. tt_zmq_closed s = 0} \<union> {s. tt_zmq_closed s = 1 \<and> \<not> tt_connected s} \<and>
   tcp_reachable par connected \<inter> {s. tt_closed s \<and> (\<forall>c. \<not> in_close (tt_pc s c))} \<subseteq> {s. tt_zmq_closed s = 1 \<and> \<not> tt_ptr s} \<and>
   tcp_reachable False connected \<inter> {s. tt_misuse s} = {}"
proof -
  have inv: "tt_life s" if "s \<in> tcp_reachable par connected" for s
    using that tt_sys.reachable_inv by (auto simp: tcp_reachable_def tt_inv_def)
  have "tt_zmq_closed s = 0 \<or> tt_zmq_closed s = 1 \<and> \<not> tt_connected s" if "s \<in> tcp_reachable par connected" for s
    using inv [OF that] by (auto simp: tt_life_def)
  moreover have "tt_zmq_closed s = 1 \<and> \<not> tt_ptr s"
    if "s \<in> tcp_reachable par connected" "tt_closed s" "\<And>c. \<not> in_close (tt_pc s c)" for s
    using inv [OF that(1)] that(2,3) by (auto simp: tt_life_def split: if_splits)
  moreover have "\<not> tt_misuse s" if "s \<in> tcp_reachable False connected" for s
    using that tt_alone_sys.reachable_inv by (auto simp: tcp_reachable_def tt_alone_def)
  ultimately show ?thesis by blast
qed

section \<open>A close beside a send\<close>

text \<open>
  A \<open>close\<close> beside a send or a receive breaks ZeroMQ's rules: the sender tests the pointer and
  reads it, the socket is closed, and the sender's call begins on the closed socket.
\<close>

theorem tcp_use_after_close:
  "\<exists>s \<in> tcp_reachable True connected. tt_misuse s \<and> tt_zmq_closed s = 1 \<and> tt_pc s 0 = K_inside"
proof -
  let ?R = "(tstep True)\<^sup>*\<^sup>* (tt_new connected)"
  note snoc = rtranclp.rtrancl_into_rtrancl [of "tstep True"]
  define s1 where "s1 = tt_goto 0 (K_loaded True) (tt_goto 0 K_checked (tt_goto 0 K_open (tt_new connected)))"
  have "?R (tt_goto 0 K_open (tt_new connected))"
    by (rule snoc [OF rtranclp.rtrancl_refl io_open]) (simp_all add: tt_free_def tt_new_def)
  from snoc [OF this io_check [of _ 0]] have "?R (tt_goto 0 K_checked (tt_goto 0 K_open (tt_new connected)))"
    by (simp add: tt_new_def)
  from snoc [OF this io_load [of _ 0]] have 1: "?R s1" by (simp add: s1_def tt_new_def)
  have s1: "tt_pc s1 = (\<lambda>_. K_rest)(0 := K_loaded True)" "\<not> tt_closed s1" "tt_lock s1 = None" "tt_ptr s1" "tt_zmq_closed s1 = 0"
    by (simp_all add: s1_def tt_new_def)
  define s2 where "s2 = tt_goto 1 K_close_locked ((tt_goto 1 K_close (s1\<lparr>tt_closed := True\<rparr>))\<lparr>tt_lock := Some 1\<rparr>)"
  have "?R (tt_goto 1 K_close (s1\<lparr>tt_closed := True\<rparr>))"
    by (rule snoc [OF 1 close_call]) (simp_all add: tt_free_def s1)
  from snoc [OF this close_lock [of _ 1]] have 2: "?R s2" by (simp add: s2_def s1)
  have s2: "tt_pc s2 = (\<lambda>_. K_rest)(0 := K_loaded True, 1 := K_close_locked)" "tt_ptr s2" "tt_zmq_closed s2 = 0"
    by (simp_all add: s2_def s1 fun_eq_iff)
  from snoc [OF 2 close_zmq [of _ 1]] obtain s3 where 3: "?R s3" "tt_zmq_closed s3 = 1" "tt_pc s3 0 = K_loaded True"
    by (simp add: s2)
  define s4 where "s4 = tt_goto 0 K_inside (s3\<lparr>tt_misuse := tt_misuse s3 \<or> 0 < tt_zmq_closed s3\<rparr>)"
  have "?R s4" unfolding s4_def by (rule snoc [OF 3(1) io_begin]) (simp add: 3)
  moreover have "tt_misuse s4 \<and> tt_zmq_closed s4 = 1 \<and> tt_pc s4 0 = K_inside" by (simp add: s4_def 3)
  ultimately show ?thesis unfolding tcp_reachable_def by blast
qed

end
