(* ===== verification/Audit_Log.thy ===== *)
theory Audit_Log
  imports Text_Codec
begin

text \<open>
  \<open>src/audit/audit.*\<close>: the audit log, a text file whose lines are chained by hashes. The
  file's contents are a value (\<open>None\<close>: it cannot be opened), SHA-512 is a parameter \<open>H\<close>
  from bytes to digest, the clock's reading and the random bytes are arguments, and how the
  output stream behaves is an argument of each write.

  Shown: a log written by the logger verifies, through any number of appends and restarts;
  two verified logs with the same start, length and end have the same numbers, actions and
  parameters unless a collision of \<open>H\<close> is among their inputs; and what the chain does not
  cover.
\<close>

section \<open>Actions\<close>

datatype ActionType = NodeRegister | NodeUnregister | NodeHeartbeat | ServicePublish | ServiceSubscribe
  | TopologyUpdate | CrossHostSchedule | Act_PskHandshake | Act_PkiHandshake | AuthSuccess | AuthFailure
  | CredentialRotate | CmdExec | FileTransfer | ConfigChange | AuditExport | WhitelistUpdate
  | RateLimitTriggered | ReplayDetected

fun action_number :: "ActionType \<Rightarrow> nat" where
  "action_number NodeRegister = 1"
| "action_number NodeUnregister = 2"
| "action_number NodeHeartbeat = 3"
| "action_number ServicePublish = 4"
| "action_number ServiceSubscribe = 5"
| "action_number TopologyUpdate = 6"
| "action_number CrossHostSchedule = 7"
| "action_number Act_PskHandshake = 8"
| "action_number Act_PkiHandshake = 9"
| "action_number AuthSuccess = 10"
| "action_number AuthFailure = 11"
| "action_number CredentialRotate = 12"
| "action_number CmdExec = 13"
| "action_number FileTransfer = 14"
| "action_number ConfigChange = 15"
| "action_number AuditExport = 16"
| "action_number WhitelistUpdate = 17"
| "action_number RateLimitTriggered = 18"
| "action_number ReplayDetected = 19"

fun action_name :: "ActionType \<Rightarrow> bytes" where
  "action_name NodeRegister = str ''node_register''"
| "action_name NodeUnregister = str ''node_unregister''"
| "action_name NodeHeartbeat = str ''node_heartbeat''"
| "action_name ServicePublish = str ''service_publish''"
| "action_name ServiceSubscribe = str ''service_subscribe''"
| "action_name TopologyUpdate = str ''topology_update''"
| "action_name CrossHostSchedule = str ''cross_host_schedule''"
| "action_name Act_PskHandshake = str ''psk_handshake''"
| "action_name Act_PkiHandshake = str ''pki_handshake''"
| "action_name AuthSuccess = str ''auth_success''"
| "action_name AuthFailure = str ''auth_failure''"
| "action_name CredentialRotate = str ''credential_rotate''"
| "action_name CmdExec = str ''cmd_exec''"
| "action_name FileTransfer = str ''file_transfer''"
| "action_name ConfigChange = str ''config_change''"
| "action_name AuditExport = str ''audit_export''"
| "action_name WhitelistUpdate = str ''whitelist_update''"
| "action_name RateLimitTriggered = str ''rate_limit_triggered''"
| "action_name ReplayDetected = str ''replay_detected''"

definition all_actions :: "ActionType list" where
  "all_actions = [NodeRegister, NodeUnregister, NodeHeartbeat, ServicePublish, ServiceSubscribe, TopologyUpdate,
     CrossHostSchedule, Act_PskHandshake, Act_PkiHandshake, AuthSuccess, AuthFailure, CredentialRotate, CmdExec,
     FileTransfer, ConfigChange, AuditExport, WhitelistUpdate, RateLimitTriggered, ReplayDetected]"

text \<open>The search over the numbers 1 to 19; an unknown name stays the default.\<close>

definition action_of_name :: "bytes \<Rightarrow> ActionType" where
  "action_of_name act = (case find (\<lambda>a. act = action_name a) all_actions of Some a \<Rightarrow> a | None \<Rightarrow> NodeHeartbeat)"

lemma action_of_name [simp]: "action_of_name (action_name a) = a"
  by (cases a) (simp_all add: action_of_name_def all_actions_def word_unat_eq_iff)

lemma plain_action_name [simp, text_simps]: "plain (action_name a)"
  by (cases a) (simp_all add: word_unat_eq_iff)

section \<open>Events\<close>

record AuditEvent =
  ae_sequence :: u64
  ae_action :: ActionType
  ae_actor :: bytes
  ae_target :: bytes
  ae_params_json :: bytes
  ae_timestamp_ns :: int
  ae_prev_hash :: bytes
  ae_params_hash :: bytes

definition sha512_hex :: "(bytes \<Rightarrow> bytes) \<Rightarrow> bytes \<Rightarrow> bytes" where
  "sha512_hex H data = to_hex (H data)"

definition compute_params_hash :: "(bytes \<Rightarrow> bytes) \<Rightarrow> bytes \<Rightarrow> bytes" where
  "compute_params_hash H json = sha512_hex H json"

definition chain_input :: "bytes \<Rightarrow> AuditEvent \<Rightarrow> bytes" where
  "chain_input prev ev = prev @ [bar] @ ae_params_hash ev @ [bar] @ dec_u64 (ae_sequence ev) @ [bar]
     @ dec_nat (action_number (ae_action ev))"

definition next_hash :: "(bytes \<Rightarrow> bytes) \<Rightarrow> bytes \<Rightarrow> AuditEvent \<Rightarrow> bytes" where
  "next_hash H prev ev = sha512_hex H (chain_input prev ev)"

definition event_line :: "AuditEvent \<Rightarrow> bytes" where
  "event_line ev = dec_u64 (ae_sequence ev) @ bar # action_name (ae_action ev) @ bar # ae_actor ev @ bar #
     ae_target ev @ bar # dec_int (ae_timestamp_ns ev) @ bar # ae_prev_hash ev @ bar # ae_params_hash ev @ bar #
     ae_params_json ev"

text \<open>
  The event without its parameters, and the parameters; an exception of \<open>stoull\<close> or \<open>stoll\<close>
  makes the parse fail.
\<close>

definition parse_event_line :: "bytes \<Rightarrow> (AuditEvent \<times> bytes) option" where
  "parse_event_line line = (case cut_fields 7 line of
      Some ([sq, act, actor, target, ts, prev, ph], json_tail) \<Rightarrow>
        (case (stoull sq, stoll ts) of
           (Some sequence, Some timestamp) \<Rightarrow>
             Some (\<lparr>ae_sequence = sequence, ae_action = action_of_name act, ae_actor = actor, ae_target = target,
               ae_params_json = [], ae_timestamp_ns = timestamp, ae_prev_hash = prev, ae_params_hash = ph\<rparr>, json_tail)
         | _ \<Rightarrow> None)
    | _ \<Rightarrow> None)"

text \<open>What the logger writes: fields without separators, a 64-bit time, hashes of the parameters.\<close>

definition well_formed :: "(bytes \<Rightarrow> bytes) \<Rightarrow> AuditEvent \<Rightarrow> bool" where
  "well_formed H ev = (plain (ae_actor ev) \<and> plain (ae_target ev) \<and> newline \<notin> set (ae_params_json ev) \<and>
     - (2 ^ 63) \<le> ae_timestamp_ns ev \<and> ae_timestamp_ns ev < 2 ^ 63 \<and> plain (ae_prev_hash ev) \<and>
     ae_params_hash ev = compute_params_hash H (ae_params_json ev))"

lemma plain_params_hash [simp, text_simps]: "plain (compute_params_hash H json)"
  by (simp add: compute_params_hash_def sha512_hex_def)

lemma parse_event_line:
  assumes "well_formed H ev"
  shows "parse_event_line (event_line ev) = Some (ev\<lparr>ae_params_json := []\<rparr>, ae_params_json ev)"
proof -
  have "cut_fields 7 (event_line ev) = Some ([dec_u64 (ae_sequence ev), action_name (ae_action ev), ae_actor ev,
      ae_target ev, dec_int (ae_timestamp_ns ev), ae_prev_hash ev, ae_params_hash ev], ae_params_json ev)"
    using assms by (simp add: event_line_def well_formed_def cut_field numeral_eq_Suc del: cut_fields.simps(2))
  with assms show ?thesis by (simp add: parse_event_line_def stoull_dec stoll_dec well_formed_def)
qed

lemma event_line_one_line: "well_formed H ev \<Longrightarrow> newline \<notin> set (event_line ev) \<and> event_line ev \<noteq> []"
  using plain_dec_u64 [of "ae_sequence ev"] plain_action_name [of "ae_action ev"] plain_dec_int [of "ae_timestamp_ns ev"]
    plain_params_hash [of H "ae_params_json ev"]
  by (auto simp: well_formed_def event_line_def plain_def)

section \<open>The logger\<close>

record audit =
  al_seq :: u64
  al_prev_hash :: bytes

text \<open>
  How a write ends: everything arrives; the stream is bad when \<open>out.good()\<close> looks at it, with
  some bytes written; or the buffered bytes are lost when the stream is closed, after the look.
\<close>

datatype stream_io = IO_ok | IO_bad nat | IO_lost nat

definition kGenesis :: bytes where
  "kGenesis = str ''GENESIS|''"

definition write_tail :: "stream_io \<Rightarrow> bytes \<Rightarrow> bytes \<Rightarrow> bytes" where
  "write_tail io file text = file @ (case io of IO_ok \<Rightarrow> text | IO_bad n \<Rightarrow> take n text | IO_lost n \<Rightarrow> take n text)"

text \<open>Reading back an existing log: the last number and the hash for the next event.\<close>

fun rebuild :: "(bytes \<Rightarrow> bytes) \<Rightarrow> bytes list \<Rightarrow> bytes \<Rightarrow> u64 \<Rightarrow> u64 \<times> bytes" where
  "rebuild H [] cur_prev sq = (sq, cur_prev)"
| "rebuild H (line # lines) cur_prev sq =
     (if line = [] then rebuild H lines cur_prev sq
      else case parse_event_line line of
        None \<Rightarrow> (sq, cur_prev)
      | Some (ev, _) \<Rightarrow>
          if ae_prev_hash ev \<noteq> cur_prev then (sq, cur_prev)
          else rebuild H lines (next_hash H cur_prev ev) (ae_sequence ev))"

definition genesis_seed :: "bytes \<Rightarrow> int \<Rightarrow> bytes" where
  "genesis_seed rnd now = str ''udaf-bootstrap-'' @ to_hex rnd @ str ''-'' @ dec_int now"

text \<open>
  \<open>file\<close> is what reading the path gives, \<open>can_write\<close> whether it can be opened for appending.
\<close>

definition audit_open :: "(bytes \<Rightarrow> bytes) \<Rightarrow> bytes \<Rightarrow> int \<Rightarrow> bool \<Rightarrow> stream_io \<Rightarrow> bytes option \<Rightarrow> audit \<times> bytes option" where
  "audit_open H rnd now can_write io file =
     (let lines = (case file of None \<Rightarrow> [] | Some text \<Rightarrow> lines_of text) in
      if lines \<noteq> [] \<and> take 8 (hd lines) = kGenesis then
        (case rebuild H (tl lines) (drop 8 (hd lines)) 0 of (sq, prev) \<Rightarrow> (\<lparr>al_seq = sq, al_prev_hash = prev\<rparr>, file))
      else
        let prev = sha512_hex H (genesis_seed rnd now);
            text = (case file of None \<Rightarrow> [] | Some t \<Rightarrow> t) in
        (\<lparr>al_seq = 0, al_prev_hash = prev\<rparr>,
         if can_write then Some (write_tail io text (kGenesis @ prev @ [newline])) else file))"

definition audit_append :: "(bytes \<Rightarrow> bytes) \<Rightarrow> bool \<Rightarrow> stream_io \<Rightarrow> int \<Rightarrow> ActionType \<Rightarrow> bytes \<Rightarrow> bytes \<Rightarrow> bytes
    \<Rightarrow> audit \<times> bytes option \<Rightarrow> u64 Result \<times> audit \<times> bytes option" where
  "audit_append H can_write io now action actor target params_json st =
     (case st of (a, file) \<Rightarrow>
        if \<not> can_write then (Err EC_INTERNAL, a, file)
        else
          let sq = al_seq a + 1;
              ev = \<lparr>ae_sequence = sq, ae_action = action, ae_actor = actor, ae_target = target,
                ae_params_json = params_json, ae_timestamp_ns = now, ae_prev_hash = al_prev_hash a,
                ae_params_hash = compute_params_hash H params_json\<rparr>;
              a = a\<lparr>al_seq := sq, al_prev_hash := next_hash H (al_prev_hash a) ev\<rparr>;
              text = (case file of None \<Rightarrow> [] | Some t \<Rightarrow> t);
              file = Some (write_tail io text (event_line ev @ [newline])) in
          case io of
            IO_bad _ \<Rightarrow> (Err EC_INTERNAL, a\<lparr>al_seq := al_seq a - 1\<rparr>, file)
          | _ \<Rightarrow> (Ok sq, a, file))"

fun verify_lines :: "(bytes \<Rightarrow> bytes) \<Rightarrow> bytes list \<Rightarrow> bytes \<Rightarrow> bool" where
  "verify_lines H [] expected_prev = True"
| "verify_lines H (line # lines) expected_prev =
     (if line = [] then verify_lines H lines expected_prev
      else case parse_event_line line of
        None \<Rightarrow> False
      | Some (ev, json_tail) \<Rightarrow>
          if ae_prev_hash ev \<noteq> expected_prev then False
          else if compute_params_hash H json_tail \<noteq> ae_params_hash ev then False
          else verify_lines H lines (next_hash H expected_prev ev))"

definition verify_chain :: "(bytes \<Rightarrow> bytes) \<Rightarrow> bytes option \<Rightarrow> bool Result" where
  "verify_chain H file = (case file of
      None \<Rightarrow> Err EC_INTERNAL
    | Some text \<Rightarrow> (case lines_of text of
          [] \<Rightarrow> Err EC_INTERNAL
        | line # lines \<Rightarrow>
            if take 8 line \<noteq> kGenesis then Err EC_PROTOCOL_VERSION_MISMATCH
            else Ok (verify_lines H lines (drop 8 line))))"

definition audit_sequence :: "audit \<Rightarrow> u64" where
  "audit_sequence a = al_seq a"

section \<open>Logs the logger writes\<close>

primrec chain_ok :: "(bytes \<Rightarrow> bytes) \<Rightarrow> bytes \<Rightarrow> AuditEvent list \<Rightarrow> bool" where
  "chain_ok H prev [] = True"
| "chain_ok H prev (ev # evs) = (well_formed H ev \<and> ae_prev_hash ev = prev \<and> chain_ok H (next_hash H prev ev) evs)"

definition chain_head :: "(bytes \<Rightarrow> bytes) \<Rightarrow> bytes \<Rightarrow> AuditEvent list \<Rightarrow> bytes" where
  "chain_head H g evs = foldl (next_hash H) g evs"

definition render :: "bytes \<Rightarrow> AuditEvent list \<Rightarrow> bytes" where
  "render g evs = concat (map (\<lambda>l. l @ [newline]) ((kGenesis @ g) # map event_line evs))"

lemma chain_ok_append:
  "chain_ok H g (evs @ [ev]) \<longleftrightarrow> chain_ok H g evs \<and> well_formed H ev \<and> ae_prev_hash ev = chain_head H g evs"
  by (induction evs arbitrary: g) (auto simp: chain_head_def)

lemma chain_head_simps [simp]:
  "chain_head H g [] = g" "chain_head H g (ev # evs) = chain_head H (next_hash H g ev) evs"
  "chain_head H g (evs @ [ev]) = next_hash H (chain_head H g evs) ev"
  by (simp_all add: chain_head_def)

lemma plain_next_hash [simp, text_simps]: "plain (next_hash H prev ev)"
  by (simp add: next_hash_def sha512_hex_def)

lemma plain_chain_head: "plain g \<Longrightarrow> plain (chain_head H g evs)"
  by (induction evs arbitrary: g) simp_all

lemma chain_ok_well_formed: "chain_ok H g evs \<Longrightarrow> list_all (well_formed H) evs"
  by (induction evs arbitrary: g) auto

lemma plain_genesis: "plain g \<Longrightarrow> newline \<notin> set (kGenesis @ g)" "length kGenesis = 8" "kGenesis \<noteq> []"
  by (simp_all add: kGenesis_def plain_def word_unat_eq_iff)

lemma lines_of_render:
  assumes "plain g" "list_all (well_formed H) evs"
  shows "lines_of (render g evs) = (kGenesis @ g) # map event_line evs"
  unfolding render_def
  by (rule lines_of_lines)
    (use assms plain_genesis event_line_one_line [of H] in \<open>auto simp: list_all_iff\<close>)

lemma next_hash_no_params [simp]: "next_hash H prev (ev\<lparr>ae_params_json := j\<rparr>) = next_hash H prev ev"
  by (simp add: next_hash_def chain_input_def)

lemma verify_lines_append:
  "chain_ok H g evs \<Longrightarrow> verify_lines H (map event_line evs @ ls) g = verify_lines H ls (chain_head H g evs)"
proof (induction evs arbitrary: g)
  case (Cons ev evs)
  then have w: "well_formed H ev" by simp
  then have "ae_params_hash ev = compute_params_hash H (ae_params_json ev)" by (simp add: well_formed_def)
  with Cons w event_line_one_line [OF w] parse_event_line [OF w] show ?case by simp
qed simp

lemma verify_chain_lines: "chain_ok H g evs \<Longrightarrow> verify_lines H (map event_line evs) g"
  using verify_lines_append [of H g evs "[]"] by simp

text \<open>Verifying a log that the logger wrote, with something behind it.\<close>

lemma verify_render_append:
  assumes "plain g" "chain_ok H g evs"
  shows "verify_chain H (Some (render g evs @ rest)) = Ok (verify_lines H (lines_of rest) (chain_head H g evs))"
proof -
  have "lines_of (render g evs @ rest) = ((kGenesis @ g) # map event_line evs) @ lines_of rest"
    unfolding render_def
    by (rule lines_of_lines_append)
      (use assms chain_ok_well_formed plain_genesis event_line_one_line [of H] in \<open>auto simp: list_all_iff\<close>)
  with assms(2) plain_genesis(2) show ?thesis by (simp add: verify_chain_def verify_lines_append)
qed

lemma rebuild_lines:
  "chain_ok H g evs \<Longrightarrow> rebuild H (map event_line evs) g sq =
    ((if evs = [] then sq else ae_sequence (last evs)), chain_head H g evs)"
proof (induction evs arbitrary: g sq)
  case (Cons ev evs)
  then have w: "well_formed H ev" by simp
  with Cons event_line_one_line [OF w] parse_event_line [OF w] show ?case by simp
qed simp

text \<open>The state of a logger and its file, for the events written so far.\<close>

definition log_holds :: "(bytes \<Rightarrow> bytes) \<Rightarrow> bytes \<Rightarrow> AuditEvent list \<Rightarrow> audit \<times> bytes option \<Rightarrow> bool" where
  "log_holds H g evs st = (plain g \<and> chain_ok H g evs \<and> snd st = Some (render g evs) \<and>
     al_prev_hash (fst st) = chain_head H g evs \<and> al_seq (fst st) = of_nat (length evs) \<and>
     (evs = [] \<or> ae_sequence (last evs) = of_nat (length evs)))"

lemma log_holds_new: "log_holds H (sha512_hex H (genesis_seed rnd now)) [] (audit_open H rnd now True IO_ok None)"
  by (simp add: log_holds_def audit_open_def write_tail_def render_def sha512_hex_def Let_def)

lemma log_holds_lines:
  "log_holds H g evs st \<Longrightarrow> lines_of (render g evs) = (kGenesis @ g) # map event_line evs"
  by (rule lines_of_render [of g H]) (auto simp: log_holds_def intro: chain_ok_well_formed)

lemma log_holds_verifies:
  assumes "log_holds H g evs st"
  shows "verify_chain H (snd st) = Ok True"
proof -
  note log_holds_lines [OF assms]
  with assms verify_chain_lines [of H g evs] plain_genesis(2) show ?thesis
    by (simp add: log_holds_def verify_chain_def)
qed

lemma log_holds_reopen:
  assumes "log_holds H g evs st"
  shows "audit_open H rnd now w io (snd st) = st"
proof -
  note log_holds_lines [OF assms]
  with assms rebuild_lines [of H g evs 0] plain_genesis(2) show ?thesis
    by (cases st) (auto simp: log_holds_def audit_open_def)
qed

definition fresh_event :: "(bytes \<Rightarrow> bytes) \<Rightarrow> audit \<Rightarrow> ActionType \<Rightarrow> bytes \<Rightarrow> bytes \<Rightarrow> bytes \<Rightarrow> int \<Rightarrow> AuditEvent" where
  "fresh_event H a action actor target params_json now =
     \<lparr>ae_sequence = al_seq a + 1, ae_action = action, ae_actor = actor, ae_target = target,
      ae_params_json = params_json, ae_timestamp_ns = now, ae_prev_hash = al_prev_hash a,
      ae_params_hash = compute_params_hash H params_json\<rparr>"

lemma log_holds_append:
  assumes "log_holds H g evs (a, f)" "plain actor" "plain target" "newline \<notin> set params"
    and "- (2 ^ 63) \<le> now" "now < 2 ^ 63"
    and "audit_append H True IO_ok now action actor target params (a, f) = (r, st')"
  shows "r = Ok (of_nat (Suc (length evs))) \<and> log_holds H g (evs @ [fresh_event H a action actor target params now]) st'"
proof -
  let ?ev = "fresh_event H a action actor target params now"
  have a: "al_seq a = of_nat (length evs)" "al_prev_hash a = chain_head H g evs" "f = Some (render g evs)" "plain g" "chain_ok H g evs"
    using assms(1) by (simp_all add: log_holds_def)
  have st': "r = Ok (al_seq a + 1)" "st' = (a\<lparr>al_seq := al_seq a + 1, al_prev_hash := next_hash H (al_prev_hash a) ?ev\<rparr>,
      Some (render g evs @ event_line ?ev @ [newline]))"
    using assms(7) a(3) by (simp_all add: audit_append_def Let_def fresh_event_def write_tail_def)
  have "well_formed H ?ev"
    using assms(2-6) a plain_chain_head by (simp add: well_formed_def fresh_event_def)
  moreover have "render g (evs @ [?ev]) = render g evs @ event_line ?ev @ [newline]" by (simp add: render_def)
  ultimately show ?thesis using a st'
    by (simp add: log_holds_def chain_ok_append) (simp add: fresh_event_def)
qed

section \<open>Histories\<close>

datatype audit_op = AO_append ActionType bytes bytes bytes int | AO_reopen

fun audit_step :: "(bytes \<Rightarrow> bytes) \<Rightarrow> audit_op \<Rightarrow> audit \<times> bytes option \<Rightarrow> audit \<times> bytes option" where
  "audit_step H (AO_append action actor target params now) st = snd (audit_append H True IO_ok now action actor target params st)"
| "audit_step H AO_reopen st = audit_open H [] 0 True IO_ok (snd st)"

fun op_plain :: "audit_op \<Rightarrow> bool" where
  "op_plain (AO_append action actor target params now) =
     (plain actor \<and> plain target \<and> newline \<notin> set params \<and> - (2 ^ 63) \<le> now \<and> now < 2 ^ 63)"
| "op_plain AO_reopen = True"

fun op_record :: "audit_op \<Rightarrow> (ActionType \<times> bytes \<times> bytes \<times> bytes \<times> int) list" where
  "op_record (AO_append action actor target params now) = [(action, actor, target, params, now)]"
| "op_record AO_reopen = []"

definition event_record :: "AuditEvent \<Rightarrow> ActionType \<times> bytes \<times> bytes \<times> bytes \<times> int" where
  "event_record ev = (ae_action ev, ae_actor ev, ae_target ev, ae_params_json ev, ae_timestamp_ns ev)"

text \<open>What the file says: the records of the lines behind the first.\<close>

definition file_records :: "bytes option \<Rightarrow> (ActionType \<times> bytes \<times> bytes \<times> bytes \<times> int) list option" where
  "file_records file = (case file of None \<Rightarrow> None | Some text \<Rightarrow>
     those (map (\<lambda>l. map_option (\<lambda>(ev, json). event_record (ev\<lparr>ae_params_json := json\<rparr>)) (parse_event_line l))
       (tl (lines_of text))))"

lemma audit_steps_hold:
  assumes "log_holds H g evs st" "list_all op_plain ops"
  shows "\<exists>evs'. log_holds H g evs' (fold (audit_step H) ops st) \<and>
    map event_record evs' = map event_record evs @ concat (map op_record ops)"
  using assms
proof (induction ops arbitrary: evs st)
  case (Cons op ops)
  show ?case
  proof (cases op)
    case (AO_append action actor target params now)
    obtain a f where st: "st = (a, f)" by (cases st)
    let ?ev = "fresh_event H a action actor target params now"
    obtain r st' where app: "audit_append H True IO_ok now action actor target params (a, f) = (r, st')"
      by (cases "audit_append H True IO_ok now action actor target params (a, f)") auto
    have "log_holds H g (evs @ [?ev]) st'"
      using log_holds_append [OF _ _ _ _ _ _ app] Cons.prems AO_append st by simp
    from Cons.IH [OF this] Cons.prems(2) obtain evs' where "log_holds H g evs' (fold (audit_step H) ops st')"
      "map event_record evs' = map event_record (evs @ [?ev]) @ concat (map op_record ops)" by auto
    moreover have "map event_record (evs @ [?ev]) = map event_record evs @ op_record op"
      by (simp add: event_record_def fresh_event_def AO_append)
    ultimately show ?thesis using AO_append st app by auto
  next
    case AO_reopen
    then show ?thesis using Cons log_holds_reopen [OF Cons.prems(1)] by simp
  qed
qed auto

lemma those_some: "those (map f xs) = Some ys \<longleftrightarrow> map f xs = map Some ys"
  by (induction xs arbitrary: ys) (auto split: option.splits simp: map_eq_Cons_conv Cons_eq_map_conv)

lemma log_holds_records:
  assumes "log_holds H g evs st"
  shows "file_records (snd st) = Some (map event_record evs)"
proof -
  have w: "list_all (well_formed H) evs" using assms chain_ok_well_formed by (auto simp: log_holds_def)
  note log_holds_lines [OF assms]
  moreover have "map (\<lambda>l. map_option (\<lambda>(ev, json). event_record (ev\<lparr>ae_params_json := json\<rparr>)) (parse_event_line l))
      (map event_line evs) = map Some (map event_record evs)"
    using w parse_event_line [of H] by (induction evs) (auto simp: event_record_def)
  ultimately show ?thesis using assms by (simp add: log_holds_def file_records_def those_some)
qed

text \<open>
  The log is complete and verifies: from a new file, through any number of appends (with
  actor and target free of the separators and parameters on one line) and restarts of the
  logger, the chain verifies, the file holds exactly the appended events in their order with all
  their fields, and the sequence number counts them.
\<close>

theorem audit_history:
  assumes "list_all op_plain ops"
  shows "let st = fold (audit_step H) ops (audit_open H rnd now True IO_ok None) in
    verify_chain H (snd st) = Ok True \<and> file_records (snd st) = Some (concat (map op_record ops)) \<and>
    audit_sequence (fst st) = of_nat (length (concat (map op_record ops)))"
proof -
  obtain evs where h: "log_holds H (sha512_hex H (genesis_seed rnd now)) evs
      (fold (audit_step H) ops (audit_open H rnd now True IO_ok None))"
    and r: "map event_record evs = concat (map op_record ops)"
    using audit_steps_hold [OF log_holds_new assms, of H rnd now] by auto
  from r have "length evs = length (concat (map op_record ops))" by (metis length_map)
  with h r show ?thesis
    using log_holds_verifies [OF h] log_holds_records [OF h] by (simp add: log_holds_def audit_sequence_def)
qed

lemma audit_history_witness:
  "let H = (\<lambda>x. x);
       ops = [AO_append CmdExec (str ''alice'') (str ''host-1'') (str ''{}'') 5, AO_reopen,
              AO_append FileTransfer (str ''bob'') (str ''host-2'') (str ''{\"a|b\"}'') (- 7)];
       st = fold (audit_step H) ops (audit_open H [1, 2] 3 True IO_ok None) in
   verify_chain H (snd st) = Ok True \<and> file_records (snd st) = Some (concat (map op_record ops)) \<and>
   audit_sequence (fst st) = 2"
  using audit_history [of "[AO_append CmdExec (str ''alice'') (str ''host-1'') (str ''{}'') 5, AO_reopen,
      AO_append FileTransfer (str ''bob'') (str ''host-2'') (str ''{\"a|b\"}'') (- 7)]" "\<lambda>x. x" "[1, 2]" 3]
  by (simp add: word_unat_eq_iff Let_def)

section \<open>What the chain binds\<close>

text \<open>The links that \<open>verify_chain\<close> checks, and everything that is hashed on the way.\<close>

primrec chain_links :: "(bytes \<Rightarrow> bytes) \<Rightarrow> bytes \<Rightarrow> AuditEvent list \<Rightarrow> bool" where
  "chain_links H prev [] = True"
| "chain_links H prev (ev # evs) = (ae_prev_hash ev = prev \<and>
     ae_params_hash ev = compute_params_hash H (ae_params_json ev) \<and> chain_links H (next_hash H prev ev) evs)"

primrec hashed :: "(bytes \<Rightarrow> bytes) \<Rightarrow> bytes \<Rightarrow> AuditEvent list \<Rightarrow> bytes set" where
  "hashed H prev [] = {}"
| "hashed H prev (ev # evs) = {ae_params_json ev, chain_input prev ev} \<union> hashed H (next_hash H prev ev) evs"

definition covered :: "AuditEvent \<Rightarrow> u64 \<times> ActionType \<times> bytes" where
  "covered ev = (ae_sequence ev, ae_action ev, ae_params_json ev)"

lemma chain_links_append:
  "chain_links H g (evs @ [ev]) \<longleftrightarrow> chain_links H g evs \<and> ae_prev_hash ev = chain_head H g evs \<and>
     ae_params_hash ev = compute_params_hash H (ae_params_json ev)"
  by (induction evs arbitrary: g) auto

lemma hashed_append: "hashed H g (evs @ [ev]) = hashed H g evs \<union> {ae_params_json ev, chain_input (chain_head H g evs) ev}"
  by (induction evs arbitrary: g) auto

lemma plain_split:
  "plain a \<Longrightarrow> plain b \<Longrightarrow> a @ bar # s = b @ bar # t \<Longrightarrow> a = b \<and> s = t"
  by (induction a arbitrary: b) (auto simp: Cons_eq_append_conv append_eq_Cons_conv)

lemma dec_nat_inject: "dec_nat m = dec_nat n \<longleftrightarrow> m = n"
  by (metis digits_val_dec)

lemma action_number_inject: "action_number a = action_number b \<longleftrightarrow> a = b"
  by (cases a; cases b) simp_all

lemma chain_input_inject:
  assumes "chain_input p ev = chain_input q ev'" "plain (ae_params_hash ev)" "plain (ae_params_hash ev')"
    and "(plain p \<and> plain q) \<or> p = q"
  shows "p = q \<and> ae_params_hash ev = ae_params_hash ev' \<and> ae_sequence ev = ae_sequence ev' \<and> ae_action ev = ae_action ev'"
proof -
  let ?rest = "\<lambda>e. ae_params_hash e @ bar # dec_u64 (ae_sequence e) @ bar # dec_nat (action_number (ae_action e))"
  have "p @ bar # ?rest ev = q @ bar # ?rest ev'" using assms(1) by (simp add: chain_input_def)
  then have 1: "p = q" "?rest ev = ?rest ev'" using assms(4) plain_split [of p q] by auto
  note 2 = plain_split [OF assms(2,3) 1(2)]
  then have "dec_u64 (ae_sequence ev) = dec_u64 (ae_sequence ev') \<and>
      dec_nat (action_number (ae_action ev)) = dec_nat (action_number (ae_action ev'))"
    using plain_split [OF plain_dec_u64 plain_dec_u64] by blast
  with 1 2 show ?thesis by (simp add: dec_u64_def dec_nat_inject action_number_inject word_unat_eq_iff [symmetric])
qed

lemma sha_inject: "inj_on H A \<Longrightarrow> x \<in> A \<Longrightarrow> y \<in> A \<Longrightarrow> sha512_hex H x = sha512_hex H y \<Longrightarrow> x = y"
  by (auto simp: sha512_hex_def to_hex_inj dest: inj_onD)

lemma head_plain: "evs \<noteq> [] \<Longrightarrow> plain (chain_head H g evs)"
  by (cases evs rule: rev_cases) simp_all

lemma chain_binds:
  assumes "length evs = length evs'" "chain_links H g evs" "chain_links H g evs'"
    and "chain_head H g evs = chain_head H g evs'" "inj_on H (hashed H g evs \<union> hashed H g evs')"
  shows "map covered evs = map covered evs'"
  using assms
proof (induction evs arbitrary: evs' rule: rev_induct)
  case (snoc ev evs)
  then obtain evs2 ev2 where e: "evs' = evs2 @ [ev2]" "length evs = length evs2"
    by (cases evs' rule: rev_cases) auto
  let ?A = "hashed H g (evs @ [ev]) \<union> hashed H g evs'"
  let ?p = "chain_head H g evs" and ?q = "chain_head H g evs2"
  have mem: "ae_params_json ev \<in> ?A" "ae_params_json ev2 \<in> ?A" "chain_input ?p ev \<in> ?A" "chain_input ?q ev2 \<in> ?A"
    by (simp_all add: hashed_append e(1))
  have ph: "ae_params_hash ev = compute_params_hash H (ae_params_json ev)"
    "ae_params_hash ev2 = compute_params_hash H (ae_params_json ev2)"
    using snoc.prems(2,3) by (simp_all add: chain_links_append e(1))
  have "sha512_hex H (chain_input ?p ev) = sha512_hex H (chain_input ?q ev2)"
    using snoc.prems(4) by (simp add: e(1) next_hash_def)
  then have "chain_input ?p ev = chain_input ?q ev2" by (rule sha_inject [OF snoc.prems(5) mem(3,4)])
  moreover have "(plain ?p \<and> plain ?q) \<or> ?p = ?q"
    using e(2) head_plain [of evs H g] head_plain [of evs2 H g] by (cases "evs = []"; cases "evs2 = []") simp_all
  ultimately have eq: "?p = ?q \<and> ae_params_hash ev = ae_params_hash ev2 \<and> ae_sequence ev = ae_sequence ev2 \<and> ae_action ev = ae_action ev2"
    by (intro chain_input_inject) (simp_all add: ph)
  then have "ae_params_json ev = ae_params_json ev2"
    using ph sha_inject [OF snoc.prems(5) mem(1,2)] by (simp add: compute_params_hash_def)
  moreover have "map covered evs = map covered evs2"
  proof (rule snoc.IH [OF e(2)])
    show "chain_links H g evs" "chain_links H g evs2" using snoc.prems(2,3) by (simp_all add: chain_links_append e(1))
    show "?p = ?q" using eq by simp
    show "inj_on H (hashed H g evs \<union> hashed H g evs2)"
      by (rule inj_on_subset [OF snoc.prems(5)]) (auto simp: hashed_append e(1))
  qed
  moreover have "covered ev = covered ev2"
    using eq \<open>ae_params_json ev = ae_params_json ev2\<close> by (simp add: covered_def)
  ultimately show ?case by (simp add: e(1))
qed simp

text \<open>The events a reader takes from a file.\<close>

definition line_event :: "bytes \<Rightarrow> AuditEvent option" where
  "line_event l = (if l = [] then None else map_option (\<lambda>(ev, json). ev\<lparr>ae_params_json := json\<rparr>) (parse_event_line l))"

definition file_genesis :: "bytes \<Rightarrow> bytes" where
  "file_genesis text = drop 8 (hd (lines_of text))"

definition file_events :: "bytes \<Rightarrow> AuditEvent list" where
  "file_events text = List.map_filter line_event (tl (lines_of text))"

definition file_head :: "(bytes \<Rightarrow> bytes) \<Rightarrow> bytes \<Rightarrow> bytes" where
  "file_head H text = chain_head H (file_genesis text) (file_events text)"

definition file_inputs :: "(bytes \<Rightarrow> bytes) \<Rightarrow> bytes \<Rightarrow> bytes set" where
  "file_inputs H text = hashed H (file_genesis text) (file_events text)"

lemma parse_no_params: "parse_event_line l = Some (ev, json) \<Longrightarrow> ae_params_json ev = []"
  by (auto simp: parse_event_line_def split: option.splits list.splits)

lemma verify_lines_links: "verify_lines H ls g \<Longrightarrow> chain_links H g (List.map_filter line_event ls)"
proof (induction ls arbitrary: g)
  case (Cons l ls)
  show ?case
  proof (cases "l = []")
    case False
    with Cons.prems obtain ev json where p: "parse_event_line l = Some (ev, json)"
      by (auto split: option.splits)
    have "next_hash H g (ev\<lparr>ae_params_json := json\<rparr>) = next_hash H g ev" by simp
    with Cons False p show ?thesis by (simp add: line_event_def map_filter_simps split: if_splits)
  qed (use Cons in \<open>simp add: line_event_def map_filter_simps\<close>)
qed (simp add: map_filter_simps)

lemma verify_chain_links: "verify_chain H (Some text) = Ok True \<Longrightarrow> chain_links H (file_genesis text) (file_events text)"
  by (auto simp: verify_chain_def file_genesis_def file_events_def verify_lines_links split: list.splits if_splits)

text \<open>
  C8. The chain binds the history: two files that verify and agree in their first line, in the
  number of events and in the hash behind the last event hold the same numbers, actions and
  parameters, unless two different texts that were hashed for them have the same digest.
\<close>

theorem audit_chain_binds:
  assumes "verify_chain H (Some f) = Ok True" "verify_chain H (Some f') = Ok True"
    and "file_genesis f = file_genesis f'" "length (file_events f) = length (file_events f')"
    and "file_head H f = file_head H f'" "inj_on H (file_inputs H f \<union> file_inputs H f')"
  shows "map covered (file_events f) = map covered (file_events f')"
  using chain_binds [OF assms(4), of H "file_genesis f"] verify_chain_links [OF assms(1)]
    verify_chain_links [OF assms(2)] assms(3,5,6)
  by (simp add: file_head_def file_inputs_def)

lemma render_read:
  assumes "plain g" "chain_ok H g evs"
  shows "verify_chain H (Some (render g evs)) = Ok True" "file_genesis (render g evs) = g" "file_events (render g evs) = evs"
proof -
  have w: "list_all (well_formed H) evs" using assms(2) by (rule chain_ok_well_formed)
  note l = lines_of_render [OF assms(1) w]
  show "verify_chain H (Some (render g evs)) = Ok True"
    using verify_chain_lines [OF assms(2)] plain_genesis(2) l by (simp add: verify_chain_def)
  show "file_genesis (render g evs) = g"
    using plain_genesis(2) by (simp add: file_genesis_def l)
  have "List.map_filter line_event (map event_line evs) = evs"
    using w event_line_one_line [of H] parse_event_line [of H]
    by (induction evs) (simp_all add: map_filter_simps line_event_def)
  then show "file_events (render g evs) = evs" by (simp add: file_events_def l)
qed

definition sample_event :: "bytes \<Rightarrow> AuditEvent" where
  "sample_event actor = \<lparr>ae_sequence = 1, ae_action = CmdExec, ae_actor = actor, ae_target = str ''host'',
     ae_params_json = str ''{}'', ae_timestamp_ns = 5, ae_prev_hash = str ''00'',
     ae_params_hash = compute_params_hash (\<lambda>x. x) (str ''{}'')\<rparr>"

lemma sample_ok: "plain actor \<Longrightarrow> chain_ok (\<lambda>x. x) (str ''00'') [sample_event actor]"
  by (simp add: sample_event_def well_formed_def word_unat_eq_iff)

lemma sample_plain: "plain (str ''00'')" "plain (str ''alice'')" "plain (str ''bob'')"
  by (simp_all add: word_unat_eq_iff)

lemma audit_chain_binds_witness:
  "let f = render (str ''00'') [sample_event (str ''alice'')]; f' = render (str ''00'') [sample_event (str ''bob'')] in
   map covered (file_events f) = map covered (file_events f') \<and> map ae_actor (file_events f) \<noteq> map ae_actor (file_events f')"
proof -
  note a = render_read [OF sample_plain(1) sample_ok [OF sample_plain(2)]]
  note b = render_read [OF sample_plain(1) sample_ok [OF sample_plain(3)]]
  have h: "file_head (\<lambda>x. x) (render (str ''00'') [sample_event (str ''alice'')]) =
      file_head (\<lambda>x. x) (render (str ''00'') [sample_event (str ''bob'')])"
    unfolding file_head_def a b by (simp add: next_hash_def chain_input_def sample_event_def)
  have "map covered [sample_event (str ''alice'')] = map covered [sample_event (str ''bob'')]"
    using audit_chain_binds [OF a(1) b(1) _ _ h] by (simp only: a(2,3) b(2,3)) simp
  then show ?thesis unfolding Let_def a b by (simp add: sample_event_def)
qed

section \<open>What the chain does not bind\<close>

lemma chain_ok_rewrite:
  assumes "chain_ok H g evs" "\<And>ev. plain (actor ev) \<and> plain (target ev) \<and> - (2 ^ 63) \<le> t ev \<and> t ev < 2 ^ 63"
  shows "chain_ok H g (map (\<lambda>ev. ev\<lparr>ae_actor := actor ev, ae_target := target ev, ae_timestamp_ns := t ev\<rparr>) evs)"
  using assms
proof (induction evs arbitrary: g)
  case (Cons ev evs)
  have "next_hash H g (ev\<lparr>ae_actor := actor ev, ae_target := target ev, ae_timestamp_ns := t ev\<rparr>) = next_hash H g ev"
    by (simp add: next_hash_def chain_input_def)
  with Cons show ?case by (auto simp: well_formed_def)
qed simp

lemma chain_ok_take: "chain_ok H g evs \<Longrightarrow> chain_ok H g (take n evs)"
  by (induction evs arbitrary: g n) (auto simp: take_Cons split: nat.splits)

text \<open>
  What the chain does not protect: in a log the logger wrote, anyone can cut off the newest
  events and rewrite who did what to whom and when in the others; the result still verifies.
\<close>

theorem audit_unprotected_fields:
  assumes "log_holds H g evs st"
    and "\<And>ev. plain (actor ev) \<and> plain (target ev) \<and> - (2 ^ 63) \<le> t ev \<and> t ev < 2 ^ 63"
  shows "verify_chain H (Some (render g (map (\<lambda>ev. ev\<lparr>ae_actor := actor ev, ae_target := target ev,
    ae_timestamp_ns := t ev\<rparr>) (take n evs)))) = Ok True"
proof -
  let ?evs = "map (\<lambda>ev. ev\<lparr>ae_actor := actor ev, ae_target := target ev, ae_timestamp_ns := t ev\<rparr>) (take n evs)"
  have c: "plain g" "chain_ok H g ?evs"
    using assms chain_ok_rewrite chain_ok_take by (auto simp: log_holds_def)
  then show ?thesis by (rule render_read(1))
qed

lemma audit_unprotected_fields_witness:
  "let H = (\<lambda>x. x); st = audit_open H [] 0 True IO_ok None; g = al_prev_hash (fst st);
       ev = fresh_event H (fst st) CmdExec (str ''alice'') (str ''host'') [] 5 in
   verify_chain H (Some (render g [ev\<lparr>ae_actor := str ''bob'', ae_target := str ''x'', ae_timestamp_ns := 0\<rparr>])) = Ok True"
proof -
  let ?H = "\<lambda>x :: bytes. x"
  let ?st = "audit_open ?H [] 0 True IO_ok None"
  have fs: "snd ?st = snd ?st" ..
  have h: "log_holds ?H (al_prev_hash (fst ?st)) [] (fst ?st, snd ?st)"
    using log_holds_new [of ?H "[]" 0] by (simp add: log_holds_def)
  obtain r st' where app: "audit_append ?H True IO_ok 5 CmdExec (str ''alice'') (str ''host'') [] (fst ?st, snd ?st) = (r, st')"
    by (cases "audit_append ?H True IO_ok 5 CmdExec (str ''alice'') (str ''host'') [] (fst ?st, snd ?st)") auto
  have "log_holds ?H (al_prev_hash (fst ?st)) [fresh_event ?H (fst ?st) CmdExec (str ''alice'') (str ''host'') [] 5] st'"
    using log_holds_append [OF h _ _ _ _ _ app] by (simp add: word_unat_eq_iff)
  from audit_unprotected_fields [OF this, of "\<lambda>_. str ''bob''" "\<lambda>_. str ''x''" "\<lambda>_. 0" 1] show ?thesis
    by (simp add: Let_def word_unat_eq_iff)
qed

text \<open>
  A failed write breaks the log: when the stream reports an error and nothing was written,
  the logger takes back the number but not the hash, so the next append, which succeeds, leaves a
  file that no longer verifies (unless the hash function maps its input to the previous hash).
\<close>

theorem audit_failed_append:
  assumes "log_holds H g evs (a, f)"
    and "audit_append H True (IO_bad 0) now act actor target params (a, f) = (r1, a1, f1)"
    and "audit_append H True IO_ok now' act' actor' target' params' (a1, f1) = (r2, a2, f2)"
    and "plain actor'" "plain target'" "newline \<notin> set params'" "- (2 ^ 63) \<le> now'" "now' < 2 ^ 63"
    and "next_hash H (al_prev_hash a) (fresh_event H a act actor target params now) \<noteq> al_prev_hash a"
  shows "r1 = Err EC_INTERNAL \<and> r2 = Ok (al_seq a + 1) \<and> verify_chain H f2 = Ok False"
proof -
  let ?ev1 = "fresh_event H a act actor target params now"
  let ?h = "next_hash H (al_prev_hash a) ?ev1"
  have a: "al_prev_hash a = chain_head H g evs" "f = Some (render g evs)" "plain g" "chain_ok H g evs"
    using assms(1) by (simp_all add: log_holds_def)
  have 1: "r1 = Err EC_INTERNAL" "a1 = a\<lparr>al_prev_hash := ?h\<rparr>" "f1 = f"
    using assms(2) a(2) by (auto simp: audit_append_def Let_def write_tail_def fresh_event_def)
  let ?ev2 = "fresh_event H a1 act' actor' target' params' now'"
  have 2: "r2 = Ok (al_seq a + 1)" "f2 = Some (render g evs @ event_line ?ev2 @ [newline])"
    using assms(3) a(2) 1 by (auto simp: audit_append_def Let_def write_tail_def fresh_event_def)
  have w: "well_formed H ?ev2" using assms(4-8) 1 by (simp add: well_formed_def fresh_event_def)
  have "lines_of (event_line ?ev2 @ [newline]) = [event_line ?ev2]"
    using lines_of_line [of "event_line ?ev2" "[]"] event_line_one_line [OF w] by simp
  moreover have "ae_prev_hash ?ev2 = ?h" using 1 by (simp add: fresh_event_def)
  ultimately have "verify_chain H f2 = Ok False"
    using verify_render_append [OF a(3,4), of "event_line ?ev2 @ [newline]"] 2 a(1) assms(9) event_line_one_line [OF w]
      parse_event_line [OF w] by simp
  with 1 2 show ?thesis by simp
qed

lemma audit_failed_append_witness:
  "let H = (\<lambda>x. x); st0 = audit_open H [] 0 True IO_ok None;
       (r1, st1) = audit_append H True (IO_bad 0) 5 CmdExec (str ''alice'') (str ''host'') [] st0;
       (r2, st2) = audit_append H True IO_ok 6 CmdExec (str ''alice'') (str ''host'') [] st1 in
   r1 = Err EC_INTERNAL \<and> r2 = Ok 1 \<and> verify_chain H (snd st2) = Ok False"
proof -
  let ?H = "\<lambda>x :: bytes. x"
  obtain a f where st0: "audit_open ?H [] 0 True IO_ok None = (a, f)" by fastforce
  obtain r1 a1 f1 where 1: "audit_append ?H True (IO_bad 0) 5 CmdExec (str ''alice'') (str ''host'') [] (a, f) = (r1, a1, f1)"
    using prod_cases3 by blast
  obtain r2 a2 f2 where 2: "audit_append ?H True IO_ok 6 CmdExec (str ''alice'') (str ''host'') [] (a1, f1) = (r2, a2, f2)"
    using prod_cases3 by blast
  have h: "log_holds ?H (al_prev_hash a) [] (a, f)" and z: "al_seq a = 0"
    using log_holds_new [of ?H "[]" 0] st0 by (simp_all add: log_holds_def)
  have "length (next_hash ?H p ev) > length p" for p ev
    by (simp add: next_hash_def sha512_hex_def chain_input_def)
  then have ne: "next_hash ?H p ev \<noteq> p" for p ev by (metis less_irrefl)
  have "r1 = Err EC_INTERNAL \<and> r2 = Ok (al_seq a + 1) \<and> verify_chain ?H f2 = Ok False"
    by (rule audit_failed_append [OF h 1 2 _ _ _ _ _ ne]) (simp_all add: word_unat_eq_iff)
  then show ?thesis unfolding Let_def st0 prod.case 1 2 by (simp add: z)
qed

text \<open>A write that is lost when the stream is closed is reported as a success.\<close>

lemma lost_append_reported_ok:
  "audit_append H True (IO_lost 0) now act actor target params (a, Some text) = (r, a', f') \<Longrightarrow> r = Ok (al_seq a + 1) \<and> f' = Some text"
  by (auto simp: audit_append_def Let_def write_tail_def)

text \<open>
  Parameters with a line end break the log: the append succeeds and the file no longer verifies
  (unless the hash function maps the first line of the parameters to the hash of them all).
\<close>

lemma audit_newline_breaks:
  assumes "log_holds H g evs (a, f)" "plain actor" "plain target" "newline \<notin> set p1" "- (2 ^ 63) \<le> now" "now < 2 ^ 63"
    and "audit_append H True IO_ok now act actor target (p1 @ newline # p2) (a, f) = (r, a', f')"
    and "compute_params_hash H p1 \<noteq> compute_params_hash H (p1 @ newline # p2)"
  shows "r = Ok (al_seq a + 1) \<and> verify_chain H f' = Ok False"
proof -
  let ?ev = "fresh_event H a act actor target (p1 @ newline # p2) now"
  let ?l = "event_line (?ev\<lparr>ae_params_json := p1\<rparr>)"
  have a: "al_prev_hash a = chain_head H g evs" "f = Some (render g evs)" "plain g" "chain_ok H g evs"
    using assms(1) by (simp_all add: log_holds_def)
  have f': "r = Ok (al_seq a + 1)" "f' = Some (render g evs @ ?l @ newline # p2 @ [newline])"
    using assms(7) a(2) by (auto simp: audit_append_def Let_def write_tail_def fresh_event_def event_line_def)
  have "plain (al_prev_hash a)" using a plain_chain_head by simp
  then have cut: "cut_fields 7 ?l = Some ([dec_u64 (al_seq a + 1), action_name act, actor, target, dec_int now, al_prev_hash a,
      compute_params_hash H (p1 @ newline # p2)], p1)"
    using assms(2,3) by (simp add: event_line_def fresh_event_def cut_field numeral_eq_Suc del: cut_fields.simps(2))
  then have parse: "parse_event_line ?l = Some (?ev\<lparr>ae_params_json := []\<rparr>, p1)"
    using assms(5,6) by (simp add: parse_event_line_def stoull_dec stoll_dec fresh_event_def)
  have ne: "?l \<noteq> []" using cut by (auto simp: event_line_def)
  have "newline \<notin> set ?l"
    using assms(2-4) \<open>plain (al_prev_hash a)\<close> plain_dec_u64 [of "al_seq a + 1"] plain_action_name [of act] plain_dec_int [of now]
      plain_params_hash [of H "p1 @ newline # p2"]
    by (auto simp: event_line_def fresh_event_def plain_def)
  then have "lines_of (?l @ newline # p2 @ [newline]) = ?l # lines_of (p2 @ [newline])" by (rule lines_of_line)
  then have "\<not> verify_lines H (lines_of (?l @ newline # p2 @ [newline])) (chain_head H g evs)"
    using parse ne a(1) assms(8) by (simp add: fresh_event_def)
  then show ?thesis using f' verify_render_append [OF a(3,4)] by simp
qed

end
