(* ===== verification/Audit_Sharing.thy ===== *)
theory Audit_Sharing
  imports Audit_Log
begin

text \<open>
  Several loggers over one file (\<open>src/audit/audit.cpp\<close>). Each keeps the last number and the last
  hash in its own memory, read from the file when it is opened; the mutex is the logger's own, and
  nothing locks the file. Every process that uses the client has a logger of its own.

  Shown: as long as every append is made by a logger that has opened the file or appended to it
  since the last append of any other, the log stays complete and verifies; the first append of a
  logger that is behind succeeds, uses a number a second time and spoils the log for good.
\<close>

section \<open>A schedule of loggers\<close>

datatype share_op = Sh_open nat | Sh_append nat ActionType bytes bytes bytes int

type_synonym shared_log = "(nat \<Rightarrow> audit) \<times> bytes option"

fun share_step :: "(bytes \<Rightarrow> bytes) \<Rightarrow> share_op \<Rightarrow> shared_log \<Rightarrow> shared_log" where
  "share_step H (Sh_open i) (ls, file) = (case audit_open H [] 0 True IO_ok file of (a, file) \<Rightarrow> (ls(i := a), file))"
| "share_step H (Sh_append i action actor target params now) (ls, file) =
     (case audit_append H True IO_ok now action actor target params (ls i, file) of (_, a, file) \<Rightarrow> (ls(i := a), file))"

text \<open>\<open>F\<close> are the loggers that are up to date; every append is made by one of them.\<close>

fun fresh_run :: "nat set \<Rightarrow> share_op list \<Rightarrow> bool" where
  "fresh_run F [] = True"
| "fresh_run F (Sh_open i # ops) = fresh_run (insert i F) ops"
| "fresh_run F (Sh_append i action actor target params now # ops) = (i \<in> F \<and> fresh_run {i} ops)"

fun share_plain :: "share_op \<Rightarrow> bool" where
  "share_plain (Sh_open i) = True"
| "share_plain (Sh_append i action actor target params now) = op_plain (AO_append action actor target params now)"

fun share_record :: "share_op \<Rightarrow> (ActionType \<times> bytes \<times> bytes \<times> bytes \<times> int) list" where
  "share_record (Sh_open i) = []"
| "share_record (Sh_append i action actor target params now) = op_record (AO_append action actor target params now)"

lemma share_run_holds:
  assumes "log_holds H g evs (a, f)" "\<And>i. i \<in> F \<Longrightarrow> ls i = a" "fresh_run F ops" "list_all share_plain ops"
  shows "\<exists>evs' a'. log_holds H g evs' (a', snd (fold (share_step H) ops (ls, f))) \<and>
    map event_record evs' = map event_record evs @ concat (map share_record ops)"
  using assms
proof (induction ops arbitrary: evs a ls f F)
  case (Cons op ops)
  show ?case
  proof (cases op)
    case (Sh_open i)
    have o: "audit_open H [] 0 True IO_ok f = (a, f)" using log_holds_reopen [OF Cons.prems(1)] by simp
    have "(ls(i := a)) j = a" if "j \<in> insert i F" for j using that Cons.prems(2) by auto
    moreover have "fresh_run (insert i F) ops" "list_all share_plain ops" using Cons.prems(3,4) Sh_open by simp_all
    ultimately show ?thesis using Cons.IH [OF Cons.prems(1), of "insert i F" "ls(i := a)"] Sh_open o by (simp add: fun_upd_def)
  next
    case (Sh_append i action actor target params now)
    with Cons.prems(2,3) have i: "ls i = a" "fresh_run {i} ops" by simp_all
    let ?ev = "fresh_event H a action actor target params now"
    obtain r a1 f1 where app: "audit_append H True IO_ok now action actor target params (a, f) = (r, a1, f1)"
      using prod_cases3 by blast
    have h: "log_holds H g (evs @ [?ev]) (a1, f1)"
      using log_holds_append [OF Cons.prems(1) _ _ _ _ _ app] Cons.prems(4) Sh_append by simp
    have "(ls(i := a1)) j = a1" if "j \<in> {i}" for j using that by simp
    moreover have "list_all share_plain ops" using Cons.prems(4) by simp
    ultimately show ?thesis using Cons.IH [OF h, of "{i}" "ls(i := a1)"] i Sh_append app
      by (simp add: event_record_def fresh_event_def fun_upd_def)
  qed
qed auto

text \<open>From a new file, any schedule in which every append is made by an up-to-date logger.\<close>

theorem audit_shared_log:
  assumes "fresh_run {0} ops" "list_all share_plain ops" "audit_open H rnd now True IO_ok None = (a, file)"
  shows "let st = fold (share_step H) ops (\<lambda>_. a, file) in
    verify_chain H (snd st) = Ok True \<and> file_records (snd st) = Some (concat (map share_record ops))"
proof -
  have "log_holds H (sha512_hex H (genesis_seed rnd now)) [] (a, file)" using log_holds_new [of H rnd now] assms(3) by simp
  from share_run_holds [OF this _ assms(1,2), of "\<lambda>_. a"] obtain evs' a' where h:
    "log_holds H (sha512_hex H (genesis_seed rnd now)) evs' (a', snd (fold (share_step H) ops (\<lambda>_. a, file)))"
    "map event_record evs' = concat (map share_record ops)" by auto
  then show ?thesis using log_holds_verifies [OF h(1)] log_holds_records [OF h(1)] by simp
qed

section \<open>A logger that is behind\<close>

text \<open>\<open>b\<close> was up to date when the log had \<open>n\<close> events.\<close>

definition behind :: "(bytes \<Rightarrow> bytes) \<Rightarrow> bytes \<Rightarrow> AuditEvent list \<Rightarrow> nat \<Rightarrow> audit \<Rightarrow> bool" where
  "behind H g evs n b = (n < length evs \<and> al_seq b = of_nat n \<and> al_prev_hash b = chain_head H g (take n evs))"

lemma verify_lines_stale:
  assumes "well_formed H ev" "ae_prev_hash ev \<noteq> prev"
  shows "\<not> verify_lines H (event_line ev # ls) prev"
  using assms event_line_one_line [OF assms(1)] parse_event_line [OF assms(1)] by simp

text \<open>
  C40. A logger that is behind spoils the log: its append is reported as a success with a number that
  has been given out before, and from then on the file does not verify, whatever is appended to it
  later. The hypothesis on the two hashes excludes a cycle in the chain.
\<close>

theorem audit_stale_logger:
  assumes "log_holds H g evs (a, Some text)" "behind H g evs n b" "chain_head H g (take n evs) \<noteq> chain_head H g evs"
    and "op_plain (AO_append action actor target params now)"
    and "audit_append H True IO_ok now action actor target params (b, Some text) = (r, b', Some text')"
  shows "r = Ok (of_nat (Suc n)) \<and> n < length evs \<and> (\<forall>later. verify_chain H (Some (text' @ later)) = Ok False)"
proof -
  let ?ev = "fresh_event H b action actor target params now"
  have a: "text = render g evs" "plain g" "chain_ok H g evs" using assms(1) by (simp_all add: log_holds_def)
  have b: "al_seq b = of_nat n" "al_prev_hash b = chain_head H g (take n evs)" "n < length evs"
    using assms(2) by (simp_all add: behind_def)
  have r: "r = Ok (al_seq b + 1)" "text' = text @ event_line ?ev @ [newline]"
    using assms(5) by (auto simp: audit_append_def Let_def fresh_event_def write_tail_def)
  have w: "well_formed H ?ev"
    using assms(4) b(2) plain_chain_head [OF a(2)] by (simp add: well_formed_def fresh_event_def)
  have "verify_chain H (Some (text' @ later)) = Ok False" for later
  proof -
    have "lines_of (event_line ?ev @ newline # later) = event_line ?ev # lines_of later"
      using event_line_one_line [OF w] by (intro lines_of_line) simp
    moreover have "\<not> verify_lines H (event_line ?ev # lines_of later) (chain_head H g evs)"
      by (rule verify_lines_stale [OF w]) (use b(2) assms(3) in \<open>simp add: fresh_event_def\<close>)
    ultimately show ?thesis
      using verify_render_append [OF a(2,3), of "event_line ?ev @ newline # later"] a(1) r(2) by simp
  qed
  with r(1) b(1,3) show ?thesis by simp
qed

lemma audit_stale_logger_witness:
  "let H = (\<lambda>x. x); (b, file) = audit_open H [] 0 True IO_ok None;
       (r1, a, file) = audit_append H True IO_ok 5 CmdExec (str ''alice'') (str ''host'') [] (b, file);
       (r2, b, file) = audit_append H True IO_ok 6 FileTransfer (str ''bob'') (str ''host'') [] (b, file) in
   r1 = Ok 1 \<and> r2 = Ok 1 \<and> verify_chain H file = Ok False"
proof -
  let ?H = "\<lambda>x :: bytes. x"
  let ?g = "sha512_hex ?H (genesis_seed [] 0)"
  obtain b f where st0: "audit_open ?H [] 0 True IO_ok None = (b, f)" by fastforce
  let ?ev = "fresh_event ?H b CmdExec (str ''alice'') (str ''host'') [] 5"
  obtain r1 a f1 where 1: "audit_append ?H True IO_ok 5 CmdExec (str ''alice'') (str ''host'') [] (b, f) = (r1, a, f1)"
    using prod_cases3 by blast
  have h0: "log_holds ?H ?g [] (b, f)" using log_holds_new [of ?H "[]" 0] st0 by simp
  have h1: "r1 = Ok 1" "log_holds ?H ?g [?ev] (a, f1)"
    using log_holds_append [OF h0 _ _ _ _ _ 1] by (simp_all add: word_unat_eq_iff)
  then obtain t1 where f1: "f1 = Some t1" by (simp add: log_holds_def)
  obtain r2 b' f2 where 2: "audit_append ?H True IO_ok 6 FileTransfer (str ''bob'') (str ''host'') [] (b, Some t1) = (r2, b', f2)"
    using prod_cases3 by blast
  then obtain t2 where f2: "f2 = Some t2" by (auto simp: audit_append_def Let_def)
  have z: "behind ?H ?g [?ev] 0 b" using h0 by (simp add: behind_def log_holds_def)
  have "length (next_hash ?H p ev) > length p" for p ev by (simp add: next_hash_def sha512_hex_def chain_input_def)
  then have ne: "next_hash ?H p ev \<noteq> p" for p ev by (metis less_irrefl)
  have "chain_head ?H ?g (take 0 [?ev]) \<noteq> chain_head ?H ?g [?ev]"
    unfolding take_0 chain_head_simps(1,2) by (rule ne [symmetric])
  moreover have "op_plain (AO_append FileTransfer (str ''bob'') (str ''host'') [] 6)" by (simp add: word_unat_eq_iff)
  ultimately have "r2 = Ok (of_nat (Suc 0)) \<and> 0 < length [?ev] \<and> (\<forall>later. verify_chain ?H (Some (t2 @ later)) = Ok False)"
    using audit_stale_logger [OF h1(2) [unfolded f1] z _ _ 2 [unfolded f2]] by blast
  then have r: "r2 = Ok (of_nat (Suc 0))" "\<And>later. verify_chain ?H (Some (t2 @ later)) = Ok False" by blast+
  have "verify_chain ?H f2 = Ok False" using r(2) [of "[]"] by (simp only: f2 append_Nil2)
  with h1(1) r(1) show ?thesis unfolding Let_def st0 prod.case 1 f1 2 by (simp only: of_nat_1 One_nat_def [symmetric] simp_thms)
qed

end
