(* ===== verification/File_Xfer.thy ===== *)
theory File_Xfer
  imports Nodes "HOL-Library.Sublist"
begin

text \<open>
  \<open>src/ability_c/nodes/\<close>: the file node, the heartbeat node and the network node. The file
  system is a map from names to contents; whether a file opens and how much a write stores are
  arguments of each operation.

  Shown: a file sent in blocks is put together from the blocks in whatever order, overlap or
  repetition they come, but an old tail stays; files outside the configured roots are not written; a
  short write is acknowledged.
\<close>

section \<open>FileXferNode\<close>

record file_node = worker_node +
  fn_in :: "FileChunk input_port"
  fn_out :: output_port
  fn_inputs :: "PortInfo list"
  fn_outputs :: "PortInfo list"
  fn_allowed_roots :: "string list"

definition file_node_new :: file_node where
  "file_node_new =
     (let i = input_port_new ''chunk_in'' ''FileChunk'' 16 1;
          out = output_port_new \<lparr>pi_name = ''ack_out'', pi_type_index = ''FileAck'', pi_schema_version = 1, pi_is_input = False\<rparr> None in
      worker_node.extend (worker_node_new ''file_xfer'') (file_node.fields i out [ip_info i] [op_info out] []))"

definition set_allowed_paths :: "string list \<Rightarrow> file_node \<Rightarrow> file_node" where
  "set_allowed_paths roots n = n\<lparr>fn_allowed_roots := roots\<rparr>"

text \<open>\<open>p.find("..") != npos\<close>.\<close>

fun has_dotdot :: "string \<Rightarrow> bool" where
  "has_dotdot (a # b # s) = (a = CHR ''.'' \<and> b = CHR ''.'' \<or> has_dotdot (b # s))"
| "has_dotdot _ = False"

definition path_allowed :: "string list \<Rightarrow> string \<Rightarrow> bool" where
  "path_allowed allowed_roots p =
     (if p = [] then False
      else if has_dotdot p then False
      else if allowed_roots = [] then True
      else list_ex (\<lambda>root. length root \<le> length p \<and> take (length root) p = root) allowed_roots)"




text \<open>The prefix is a prefix of characters, not of directories.\<close>

lemma path_allowed_sibling: "path_allowed [''/data''] ''/database/passwords''"
  by (simp add: path_allowed_def)

type_synonym files = "string \<rightharpoonup> bytes"

text \<open>
  \<open>fio_rw\<close>: an existing file opens for update; \<open>fio_create\<close>: the file opens for writing from
  scratch; \<open>fio_written\<close>: how many bytes \<open>fwrite\<close> can store.
\<close>

record file_io =
  fio_rw :: bool
  fio_create :: bool
  fio_written :: nat

definition open_file :: "file_io \<Rightarrow> string \<Rightarrow> files \<Rightarrow> files option" where
  "open_file io name fs =
     (if fs name \<noteq> None \<and> fio_rw io then Some fs
      else if fio_create io then Some (fs(name \<mapsto> [])) else None)"

text \<open>The offset is converted to a signed \<open>long\<close>; \<open>fseek\<close> refuses a negative one.\<close>

definition write_block :: "string list \<Rightarrow> file_io \<Rightarrow> string \<Rightarrow> u64 \<Rightarrow> bytes \<Rightarrow> files \<Rightarrow> int \<times> files" where
  "write_block roots io path offset data fs =
     (if \<not> path_allowed roots path then (- 1, fs)
      else case open_file io (c_str path) fs of
        None \<Rightarrow> (- 1, fs)
      | Some fs \<Rightarrow>
          if sint offset < 0 then (- 1, fs)
          else let n = min (fio_written io) (length data) in
            (int n, if n = 0 then fs
               else fs(c_str path \<mapsto> store_at (unat offset) (take n data) (the (fs (c_str path))))))"

definition file_handle :: "string list \<Rightarrow> file_io \<Rightarrow> FileChunk \<Rightarrow> files \<Rightarrow> FileAck \<times> files" where
  "file_handle roots io chunk fs =
     (let ack = \<lparr>fa_path = fc_path chunk, fa_offset = fc_offset chunk, fa_ok = True\<rparr> in
      if \<not> path_allowed roots (fc_path chunk) then (ack\<lparr>fa_ok := False\<rparr>, fs)
      else case write_block roots io (fc_path chunk) (fc_offset chunk) (fc_data chunk) fs of
        (n, fs) \<Rightarrow> (if n < 0 then ack\<lparr>fa_ok := False\<rparr> else ack, fs))"

definition file_worker where
  "file_worker its n fs ports = worker_loop (file_handle (fn_allowed_roots n)) (fn_out n) its (fn_in n, fs, ports)"

subsection \<open>Only allowed paths\<close>


















subsection \<open>Putting a file together\<close>

lemma length_store_at: "length (store_at off bs c) = max (length c) (off + length bs)"
  by (simp add: store_at_def)

lemma nth_store_at:
  "i < length (store_at off bs c) \<Longrightarrow> store_at off bs c ! i =
    (if off \<le> i \<and> i < off + length bs then bs ! (i - off) else if i < length c then c ! i else 0)"
  by (cases "off \<le> length c") (auto simp: store_at_def nth_append min_def)

text \<open>
  \<open>C\<close> is the set of positions at which \<open>c\<close> already agrees with the whole file; what lies behind the
  end of the whole file is as in \<open>old\<close>.
\<close>

definition partly :: "bytes \<Rightarrow> bytes \<Rightarrow> nat set \<Rightarrow> bytes \<Rightarrow> bool" where
  "partly whole old C c = (drop (length whole) c = drop (length whole) old \<and> C \<subseteq> {i. i < length c \<and> c ! i = whole ! i})"

lemma partly_complete:
  assumes "partly whole old {..<length whole} c"
  shows "c = whole @ drop (length whole) old"
proof -
  have "length whole \<le> length c"
  proof (cases "length whole")
    case (Suc n)
    then have "n \<in> {..<length whole}" by simp
    with assms Suc show ?thesis by (auto simp: partly_def)
  qed simp
  then have "take (length whole) c = whole"
    using assms by (intro nth_equalityI) (auto simp: partly_def)
  then show ?thesis using assms by (metis append_take_drop_id partly_def)
qed

lemma partly_store:
  assumes "partly whole old C c" "off + n \<le> length whole" "n \<noteq> 0"
  shows "partly whole old (C \<union> {off..<off + n}) (store_at off (slice off n whole) c)"
proof -
  have len: "length (slice off n whole) = n" using assms(2) by simp
  have "store_at off (slice off n whole) c ! i = whole ! i" if "off \<le> i" "i < off + n" for i
    using that assms(2) len by (simp add: nth_store_at length_store_at nth_slice)
  moreover have "store_at off (slice off n whole) c ! i = c ! i" if "i < length c" "\<not> (off \<le> i \<and> i < off + n)" for i
    using that len by (auto simp: nth_store_at length_store_at)
  ultimately have "x < length (store_at off (slice off n whole) c) \<and> store_at off (slice off n whole) c ! x = whole ! x"
    if "x \<in> C \<union> {off..<off + n}" for x
    using assms(1) that len by (cases "off \<le> x \<and> x < off + n") (auto simp: partly_def length_store_at)
  moreover have "drop (length whole) (store_at off (slice off n whole) c) = drop (length whole) c"
    using assms(2) len by (intro nth_equalityI) (auto simp: length_store_at nth_store_at)
  ultimately show ?thesis using assms(1) by (auto simp: partly_def)
qed

text \<open>A chunk that carries a part of \<open>whole\<close> for \<open>path\<close>, and a file system that does what it is asked.\<close>

definition chunk_of :: "bytes \<Rightarrow> string \<Rightarrow> FileChunk \<Rightarrow> bool" where
  "chunk_of whole path chunk = (fc_path chunk = path \<and> unat (fc_offset chunk) < 2 ^ 63 \<and>
     unat (fc_offset chunk) + length (fc_data chunk) \<le> length whole \<and>
     slice (unat (fc_offset chunk)) (length (fc_data chunk)) whole = fc_data chunk)"

definition io_good :: "file_io \<Rightarrow> FileChunk \<Rightarrow> bool" where
  "io_good io chunk = (fio_rw io \<and> fio_create io \<and> length (fc_data chunk) \<le> fio_written io)"

definition covers :: "(file_io \<times> FileChunk) list \<Rightarrow> nat set" where
  "covers served = (\<Union>(io, chunk) \<in> set served. {unat (fc_offset chunk)..<unat (fc_offset chunk) + length (fc_data chunk)})"

definition file_content :: "files \<Rightarrow> string \<Rightarrow> bytes" where
  "file_content fs name = (case fs name of None \<Rightarrow> [] | Some c \<Rightarrow> c)"

lemma sint_nonneg: "unat (w :: u64) < 2 ^ 63 \<Longrightarrow> 0 \<le> sint w"
proof -
  assume "unat w < 2 ^ 63"
  then have "int (unat w) < int (2 ^ 63)" by (simp only: of_nat_less_iff)
  then have "uint w < 2 ^ 63" by simp
  then have "signed_take_bit 63 (uint w) = uint w" using uint_ge_0 [of w] by (intro signed_take_bit_int_eq_self) linarith+
  then show ?thesis by (simp add: sint_uint)
qed

lemma file_handle_good:
  assumes "path_allowed roots path" "chunk_of whole path chunk" "io_good io chunk"
    and "partly whole old C (file_content fs (c_str path))"
  shows "\<exists>c. file_handle roots io chunk fs =
      (\<lparr>fa_path = path, fa_offset = fc_offset chunk, fa_ok = True\<rparr>, fs(c_str path \<mapsto> c)) \<and>
    partly whole old (C \<union> {unat (fc_offset chunk)..<unat (fc_offset chunk) + length (fc_data chunk)}) c"
proof -
  let ?off = "unat (fc_offset chunk)"
  let ?old = "file_content fs (c_str path)"
  have o: "open_file io (c_str path) fs = Some (fs(c_str path \<mapsto> ?old))"
    using assms(3) by (cases "fs (c_str path)") (simp_all add: open_file_def io_good_def file_content_def map_upd_triv)
  have s: "\<not> sint (fc_offset chunk) < 0"
    using sint_nonneg [of "fc_offset chunk"] assms(2) by (simp add: chunk_of_def not_less)
  have m: "min (fio_written io) (length (fc_data chunk)) = length (fc_data chunk)"
    using assms(3) by (simp add: io_good_def)
  have p: "fc_path chunk = path" using assms(2) by (simp add: chunk_of_def)
  let ?c = "if fc_data chunk = [] then ?old else store_at ?off (fc_data chunk) ?old"
  have w: "write_block roots io path (fc_offset chunk) (fc_data chunk) fs = (int (length (fc_data chunk)), fs(c_str path \<mapsto> ?c))"
    by (cases "fc_data chunk = []")
      (simp_all only: write_block_def o option.case Let_def m assms(1) s if_True if_False simp_thms
        list.size(3) min_0R take_all order.refl fun_upd_same option.sel fun_upd_upd length_0_conv)
  have "file_handle roots io chunk fs = (\<lparr>fa_path = path, fa_offset = fc_offset chunk, fa_ok = True\<rparr>, fs(c_str path \<mapsto> ?c))"
    unfolding file_handle_def p w Let_def using assms(1) by simp
  moreover have "partly whole old (C \<union> {?off..<?off + length (fc_data chunk)}) ?c"
  proof (cases "fc_data chunk = []")
    case False
    have "slice ?off (length (fc_data chunk)) whole = fc_data chunk" using assms(2) by (simp add: chunk_of_def)
    with partly_store [OF assms(4), of ?off "length (fc_data chunk)"] assms(2) False show ?thesis
      by (simp add: chunk_of_def)
  qed (use assms(4) in simp)
  ultimately show ?thesis by blast
qed

lemma replies_good:
  assumes "path_allowed roots path" "list_all (\<lambda>(io, chunk). chunk_of whole path chunk \<and> io_good io chunk) served"
    and "partly whole old C (file_content fs (c_str path))" "served \<noteq> []"
  shows "\<exists>c. replies (file_handle roots) served fs =
      (map (\<lambda>(io, chunk). \<lparr>fa_path = path, fa_offset = fc_offset chunk, fa_ok = True\<rparr>) served, fs(c_str path \<mapsto> c)) \<and>
    partly whole old (C \<union> covers served) c"
  using assms(2-4)
proof (induction served arbitrary: C fs)
  case (Cons io_chunk served)
  obtain io chunk where r: "io_chunk = (io, chunk)" by (cases io_chunk)
  let ?D = "C \<union> {unat (fc_offset chunk)..<unat (fc_offset chunk) + length (fc_data chunk)}"
  obtain c where c: "file_handle roots io chunk fs =
      (\<lparr>fa_path = path, fa_offset = fc_offset chunk, fa_ok = True\<rparr>, fs(c_str path \<mapsto> c))" "partly whole old ?D c"
    using file_handle_good [OF assms(1), of whole chunk io old C fs] Cons.prems(1,2) r by auto
  show ?case
  proof (cases "served = []")
    case True
    with c show ?thesis by (intro exI [of _ c]) (simp add: r covers_def fun_upd_def)
  next
    case False
    have "partly whole old ?D (file_content (fs(c_str path \<mapsto> c)) (c_str path))" using c(2) by (simp add: file_content_def)
    moreover have "list_all (\<lambda>(io, chunk). chunk_of whole path chunk \<and> io_good io chunk) served"
      using Cons.prems(1) by simp
    ultimately obtain c2 where
      "replies (file_handle roots) served (fs(c_str path \<mapsto> c)) =
        (map (\<lambda>(io, chunk). \<lparr>fa_path = path, fa_offset = fc_offset chunk, fa_ok = True\<rparr>) served, fs(c_str path \<mapsto> c, c_str path \<mapsto> c2))"
      "partly whole old (?D \<union> covers served) c2" using Cons.IH False by blast
    moreover have "?D \<union> covers served = C \<union> covers (io_chunk # served)" by (auto simp: covers_def r)
    ultimately show ?thesis
      by (intro exI [of _ c2]) (simp only: r replies.simps c(1) prod.case fun_upd_upd list.map simp_thms)
  qed
qed simp

text \<open>
  C29. A file sent in blocks arrives: let the chunks that the worker has served carry parts of one
  file, in any order, with any overlap or repetition, and together cover it, all at offsets below
  \<open>2 ^ 63\<close>; let the file open and each write store all its bytes, and let the answers go to a port
  without a limit. Then the file holds exactly that content, followed by what its old content had
  behind that length (the code never shortens a file), no other file is touched, and every chunk
  is acknowledged, in order.
\<close>

theorem file_reassembled:
  assumes "file_worker its n fs ports = Some (arrived, served, in', fs', ports')"
    and "op_target (fn_out n) = Some a" "ports a = Some q" "ip_capacity q = 0" "port_ok cap (fn_in n)"
    and "path_allowed (fn_allowed_roots n) path"
    and "list_all (\<lambda>(io, chunk). chunk_of whole path chunk \<and> io_good io chunk) served" "served \<noteq> []"
    and "covers served = {..<length whole}"
  shows "fs' = fs(c_str path \<mapsto> whole @ drop (length whole) (file_content fs (c_str path))) \<and>
    ports' = ports(a \<mapsto> q\<lparr>ip_queue := ip_queue q @
      map (\<lambda>(io, chunk). \<lparr>fa_path = path, fa_offset = fc_offset chunk, fa_ok = True\<rparr>) served\<rparr>) \<and>
    ip_queue (fn_in n) @ arrived = map snd served @ ip_queue in'"
proof -
  let ?old = "file_content fs (c_str path)"
  note w = worker_loop_spec [OF assms(1) [unfolded file_worker_def] assms(2-5)]
  have "partly whole ?old {} ?old" by (simp add: partly_def)
  from replies_good [OF assms(6,7) this assms(8)] obtain c where
    "replies (file_handle (fn_allowed_roots n)) served fs =
      (map (\<lambda>(io, chunk). \<lparr>fa_path = path, fa_offset = fc_offset chunk, fa_ok = True\<rparr>) served, fs(c_str path \<mapsto> c))"
    "partly whole ?old (covers served) c" by auto
  moreover from this(2) have "c = whole @ drop (length whole) ?old" using partly_complete assms(9) by simp
  ultimately show ?thesis using w by simp
qed

text \<open>A short write is acknowledged as complete.\<close>

lemma short_write_acknowledged:
  assumes "path_allowed roots (fc_path chunk)" "fs (c_str (fc_path chunk)) = Some c" "unat (fc_offset chunk) < 2 ^ 63"
  shows "file_handle roots \<lparr>fio_rw = True, fio_create = True, fio_written = 0\<rparr> chunk fs =
    (\<lparr>fa_path = fc_path chunk, fa_offset = fc_offset chunk, fa_ok = True\<rparr>, fs)"
  using assms sint_nonneg [OF assms(3)] by (simp add: file_handle_def write_block_def open_file_def Let_def not_less)

lemma file_reassembled_witness:
  "let c1 = \<lparr>fc_path = ''/d/f'', fc_offset = 2, fc_data = [3, 4], fc_is_last = True\<rparr>;
       c2 = \<lparr>fc_path = ''/d/f'', fc_offset = 0, fc_data = [1, 2, 3], fc_is_last = False\<rparr>;
       io = \<lparr>fio_rw = True, fio_create = True, fio_written = 9\<rparr>;
       n = set_allowed_paths [''/d/''] (file_node_new\<lparr>fn_out := set_target (Some 0) (fn_out file_node_new)\<rparr>);
       ports = [0 \<mapsto> input_port_new ''r'' ''FileAck'' 0 1] in
   \<exists>served in' ports'. file_worker [([[c1], [c2]], io), ([[c2]], io)] n [''/d/f'' \<mapsto> [9, 9, 9, 9, 9]] ports =
     Some ([c1, c2], served, in', [''/d/f'' \<mapsto> [1, 2, 3, 4, 9]], ports')"
proof -
  let ?c1 = "\<lparr>fc_path = ''/d/f'', fc_offset = 2, fc_data = [3, 4], fc_is_last = True\<rparr>"
  let ?c2 = "\<lparr>fc_path = ''/d/f'', fc_offset = 0, fc_data = [1, 2, 3], fc_is_last = False\<rparr>"
  let ?io = "\<lparr>fio_rw = True, fio_create = True, fio_written = 9\<rparr>"
  let ?n = "set_allowed_paths [''/d/''] (file_node_new\<lparr>fn_out := set_target (Some 0) (fn_out file_node_new)\<rparr>)"
  let ?ports = "[0 \<mapsto> input_port_new ''r'' ''FileAck'' 0 1]"
  note d = file_node_new_def set_allowed_paths_def set_target_def output_port_new_def file_node.defs worker_node.defs
    node_base.defs worker_node_new_def node_base_new_def input_port_new_def Let_def
  obtain served in' fs' ports' where
    run: "file_worker [([[?c1], [?c2]], ?io), ([[?c2]], ?io)] ?n [''/d/f'' \<mapsto> [9, 9, 9, 9, 9]] ?ports = Some ([?c1, ?c2], served, in', fs', ports')"
    and s: "served = [(?io, ?c1), (?io, ?c2)]"
    by (simp add: file_worker_def d port_recv_def port_put_def port_push_def port_try_send_def file_handle_def
        path_allowed_def write_block_def open_file_def c_str_def store_at_def)
  have cov: "covers served = {..<length [1, 2, 3, 4 :: byte]}" by (auto simp: s covers_def)
  have "fs' = [''/d/f'' \<mapsto> [9, 9, 9, 9, 9]](c_str ''/d/f'' \<mapsto> [1, 2, 3, 4] @ [9])"
    using file_reassembled [OF run, of 0 "input_port_new ''r'' ''FileAck'' 0 1" 16 "''/d/f''" "[1, 2, 3, 4]", OF _ _ _ _ _ _ _ cov]
    by (simp add: c_str_def s d port_ok_def port_size_def path_allowed_def file_content_def chunk_of_def io_good_def slice_def)
  with run show ?thesis unfolding Let_def by (auto simp: c_str_def)
qed

section \<open>HeartbeatNode\<close>

record heartbeat_node = node_base +
  hn_in :: "Heartbeat_msg input_port"
  hn_out :: output_port
  hn_inputs :: "PortInfo list"
  hn_outputs :: "PortInfo list"

definition heartbeat_node_new :: heartbeat_node where
  "heartbeat_node_new =
     (let i = input_port_new ''hb_in'' ''Heartbeat'' 1024 1;
          out = output_port_new \<lparr>pi_name = ''hb_out'', pi_type_index = ''Heartbeat'', pi_schema_version = 1, pi_is_input = False\<rparr> None in
      node_base.extend (node_base_new ''heartbeat'') (heartbeat_node.fields i out [ip_info i] [op_info out]))"

definition heartbeat_init :: "heartbeat_node \<Rightarrow> unit Result \<times> heartbeat_node" where
  "heartbeat_init n = (Ok (), set_state LC_Init n)"

definition heartbeat_start :: "heartbeat_node \<Rightarrow> unit Result \<times> heartbeat_node" where
  "heartbeat_start n = (Ok (), set_state LC_Running n)"

definition heartbeat_stop :: "heartbeat_node \<Rightarrow> unit Result \<times> heartbeat_node" where
  "heartbeat_stop n = (Ok (), set_state LC_Stopped n)"

definition heartbeat_reload :: "heartbeat_node \<Rightarrow> unit Result \<times> heartbeat_node" where
  "heartbeat_reload n = (Ok (), set_state LC_Running (set_state LC_Reloading n))"

text \<open>No operation of the heartbeat node reads its input port or sends: started, it does nothing.\<close>

lemma heartbeat_idle:
  "\<lbrakk>op \<in> {heartbeat_init, heartbeat_start, heartbeat_stop, heartbeat_reload}\<rbrakk> \<Longrightarrow>
    hn_in (snd (op n)) = hn_in n \<and> hn_out (snd (op n)) = hn_out n"
  by (auto simp: heartbeat_init_def heartbeat_start_def heartbeat_stop_def heartbeat_reload_def set_state_def)

section \<open>NetInfoNode\<close>

record net_node = worker_node +
  tn_query :: "NetInterfaceQuery input_port"
  tn_set :: "NetInterfaceSet input_port"
  tn_out :: output_port
  tn_inputs :: "PortInfo list"
  tn_outputs :: "PortInfo list"

definition net_node_new :: net_node where
  "net_node_new =
     (let iq = input_port_new ''query_in'' ''NetInterfaceQuery'' 32 1;
          iset = input_port_new ''set_in'' ''NetInterfaceSet'' 16 1;
          out = output_port_new \<lparr>pi_name = ''result_out'', pi_type_index = ''NetInterfaceResult'', pi_schema_version = 1,
            pi_is_input = False\<rparr> None in
      worker_node.extend (worker_node_new ''net_info'')
        (net_node.fields iq iset out [ip_info iq, ip_info iset] [op_info out]))"

definition bind_result_target :: "nat option \<Rightarrow> net_node \<Rightarrow> net_node" where
  "bind_result_target p n = n\<lparr>tn_out := set_target p (tn_out n)\<rparr>"

subsection \<open>Its lifecycle, written out once more\<close>

text \<open>The body of the thread that \<open>start\<close> makes is \<open>net_round\<close> below.\<close>

definition net_init :: "net_node \<Rightarrow> unit Result \<times> net_node" where
  "net_init n = (Ok (), set_state LC_Init n)"

definition net_start :: "net_node \<Rightarrow> unit Result \<times> net_node" where
  "net_start n =
     (if wn_running n then (Err EC_RESOURCE_BUSY, n)
      else (Ok (), set_state LC_Running (n\<lparr>wn_running := True, wn_worker := True\<rparr>)))"

definition net_stop :: "net_node \<Rightarrow> unit Result \<times> net_node" where
  "net_stop n =
     (if \<not> wn_running n then (Ok (), set_state LC_Stopped n)
      else let n = n\<lparr>wn_running := False\<rparr>;
               n = (if wn_worker n then n\<lparr>wn_worker := False\<rparr> else n) in
        (Ok (), set_state LC_Stopped n))"

definition net_reload :: "net_node \<Rightarrow> unit Result \<times> net_node" where
  "net_reload n = (Ok (), set_state LC_Running (set_state LC_Reloading n))"

definition net_destroy :: "net_node \<Rightarrow> net_node" where
  "net_destroy n = snd (net_stop n)"

text \<open>The class repeats the lifecycle of \<open>CmdExecNode\<close>, so all that is shown of that one holds here.\<close>

lemma net_lifecycle:
  "net_init = worker_init" "net_start = worker_start" "net_stop = worker_stop" "net_reload = node_reload"
  by (simp_all add: fun_eq_iff net_init_def net_start_def net_stop_def net_reload_def node_defs)

text \<open>No joinable thread is left when the members are destroyed, and the queues are as they were.\<close>

lemma net_destroy_joins:
  "node_ok n \<Longrightarrow> \<not> wn_worker (net_destroy n) \<and> \<not> wn_running (net_destroy n) \<and>
    tn_query (net_destroy n) = tn_query n \<and> tn_set (net_destroy n) = tn_set n"
  by (auto simp: net_destroy_def net_stop_def node_ok_def set_state_def Let_def)

subsection \<open>Queries and settings\<close>

definition net_result_default :: NetInterfaceResult where
  "net_result_default = \<lparr>nr_ifname = [], nr_address = [], nr_up = True, nr_mtu = 0\<rparr>"

text \<open>Fifteen bytes are read into a zeroed buffer; the string ends at its first NUL.\<close>

definition operstate :: "bytes \<Rightarrow> bytes" where
  "operstate content = rev (dropWhile (\<lambda>b. b = 10 \<or> b = 13) (rev (takeWhile (\<lambda>b. b \<noteq> 0) (take 15 content))))"

definition query_one :: "files \<Rightarrow> string \<Rightarrow> NetInterfaceResult" where
  "query_one fs ifname =
     (let r = net_result_default\<lparr>nr_ifname := ifname\<rparr> in
      if ifname = [] then r\<lparr>nr_address := [], nr_up := False, nr_mtu := 0\<rparr>
      else case fs (c_str (''/sys/class/net/'' @ ifname @ ''/operstate'')) of
        None \<Rightarrow> r\<lparr>nr_up := False\<rparr>
      | Some content \<Rightarrow> r\<lparr>nr_up := operstate content = str ''up''\<rparr>)"

definition apply_set :: "NetInterfaceSet \<Rightarrow> NetInterfaceResult" where
  "apply_set s = net_result_default\<lparr>nr_ifname := ns_ifname s, nr_up := ns_up s, nr_address := ns_address s\<rparr>"

text \<open>One round of the worker: a query if there is one, else a setting, else a nap.\<close>

definition net_round :: "files \<Rightarrow> net_node \<Rightarrow> (nat \<rightharpoonup> NetInterfaceResult input_port)
    \<Rightarrow> (net_node \<times> (nat \<rightharpoonup> NetInterfaceResult input_port)) option" where
  "net_round fs n ports = (case port_try_recv (tn_query n) of
      (Ok q, iq) \<Rightarrow> map_option (\<lambda>(_, ports). (n\<lparr>tn_query := iq\<rparr>, ports))
        (port_try_send (query_one fs (nq_ifname q)) (tn_out n) ports)
    | _ \<Rightarrow> (case port_try_recv (tn_set n) of
          (Ok s, iset) \<Rightarrow> map_option (\<lambda>(_, ports). (n\<lparr>tn_set := iset\<rparr>, ports))
            (port_try_send (apply_set s) (tn_out n) ports)
        | _ \<Rightarrow> Some (n, ports)))"

lemma query_one_up:
  "ifname \<noteq> [] \<Longrightarrow> fs (c_str (''/sys/class/net/'' @ ifname @ ''/operstate'')) = Some (str ''up'' @ [newline]) \<Longrightarrow>
    nr_up (query_one fs ifname)"
  by (simp add: query_one_def operstate_def)

text \<open>A setting is answered with the values asked for; nothing is looked up and nothing is changed.\<close>

lemma apply_set_echoes: "nr_up (apply_set s) = ns_up s \<and> nr_address (apply_set s) = ns_address s \<and> nr_mtu (apply_set s) = 0"
  by (simp add: apply_set_def net_result_default_def)

text \<open>All requests that wait are answered, the queries before the settings.\<close>

fun net_rounds :: "nat \<Rightarrow> files \<Rightarrow> net_node \<Rightarrow> (nat \<rightharpoonup> NetInterfaceResult input_port)
    \<Rightarrow> (net_node \<times> (nat \<rightharpoonup> NetInterfaceResult input_port)) option" where
  "net_rounds 0 fs n ports = Some (n, ports)"
| "net_rounds (Suc k) fs n ports = (case net_round fs n ports of
      None \<Rightarrow> None
    | Some (n, ports) \<Rightarrow> net_rounds k fs n ports)"

text \<open>
  The network node answers everything that waits: after as many rounds as there are requests
  both queues are empty and the receiver has the answers to all queries, in order, and then
  those to all settings.
\<close>

theorem net_node_serves:
  assumes "op_target (tn_out n) = Some a" "ports a = Some q" "ip_capacity q = 0"
  shows "map_option (\<lambda>(n', ports'). (ip_queue (tn_query n'), ip_queue (tn_set n'), map_option ip_queue (ports' a)))
      (net_rounds (port_size (tn_query n) + port_size (tn_set n)) fs n ports) =
    Some ([], [], Some (ip_queue q @ map (query_one fs \<circ> nq_ifname) (ip_queue (tn_query n)) @
      map apply_set (ip_queue (tn_set n))))"
  using assms
proof (induction "port_size (tn_query n) + port_size (tn_set n)" arbitrary: n ports q)
  case 0
  then show ?case by (simp add: port_size_def)
next
  case (Suc k)
  show ?case
  proof (cases "ip_queue (tn_query n)")
    case (Cons x xs)
    let ?n = "n\<lparr>tn_query := tn_query n\<lparr>ip_queue := xs\<rparr>\<rparr>"
    let ?q = "q\<lparr>ip_queue := ip_queue q @ [query_one fs (nq_ifname x)]\<rparr>"
    have r: "net_round fs n ports = Some (?n, ports(a \<mapsto> ?q))"
      using Cons Suc.prems by (simp add: net_round_def port_try_recv_def port_try_send_def port_push_def)
    have k: "k = port_size (tn_query ?n) + port_size (tn_set ?n)" using Suc.hyps(2) Cons by (simp add: port_size_def)
    show ?thesis
      using Suc.hyps(1) [OF k, of "ports(a \<mapsto> ?q)" ?q] Suc.prems Cons k
      by (simp add: r port_size_def flip: Suc.hyps(2))
  next
    case Nil
    then obtain x xs where s: "ip_queue (tn_set n) = x # xs"
      using Suc.hyps(2) by (cases "ip_queue (tn_set n)") (auto simp: port_size_def)
    let ?n = "n\<lparr>tn_set := tn_set n\<lparr>ip_queue := xs\<rparr>\<rparr>"
    let ?q = "q\<lparr>ip_queue := ip_queue q @ [apply_set x]\<rparr>"
    have r: "net_round fs n ports = Some (?n, ports(a \<mapsto> ?q))"
      using Nil s Suc.prems by (simp add: net_round_def port_try_recv_def port_try_send_def port_push_def)
    have k: "k = port_size (tn_query ?n) + port_size (tn_set ?n)" using Suc.hyps(2) Nil s by (simp add: port_size_def)
    show ?thesis
      using Suc.hyps(1) [OF k, of "ports(a \<mapsto> ?q)" ?q] Suc.prems Nil s k
      by (simp add: r port_size_def flip: Suc.hyps(2))
  qed
qed

end
