(* ===== verification/Metrics.thy ===== *)
theory Metrics
  imports Text_Codec
begin

text \<open>
  \<open>src/observability/\<close>: counters, gauges and histograms, the meter that holds one of each per
  metric with its text export, and the tracer. A gauge's \<open>double\<close> is a type parameter, its
  addition and its printed form are arguments.

  Shown: what the meter holds after any program of updates, and that a trace context survives
  the carrier.
\<close>

section \<open>Metrics\<close>

datatype MetricId = DiscoveryBroadcastTotal | DiscoveryReceiveTotal | HandshakeSuccessTotal | HandshakeFailureTotal
  | ChannelLatencyMicro | NodeLifecycleChangesTotal | TopologyUpdatesTotal | AuthFailuresTotal | ActiveConnections
  | PendingEvents

fun metric_index :: "MetricId \<Rightarrow> nat" where
  "metric_index DiscoveryBroadcastTotal = 0"
| "metric_index DiscoveryReceiveTotal = 1"
| "metric_index HandshakeSuccessTotal = 2"
| "metric_index HandshakeFailureTotal = 3"
| "metric_index ChannelLatencyMicro = 4"
| "metric_index NodeLifecycleChangesTotal = 5"
| "metric_index TopologyUpdatesTotal = 6"
| "metric_index AuthFailuresTotal = 7"
| "metric_index ActiveConnections = 8"
| "metric_index PendingEvents = 9"

definition kCount :: nat where "kCount = 10"

definition metric_names :: "bytes list" where
  "metric_names = [str ''discovery_broadcast_total'', str ''discovery_receive_total'', str ''handshake_success_total'',
     str ''handshake_failure_total'', str ''channel_latency_micro'', str ''node_lifecycle_changes_total'',
     str ''topology_updates_total'', str ''auth_failures_total'', str ''active_connections'', str ''pending_events'']"

definition metric_name :: "nat \<Rightarrow> bytes" where
  "metric_name i = metric_names ! i"

lemma metric_index_bound: "metric_index m < kCount"
  by (cases m) (simp_all add: kCount_def)

lemma metric_index_inject [simp]: "metric_index m = metric_index m' \<longleftrightarrow> m = m'"
  by (cases m; cases m') simp_all

lemma metric_names_distinct: "distinct metric_names \<and> length metric_names = kCount"
  by (simp add: metric_names_def kCount_def word_unat_eq_iff)

subsection \<open>Counters, gauges, histograms\<close>

definition counter_inc :: "u64 \<Rightarrow> u64 \<Rightarrow> u64" where
  "counter_inc v c = c + v"

definition counter_dec :: "u64 \<Rightarrow> u64 \<Rightarrow> u64" where
  "counter_dec v c = c - v"

definition gauge_set :: "'d \<Rightarrow> 'd \<Rightarrow> 'd" where
  "gauge_set v g = v"

definition gauge_add :: "('d \<Rightarrow> 'd \<Rightarrow> 'd) \<Rightarrow> 'd \<Rightarrow> 'd \<Rightarrow> 'd" where
  "gauge_add dadd v g = dadd g v"

definition kBuckets :: nat where "kBuckets = 8"

definition kEdges :: "u64 list" where
  "kEdges = [100, 500, 1000, 5000, 10000, 50000, 100000, 1000000]"

record histogram =
  hi_buckets :: "u64 list"
  hi_count :: u64
  hi_sum :: u64

definition histogram_new :: histogram where
  "histogram_new = \<lparr>hi_buckets = replicate kBuckets 0, hi_count = 0, hi_sum = 0\<rparr>"

definition observe :: "u64 \<Rightarrow> histogram \<Rightarrow> histogram" where
  "observe value_us h = h\<lparr>hi_buckets := map2 (\<lambda>e b. if value_us \<le> e then b + 1 else b) kEdges (hi_buckets h),
     hi_count := hi_count h + 1, hi_sum := hi_sum h + value_us\<rparr>"

definition snapshot :: "histogram \<Rightarrow> u64 list" where
  "snapshot h = hi_buckets h"

definition histogram_count :: "histogram \<Rightarrow> u64" where
  "histogram_count h = hi_count h"

definition histogram_sum :: "histogram \<Rightarrow> u64" where
  "histogram_sum h = hi_sum h"

subsection \<open>The meter\<close>

record 'd meter =
  mt_counters :: "u64 list"
  mt_gauges :: "'d list"
  mt_histograms :: "histogram list"

definition meter_new :: "'d \<Rightarrow> 'd meter" where
  "meter_new zero = \<lparr>mt_counters = replicate kCount 0, mt_gauges = replicate kCount zero,
     mt_histograms = replicate kCount histogram_new\<rparr>"

definition inc_counter :: "MetricId \<Rightarrow> u64 \<Rightarrow> 'd meter \<Rightarrow> 'd meter" where
  "inc_counter m v t = t\<lparr>mt_counters := (mt_counters t)[metric_index m := counter_inc v (mt_counters t ! metric_index m)]\<rparr>"

definition set_gauge :: "MetricId \<Rightarrow> 'd \<Rightarrow> 'd meter \<Rightarrow> 'd meter" where
  "set_gauge m v t = t\<lparr>mt_gauges := (mt_gauges t)[metric_index m := gauge_set v (mt_gauges t ! metric_index m)]\<rparr>"

definition observe_histogram :: "MetricId \<Rightarrow> u64 \<Rightarrow> 'd meter \<Rightarrow> 'd meter" where
  "observe_histogram m v t = t\<lparr>mt_histograms := (mt_histograms t)[metric_index m := observe v (mt_histograms t ! metric_index m)]\<rparr>"

definition export_metric :: "('d \<Rightarrow> bytes) \<Rightarrow> 'd meter \<Rightarrow> nat \<Rightarrow> bytes" where
  "export_metric show_double t i =
     (let name = metric_name i; h = mt_histograms t ! i in
      str ''# TYPE '' @ name @ str '' counter'' @ [newline] @
      name @ str '' '' @ dec_u64 (mt_counters t ! i) @ [newline] @
      str ''# TYPE '' @ name @ str ''_gauge gauge'' @ [newline] @
      name @ str ''_gauge '' @ show_double (mt_gauges t ! i) @ [newline] @
      str ''# TYPE '' @ name @ str ''_histogram histogram'' @ [newline] @
      name @ str ''_histogram_count '' @ dec_u64 (histogram_count h) @ [newline] @
      name @ str ''_histogram_sum '' @ dec_u64 (histogram_sum h) @ [newline] @
      concat (map (\<lambda>b. name @ str ''_histogram_bucket{'' @ dec_nat b @ str ''} '' @ dec_u64 (snapshot h ! b) @ [newline])
        [0..<length (snapshot h)]))"

definition export_prometheus :: "('d \<Rightarrow> bytes) \<Rightarrow> 'd meter \<Rightarrow> bytes" where
  "export_prometheus show_double t = concat (map (export_metric show_double t) [0..<kCount])"

section \<open>What the meter holds\<close>

datatype 'd meter_op = M_inc MetricId u64 | M_set MetricId 'd | M_observe MetricId u64

fun meter_step :: "'d meter_op \<Rightarrow> 'd meter \<Rightarrow> 'd meter" where
  "meter_step (M_inc m v) t = inc_counter m v t"
| "meter_step (M_set m v) t = set_gauge m v t"
| "meter_step (M_observe m v) t = observe_histogram m v t"

definition increments :: "MetricId \<Rightarrow> 'd meter_op list \<Rightarrow> u64 list" where
  "increments m ops = List.map_filter (\<lambda>op. case op of M_inc m' v \<Rightarrow> if m' = m then Some v else None | _ \<Rightarrow> None) ops"

definition settings :: "MetricId \<Rightarrow> 'd meter_op list \<Rightarrow> 'd list" where
  "settings m ops = List.map_filter (\<lambda>op. case op of M_set m' v \<Rightarrow> if m' = m then Some v else None | _ \<Rightarrow> None) ops"

definition observations :: "MetricId \<Rightarrow> 'd meter_op list \<Rightarrow> u64 list" where
  "observations m ops = List.map_filter (\<lambda>op. case op of M_observe m' v \<Rightarrow> if m' = m then Some v else None | _ \<Rightarrow> None) ops"

text \<open>The histogram of a list of observations, without a running state.\<close>

definition histogram_of :: "u64 list \<Rightarrow> histogram" where
  "histogram_of vs = \<lparr>hi_buckets = map (\<lambda>e. of_nat (length (filter (\<lambda>v. v \<le> e) vs))) kEdges,
     hi_count = of_nat (length vs), hi_sum = sum_list vs\<rparr>"

lemma histogram_of_observe: "observe v (histogram_of vs) = histogram_of (vs @ [v])"
  by (simp add: observe_def histogram_of_def kEdges_def)

lemma histogram_of_Nil: "histogram_of [] = histogram_new"
  by (simp add: histogram_of_def histogram_new_def kEdges_def kBuckets_def numeral_eq_Suc)

definition meter_ok :: "'d \<Rightarrow> 'd meter_op list \<Rightarrow> 'd meter \<Rightarrow> bool" where
  "meter_ok zero ops t = (length (mt_counters t) = kCount \<and> length (mt_gauges t) = kCount \<and> length (mt_histograms t) = kCount \<and>
     (\<forall>m. mt_counters t ! metric_index m = sum_list (increments m ops) \<and>
       mt_gauges t ! metric_index m = last (zero # settings m ops) \<and>
       mt_histograms t ! metric_index m = histogram_of (observations m ops)))"

lemma op_lists_append:
  "increments m (ops @ [op]) = increments m ops @ increments m [op]"
  "settings m (ops @ [op]) = settings m ops @ settings m [op]"
  "observations m (ops @ [op]) = observations m ops @ observations m [op]"
  by (simp_all add: increments_def settings_def observations_def map_filter_def)

lemma op_lists_single:
  "increments m [op] = (case op of M_inc m' v \<Rightarrow> if m' = m then [v] else [] | _ \<Rightarrow> [])"
  "settings m [op] = (case op of M_set m' v' \<Rightarrow> if m' = m then [v'] else [] | _ \<Rightarrow> [])"
  "observations m [op] = (case op of M_observe m' v \<Rightarrow> if m' = m then [v] else [] | _ \<Rightarrow> [])"
  by (cases op; simp add: increments_def settings_def observations_def map_filter_simps)+

lemma meter_ok_step: "meter_ok zero ops t \<Longrightarrow> meter_ok zero (ops @ [op]) (meter_step op t)"
  using metric_index_bound
  by (cases op) (auto simp: meter_ok_def op_lists_append op_lists_single inc_counter_def set_gauge_def observe_histogram_def
      counter_inc_def gauge_set_def histogram_of_observe nth_list_update)

lemma meter_ok_run: "meter_ok zero ops (fold meter_step ops (meter_new zero))"
proof (induction ops rule: rev_induct)
  case Nil
  then show ?case
    using metric_index_bound
    by (simp add: meter_ok_def meter_new_def increments_def settings_def observations_def map_filter_simps histogram_of_Nil)
next
  case (snoc op ops)
  then show ?case using meter_ok_step by simp
qed

text \<open>
  The meter adds up: after any program of updates every counter is the sum of its increments
  (modulo \<open>2^64\<close>), every gauge the last value set, and every histogram has in the bucket of an
  edge the number of observations up to that edge, with their total number and sum.
\<close>

theorem meter_totals:
  "let t = fold meter_step ops (meter_new zero) in
   mt_counters t ! metric_index m = sum_list (increments m ops) \<and>
   mt_gauges t ! metric_index m = last (zero # settings m ops) \<and>
   snapshot (mt_histograms t ! metric_index m) =
     map (\<lambda>e. of_nat (length (filter (\<lambda>v. v \<le> e) (observations m ops)))) kEdges \<and>
   hi_count (mt_histograms t ! metric_index m) = of_nat (length (observations m ops)) \<and>
   hi_sum (mt_histograms t ! metric_index m) = sum_list (observations m ops)"
  using meter_ok_run [of zero ops] by (simp add: meter_ok_def snapshot_def histogram_of_def Let_def)

section \<open>The tracer\<close>

record Span =
  sp_name :: bytes
  sp_trace_id :: bytes
  sp_span_id :: bytes
  sp_start_ns :: int
  sp_end_ns :: int

text \<open>\<open>buf\<close>: the 24 random bytes.\<close>

definition span_begin :: "bytes \<Rightarrow> int \<Rightarrow> bytes \<Rightarrow> Span" where
  "span_begin buf now name = \<lparr>sp_name = name, sp_trace_id = to_hex (take 8 buf) @ take 16 (to_hex (slice 8 8 buf)),
     sp_span_id = to_hex (slice 16 8 buf), sp_start_ns = now, sp_end_ns = 0\<rparr>"

definition span_end :: "int \<Rightarrow> Span \<Rightarrow> Span" where
  "span_end now s = s\<lparr>sp_end_ns := now\<rparr>"

definition trace_inject :: "Span \<Rightarrow> (bytes, bytes) kv \<Rightarrow> (bytes, bytes) kv" where
  "trace_inject s kv = kv_put (str ''traceparent'') (str ''00-'' @ sp_trace_id s @ str ''-'' @ sp_span_id s @ str ''-01'') kv"

definition trace_extract :: "int \<Rightarrow> bytes \<Rightarrow> (bytes, bytes) kv \<Rightarrow> Span" where
  "trace_extract now name kv =
     (let s = \<lparr>sp_name = name, sp_trace_id = [], sp_span_id = [], sp_start_ns = 0, sp_end_ns = 0\<rparr>;
          s = (case kv_get kv (str ''traceparent'') of
                 None \<Rightarrow> s
               | Some v \<Rightarrow> if length v \<ge> 55 then s\<lparr>sp_trace_id := slice 3 32 v, sp_span_id := slice 36 16 v\<rparr> else s) in
      s\<lparr>sp_start_ns := now\<rparr>)"

text \<open>
  A trace context survives its carrier: a span begun with 24 random bytes, injected into any
  header map and extracted again gives back its two identifiers, 32 and 16 hexadecimal digits
  that determine the random bytes; the other headers stay.
\<close>

theorem trace_roundtrip:
  assumes "length buf = 24"
  shows "let s = span_begin buf now name; s' = trace_extract now' name' (trace_inject s kv) in
    sp_trace_id s' = sp_trace_id s \<and> sp_span_id s' = sp_span_id s \<and>
    sp_trace_id s @ sp_span_id s = to_hex buf \<and> length (sp_trace_id s) = 32 \<and>
    (\<lambda>k. kv_get (trace_inject s kv) k) = (kv_get kv)(str ''traceparent'' \<mapsto> str ''00-'' @ sp_trace_id s @ str ''-'' @ sp_span_id s @ str ''-01'')"
proof -
  have split: "buf = take 8 buf @ slice 8 8 buf @ slice 16 8 buf"
  proof -
    have "buf = take 8 buf @ take 8 (drop 8 buf) @ drop 8 (drop 8 buf)" by (simp only: append_take_drop_id)
    moreover have "take 8 (drop 16 buf) = drop 8 (drop 8 buf)" using assms by simp
    ultimately show ?thesis by (simp only: slice_def)
  qed
  have hex: "to_hex (a @ b) = to_hex a @ to_hex b" for a b by (simp add: to_hex_def)
  let ?s = "span_begin buf now name"
  have l: "length (sp_trace_id ?s) = 32" "length (sp_span_id ?s) = 16"
    using assms by (simp_all add: span_begin_def)
  have "to_hex buf = sp_trace_id ?s @ sp_span_id ?s"
    using assms by (subst split) (simp add: span_begin_def hex)
  moreover have "slice 3 32 (str ''00-'' @ sp_trace_id ?s @ str ''-'' @ sp_span_id ?s @ str ''-01'') = sp_trace_id ?s"
    using l by (intro slice_append3) simp_all
  moreover have "slice 36 16 (str ''00-'' @ sp_trace_id ?s @ str ''-'' @ sp_span_id ?s @ str ''-01'') = sp_span_id ?s"
    using l slice_append3 [of "str ''00-'' @ sp_trace_id ?s @ str ''-''" 36 "sp_span_id ?s" 16 "str ''-01''"] by simp
  ultimately show ?thesis
    using l by (simp add: Let_def trace_extract_def trace_inject_def fun_eq_iff)
qed

lemma trace_roundtrip_witness:
  "let buf = map of_nat [1..<25]; s = span_begin buf 5 (str ''op''); s' = trace_extract 9 (str ''x'') (trace_inject s [(str ''k'', [1])]) in
   length buf = 24 \<and> sp_trace_id s' = sp_trace_id s \<and> sp_span_id s' = sp_span_id s"
  using trace_roundtrip [of "map of_nat [1..<25]" 5 "str ''op''" 9 "str ''x''" "[(str ''k'', [1])]"] by (simp add: Let_def)

end
