(* ===== verification/Config.thy ===== *)
theory Config
  imports Text_Codec
begin

text \<open>
  \<open>src/core/config/\<close>: reading a configuration. The YAML library is a parameter, a record of its
  operations: parsing, looking up a key (which can throw), and the conversions (\<open>None\<close> when they
  throw). The messages handed to the logger are returned beside the result.

  Shown: exactly which documents are accepted and what configuration each yields.
\<close>

section \<open>Names\<close>

datatype NetworkMode = Mode_Psk | Mode_Pki

datatype LogLevel = L_Trace | L_Debug | L_Info | L_Warn | L_Error | L_Critical | L_Off

definition lower_byte :: "byte \<Rightarrow> byte" where
  "lower_byte c = (if 65 \<le> unat c \<and> unat c \<le> 90 then c + 32 else c)"

definition to_lower :: "bytes \<Rightarrow> bytes" where
  "to_lower s = map lower_byte s"

definition parse_network_mode :: "bytes \<Rightarrow> NetworkMode option" where
  "parse_network_mode s =
     (let lower = to_lower s in
      if lower = str ''psk'' then Some Mode_Psk
      else if lower = str ''pki'' then Some Mode_Pki
      else None)"

fun network_mode_to_string :: "NetworkMode \<Rightarrow> bytes" where
  "network_mode_to_string Mode_Psk = str ''psk''"
| "network_mode_to_string Mode_Pki = str ''pki''"

definition parse_log_level :: "bytes \<Rightarrow> LogLevel option" where
  "parse_log_level s =
     (let lower = to_lower s in
      if lower = str ''trace'' then Some L_Trace
      else if lower = str ''debug'' then Some L_Debug
      else if lower = str ''info'' then Some L_Info
      else if lower = str ''warn'' \<or> lower = str ''warning'' then Some L_Warn
      else if lower = str ''error'' then Some L_Error
      else if lower = str ''critical'' \<or> lower = str ''fatal'' then Some L_Critical
      else if lower = str ''off'' then Some L_Off
      else None)"

lemma lower_byte_idem: "lower_byte (lower_byte c) = lower_byte c"
proof (cases "65 \<le> unat c \<and> unat c \<le> 90")
  case True
  have "unat (c + 32) = unat c + 32" using unat_add_lem [of c 32] True by simp
  with True show ?thesis by (simp add: lower_byte_def)
qed (auto simp: lower_byte_def)

lemma to_lower_idem: "to_lower (to_lower s) = to_lower s"
  by (simp add: to_lower_def lower_byte_idem)

text \<open>Case does not matter, and printed modes parse.\<close>

lemma parse_case_insensitive:
  "to_lower s = to_lower t \<Longrightarrow> parse_network_mode s = parse_network_mode t \<and> parse_log_level s = parse_log_level t"
  by (simp add: parse_network_mode_def parse_log_level_def)

lemma network_mode_roundtrip: "parse_network_mode (network_mode_to_string m) = Some m"
  by (cases m) (simp_all add: parse_network_mode_def to_lower_def lower_byte_def word_unat_eq_iff)

section \<open>Configurations\<close>

record LogConfig =
  lc_level :: bytes
  lc_to_file :: bool
  lc_file_path :: bytes
  lc_max_file_size_bytes :: u64
  lc_max_rotated_files :: u32

record NetConfig =
  ncf_bind_address :: bytes
  ncf_bind_port :: u16
  ncf_heartbeat_interval_ms :: u32
  ncf_discovery_interval_sec :: u32

record CryptoConfig =
  cc_mode :: NetworkMode
  cc_psk_path :: bytes
  cc_cert_path :: bytes
  cc_key_path :: bytes
  cc_ca_path :: bytes

record Config =
  cf_node_id :: bytes
  cf_node_role :: bytes
  cf_net :: NetConfig
  cf_log :: LogConfig
  cf_crypto :: CryptoConfig
  cf_peer_whitelist :: "bytes list"
  cf_schema_version :: u32

definition log_default :: LogConfig where
  "log_default = \<lparr>lc_level = str ''info'', lc_to_file = False, lc_file_path = [], lc_max_file_size_bytes = 0, lc_max_rotated_files = 0\<rparr>"

definition net_default :: NetConfig where
  "net_default = \<lparr>ncf_bind_address = str ''0.0.0.0'', ncf_bind_port = 9876, ncf_heartbeat_interval_ms = 1000,
     ncf_discovery_interval_sec = 30\<rparr>"

definition crypto_default :: CryptoConfig where
  "crypto_default = \<lparr>cc_mode = Mode_Psk, cc_psk_path = [], cc_cert_path = [], cc_key_path = [], cc_ca_path = []\<rparr>"

definition config_default :: Config where
  "config_default = \<lparr>cf_node_id = [], cf_node_role = [], cf_net = net_default, cf_log = log_default, cf_crypto = crypto_default,
     cf_peer_whitelist = [], cf_schema_version = 0\<rparr>"

section \<open>The YAML library\<close>

datatype 'y y_lookup = Y_throws | Y_undefined | Y_node 'y

record 'y yaml =
  y_load :: "bytes \<Rightarrow> 'y option"
  y_defined :: "'y \<Rightarrow> bool"
  y_get :: "'y \<Rightarrow> bytes \<Rightarrow> 'y y_lookup"
  y_string :: "'y \<Rightarrow> bytes option"
  y_u16 :: "'y \<Rightarrow> u16 option"
  y_u32 :: "'y \<Rightarrow> u32 option"
  y_u64 :: "'y \<Rightarrow> u64 option"
  y_bool :: "'y \<Rightarrow> bool option"
  y_sequence :: "'y \<Rightarrow> 'y list option"

text \<open>One line \<open>if (n[key]) field = n[key].as<T>()\<close>.\<close>

definition y_field :: "('y, 'z) yaml_scheme \<Rightarrow> 'y \<Rightarrow> bytes \<Rightarrow> ('y \<Rightarrow> 'v option) \<Rightarrow> ('v \<Rightarrow> 'c \<Rightarrow> 'c) \<Rightarrow> 'c \<Rightarrow> 'c Result" where
  "y_field y n key conv upd c = (case y_get y n key of
      Y_throws \<Rightarrow> Err EC_CONFIG_INVALID_VALUE
    | Y_undefined \<Rightarrow> Ok c
    | Y_node v \<Rightarrow> (case conv v of None \<Rightarrow> Err EC_CONFIG_INVALID_VALUE | Some x \<Rightarrow> Ok (upd x c)))"

section \<open>Loading\<close>

definition apply_top_level :: "('y, 'z) yaml_scheme \<Rightarrow> 'y \<Rightarrow> Config \<Rightarrow> Config Result" where
  "apply_top_level y root cfg =
     and_then (y_field y root (str ''node_id'') (y_string y) (\<lambda>v. cf_node_id_update (\<lambda>_. v)) cfg) (\<lambda>cfg.
     and_then (y_field y root (str ''node_role'') (y_string y) (\<lambda>v. cf_node_role_update (\<lambda>_. v)) cfg) (\<lambda>cfg.
     y_field y root (str ''schema_version'') (y_u32 y) (\<lambda>v. cf_schema_version_update (\<lambda>_. v)) cfg))"

definition apply_net_section :: "('y, 'z) yaml_scheme \<Rightarrow> 'y \<Rightarrow> NetConfig \<Rightarrow> NetConfig Result" where
  "apply_net_section y n net =
     and_then (y_field y n (str ''bind_address'') (y_string y) (\<lambda>v. ncf_bind_address_update (\<lambda>_. v)) net) (\<lambda>net.
     and_then (y_field y n (str ''bind_port'') (y_u16 y) (\<lambda>v. ncf_bind_port_update (\<lambda>_. v)) net) (\<lambda>net.
     and_then (y_field y n (str ''heartbeat_interval_ms'') (y_u32 y) (\<lambda>v. ncf_heartbeat_interval_ms_update (\<lambda>_. v)) net) (\<lambda>net.
     y_field y n (str ''discovery_interval_sec'') (y_u32 y) (\<lambda>v. ncf_discovery_interval_sec_update (\<lambda>_. v)) net)))"

definition apply_log_section :: "('y, 'z) yaml_scheme \<Rightarrow> 'y \<Rightarrow> LogConfig \<Rightarrow> LogConfig Result" where
  "apply_log_section y l log_cfg =
     and_then (y_field y l (str ''level'') (y_string y) (\<lambda>v. lc_level_update (\<lambda>_. v)) log_cfg) (\<lambda>log_cfg.
     and_then (y_field y l (str ''to_file'') (y_bool y) (\<lambda>v. lc_to_file_update (\<lambda>_. v)) log_cfg) (\<lambda>log_cfg.
     and_then (y_field y l (str ''file_path'') (y_string y) (\<lambda>v. lc_file_path_update (\<lambda>_. v)) log_cfg) (\<lambda>log_cfg.
     and_then (y_field y l (str ''max_file_size'') (y_u64 y) (\<lambda>v. lc_max_file_size_bytes_update (\<lambda>_. v)) log_cfg) (\<lambda>log_cfg.
     y_field y l (str ''max_rotated_files'') (y_u32 y) (\<lambda>v. lc_max_rotated_files_update (\<lambda>_. v)) log_cfg))))"

text \<open>The mode; the second component is what is logged.\<close>

definition apply_mode :: "('y, 'z) yaml_scheme \<Rightarrow> 'y \<Rightarrow> CryptoConfig \<Rightarrow> CryptoConfig Result \<times> bytes list" where
  "apply_mode y c crypto = (case y_get y c (str ''mode'') of
      Y_throws \<Rightarrow> (Err EC_CONFIG_INVALID_VALUE, [])
    | Y_undefined \<Rightarrow> (Ok crypto, [])
    | Y_node v \<Rightarrow> (case y_string y v of
          None \<Rightarrow> (Err EC_CONFIG_INVALID_VALUE, [])
        | Some s \<Rightarrow> (case parse_network_mode s of
              None \<Rightarrow> (Err EC_CONFIG_INVALID_VALUE, [str ''crypto.mode invalid''])
            | Some mode \<Rightarrow> (Ok (crypto\<lparr>cc_mode := mode\<rparr>), []))))"

definition apply_crypto_section :: "('y, 'z) yaml_scheme \<Rightarrow> 'y \<Rightarrow> CryptoConfig \<Rightarrow> CryptoConfig Result \<times> bytes list" where
  "apply_crypto_section y c crypto = (case apply_mode y c crypto of (r, logged) \<Rightarrow>
     (and_then r (\<lambda>crypto.
      and_then (y_field y c (str ''psk_path'') (y_string y) (\<lambda>v. cc_psk_path_update (\<lambda>_. v)) crypto) (\<lambda>crypto.
      and_then (y_field y c (str ''cert_path'') (y_string y) (\<lambda>v. cc_cert_path_update (\<lambda>_. v)) crypto) (\<lambda>crypto.
      and_then (y_field y c (str ''key_path'') (y_string y) (\<lambda>v. cc_key_path_update (\<lambda>_. v)) crypto) (\<lambda>crypto.
      y_field y c (str ''ca_path'') (y_string y) (\<lambda>v. cc_ca_path_update (\<lambda>_. v)) crypto)))), logged))"

definition apply_whitelist :: "('y, 'z) yaml_scheme \<Rightarrow> 'y \<Rightarrow> bytes list \<Rightarrow> bytes list Result" where
  "apply_whitelist y root xs = (case y_get y root (str ''peer_whitelist'') of
      Y_throws \<Rightarrow> Err EC_CONFIG_INVALID_VALUE
    | Y_undefined \<Rightarrow> Ok xs
    | Y_node n \<Rightarrow> (case y_sequence y n of
          None \<Rightarrow> Ok xs
        | Some items \<Rightarrow> (case those (map (y_string y) items) of
              None \<Rightarrow> Err EC_CONFIG_INVALID_VALUE
            | Some ss \<Rightarrow> Ok (xs @ ss))))"

definition validate :: "Config \<Rightarrow> unit Result" where
  "validate cfg =
     (if cf_node_id cfg = [] then Err EC_CONFIG_MISSING_REQUIRED
      else if cf_node_role cfg \<noteq> str ''host'' \<and> cf_node_role cfg \<noteq> str ''device'' then Err EC_CONFIG_INVALID_VALUE
      else if ncf_bind_port (cf_net cfg) = 0 then Err EC_CONFIG_INVALID_VALUE
      else if ncf_heartbeat_interval_ms (cf_net cfg) = 0 then Err EC_CONFIG_INVALID_VALUE
      else if ncf_discovery_interval_sec (cf_net cfg) = 0 then Err EC_CONFIG_INVALID_VALUE
      else if parse_log_level (lc_level (cf_log cfg)) = None then Err EC_CONFIG_INVALID_VALUE
      else if cc_mode (cf_crypto cfg) = Mode_Psk \<and> cc_psk_path (cf_crypto cfg) = [] then Err EC_CONFIG_MISSING_REQUIRED
      else if cc_mode (cf_crypto cfg) = Mode_Pki \<and> (cc_cert_path (cf_crypto cfg) = [] \<or> cc_key_path (cf_crypto cfg) = [] \<or>
        cc_ca_path (cf_crypto cfg) = []) then Err EC_CONFIG_MISSING_REQUIRED
      else Ok ())"

text \<open>A section that is looked up in the root, which can throw there; the last component is what was logged.\<close>

definition y_section :: "('y, 'z) yaml_scheme \<Rightarrow> 'y \<Rightarrow> bytes \<Rightarrow> ('y \<Rightarrow> Config Result \<times> bytes list) \<Rightarrow> Config
    \<Rightarrow> (Config \<Rightarrow> Config Result \<times> bytes list) \<Rightarrow> Config Result \<times> bytes list" where
  "y_section y root key apply' cfg next' = (case y_get y root key of
      Y_throws \<Rightarrow> (Err EC_CONFIG_INVALID_VALUE, [str ''yaml field extract failed''])
    | Y_undefined \<Rightarrow> next' cfg
    | Y_node n \<Rightarrow> (case apply' n of
          (Ok cfg, logged) \<Rightarrow> (case next' cfg of (r, logged') \<Rightarrow> (r, logged @ logged'))
        | (r, logged) \<Rightarrow> (Err (error r), logged)))"

definition load_from_string :: "('y, 'z) yaml_scheme \<Rightarrow> bytes \<Rightarrow> Config Result \<times> bytes list" where
  "load_from_string y yaml_content = (case y_load y yaml_content of
      None \<Rightarrow> (Err EC_CONFIG_PARSE_FAILED, [str ''yaml parse failed''])
    | Some root \<Rightarrow>
        if \<not> y_defined y root then (Err EC_CONFIG_PARSE_FAILED, [])
        else (case apply_top_level y root config_default of
          Ok cfg \<Rightarrow>
            y_section y root (str ''net'') (\<lambda>n. (map_res (\<lambda>v. cfg\<lparr>cf_net := v\<rparr>) (apply_net_section y n (cf_net cfg)), [])) cfg (\<lambda>cfg.
            y_section y root (str ''log'') (\<lambda>n. (map_res (\<lambda>v. cfg\<lparr>cf_log := v\<rparr>) (apply_log_section y n (cf_log cfg)), [])) cfg (\<lambda>cfg.
            y_section y root (str ''crypto'') (\<lambda>n. (case apply_crypto_section y n (cf_crypto cfg) of (r, logged) \<Rightarrow>
                (map_res (\<lambda>v. cfg\<lparr>cf_crypto := v\<rparr>) r, logged))) cfg (\<lambda>cfg.
            (case apply_whitelist y root (cf_peer_whitelist cfg) of
               Ok ws \<Rightarrow> (let cfg = cfg\<lparr>cf_peer_whitelist := ws\<rparr> in
                 (case validate cfg of Err e \<Rightarrow> Err e | _ \<Rightarrow> Ok cfg, []))
             | r \<Rightarrow> (Err (error r), [])))))
        | r \<Rightarrow> (Err (error r), [])))"

text \<open>\<open>file\<close>: what the path holds, \<open>None\<close> if it does not open.\<close>

definition load_from_file :: "('y, 'z) yaml_scheme \<Rightarrow> bytes option \<Rightarrow> Config Result \<times> bytes list" where
  "load_from_file y file = (case file of
      None \<Rightarrow> (Err EC_CONFIG_PARSE_FAILED, [str ''config file open failed''])
    | Some text \<Rightarrow> load_from_string y text)"

section \<open>What is accepted\<close>

text \<open>The value of a field: the document's if it is there and converts, else the default.\<close>

definition field_of :: "('y, 'z) yaml_scheme \<Rightarrow> 'y \<Rightarrow> string \<Rightarrow> ('y \<Rightarrow> 'v option) \<Rightarrow> 'v \<Rightarrow> 'v option" where
  "field_of y n key conv dflt = (case y_get y n (str key) of Y_throws \<Rightarrow> None | Y_undefined \<Rightarrow> Some dflt | Y_node v \<Rightarrow> conv v)"

definition net_of :: "('y, 'z) yaml_scheme \<Rightarrow> 'y \<Rightarrow> NetConfig option" where
  "net_of y n =
     Option.bind (field_of y n ''bind_address'' (y_string y) (str ''0.0.0.0'')) (\<lambda>addr.
     Option.bind (field_of y n ''bind_port'' (y_u16 y) 9876) (\<lambda>port.
     Option.bind (field_of y n ''heartbeat_interval_ms'' (y_u32 y) 1000) (\<lambda>hb.
     Option.bind (field_of y n ''discovery_interval_sec'' (y_u32 y) 30) (\<lambda>di.
     Some \<lparr>ncf_bind_address = addr, ncf_bind_port = port, ncf_heartbeat_interval_ms = hb, ncf_discovery_interval_sec = di\<rparr>))))"

definition log_of :: "('y, 'z) yaml_scheme \<Rightarrow> 'y \<Rightarrow> LogConfig option" where
  "log_of y n =
     Option.bind (field_of y n ''level'' (y_string y) (str ''info'')) (\<lambda>level.
     Option.bind (field_of y n ''to_file'' (y_bool y) False) (\<lambda>to_file.
     Option.bind (field_of y n ''file_path'' (y_string y) []) (\<lambda>path.
     Option.bind (field_of y n ''max_file_size'' (y_u64 y) 0) (\<lambda>size.
     Option.bind (field_of y n ''max_rotated_files'' (y_u32 y) 0) (\<lambda>files.
     Some \<lparr>lc_level = level, lc_to_file = to_file, lc_file_path = path, lc_max_file_size_bytes = size, lc_max_rotated_files = files\<rparr>)))))"

definition crypto_of :: "('y, 'z) yaml_scheme \<Rightarrow> 'y \<Rightarrow> CryptoConfig option" where
  "crypto_of y n =
     Option.bind (field_of y n ''mode'' (\<lambda>v. Option.bind (y_string y v) parse_network_mode) Mode_Psk) (\<lambda>mode.
     Option.bind (field_of y n ''psk_path'' (y_string y) []) (\<lambda>psk.
     Option.bind (field_of y n ''cert_path'' (y_string y) []) (\<lambda>cert.
     Option.bind (field_of y n ''key_path'' (y_string y) []) (\<lambda>key.
     Option.bind (field_of y n ''ca_path'' (y_string y) []) (\<lambda>ca.
     Some \<lparr>cc_mode = mode, cc_psk_path = psk, cc_cert_path = cert, cc_key_path = key, cc_ca_path = ca\<rparr>)))))"

definition config_of :: "('y, 'z) yaml_scheme \<Rightarrow> 'y \<Rightarrow> Config option" where
  "config_of y root =
     Option.bind (field_of y root ''node_id'' (y_string y) []) (\<lambda>node_id.
     Option.bind (field_of y root ''node_role'' (y_string y) []) (\<lambda>role.
     Option.bind (field_of y root ''schema_version'' (y_u32 y) 0) (\<lambda>version.
     Option.bind (field_of y root ''net'' (net_of y) net_default) (\<lambda>net.
     Option.bind (field_of y root ''log'' (log_of y) log_default) (\<lambda>log_cfg.
     Option.bind (field_of y root ''crypto'' (crypto_of y) crypto_default) (\<lambda>crypto.
     Option.bind (field_of y root ''peer_whitelist''
       (\<lambda>n. case y_sequence y n of None \<Rightarrow> Some [] | Some items \<Rightarrow> those (map (y_string y) items)) []) (\<lambda>peers.
     Some (config_default\<lparr>cf_node_id := node_id, cf_node_role := role, cf_schema_version := version, cf_net := net,
       cf_log := log_cfg, cf_crypto := crypto, cf_peer_whitelist := peers\<rparr>))))))))"

definition config_valid :: "Config \<Rightarrow> bool" where
  "config_valid cfg = (cf_node_id cfg \<noteq> [] \<and> cf_node_role cfg \<in> {str ''host'', str ''device''} \<and>
     ncf_bind_port (cf_net cfg) \<noteq> 0 \<and> ncf_heartbeat_interval_ms (cf_net cfg) \<noteq> 0 \<and> ncf_discovery_interval_sec (cf_net cfg) \<noteq> 0 \<and>
     parse_log_level (lc_level (cf_log cfg)) \<noteq> None \<and>
     (case cc_mode (cf_crypto cfg) of Mode_Psk \<Rightarrow> cc_psk_path (cf_crypto cfg) \<noteq> []
      | Mode_Pki \<Rightarrow> [] \<notin> {cc_cert_path (cf_crypto cfg), cc_key_path (cf_crypto cfg), cc_ca_path (cf_crypto cfg)}))"

lemma validate_iff: "validate cfg = Ok () \<longleftrightarrow> config_valid cfg"
  by (cases "cc_mode (cf_crypto cfg)") (auto simp: validate_def config_valid_def)

lemma validate_result: "validate cfg \<in> {Ok (), Err EC_CONFIG_MISSING_REQUIRED, Err EC_CONFIG_INVALID_VALUE}"
  by (simp add: validate_def)

lemma y_field_iff:
  "upd (sel c) c = c \<Longrightarrow> y_field y n (str key) conv upd c =
    (case field_of y n key conv (sel c) of None \<Rightarrow> Err EC_CONFIG_INVALID_VALUE | Some v \<Rightarrow> Ok (upd v c))"
  by (simp add: y_field_def field_of_def split: y_lookup.splits)

abbreviation "or_invalid \<equiv> case_option (Err EC_CONFIG_INVALID_VALUE) Ok"

lemma apply_net_section: "apply_net_section y n net_default = or_invalid (net_of y n)"
  unfolding apply_net_section_def net_of_def
  by (simp add: y_field_iff [where sel = ncf_bind_address] y_field_iff [where sel = ncf_bind_port]
      y_field_iff [where sel = ncf_heartbeat_interval_ms] y_field_iff [where sel = ncf_discovery_interval_sec]
      net_default_def del: str_simps split: option.split)

lemma apply_log_section: "apply_log_section y n log_default = or_invalid (log_of y n)"
  unfolding apply_log_section_def log_of_def
  by (simp add: y_field_iff [where sel = lc_level] y_field_iff [where sel = lc_to_file]
      y_field_iff [where sel = lc_file_path] y_field_iff [where sel = lc_max_file_size_bytes]
      y_field_iff [where sel = lc_max_rotated_files] log_default_def del: str_simps split: option.split)

lemma apply_mode:
  "fst (apply_mode y n c) = (case field_of y n ''mode'' (\<lambda>v. Option.bind (y_string y v) parse_network_mode) (cc_mode c) of
     None \<Rightarrow> Err EC_CONFIG_INVALID_VALUE | Some m \<Rightarrow> Ok (c\<lparr>cc_mode := m\<rparr>))"
  by (simp add: apply_mode_def field_of_def del: str_simps split: y_lookup.split option.split)

lemma apply_crypto_section: "fst (apply_crypto_section y n crypto_default) = or_invalid (crypto_of y n)"
  unfolding apply_crypto_section_def crypto_of_def
  by (simp add: case_prod_beta apply_mode y_field_iff [where sel = cc_psk_path] y_field_iff [where sel = cc_cert_path]
      y_field_iff [where sel = cc_key_path] y_field_iff [where sel = cc_ca_path] crypto_default_def del: str_simps split: option.split)

lemma config_default_fields [simp]:
  "cf_node_id config_default = []" "cf_node_role config_default = []" "cf_net config_default = net_default"
  "cf_log config_default = log_default" "cf_crypto config_default = crypto_default"
  "cf_peer_whitelist config_default = []" "cf_schema_version config_default = 0"
  by (simp_all add: config_default_def)

lemma y_section_fst:
  "fst (y_section y root key ap cfg nxt) = (case y_get y root key of
      Y_throws \<Rightarrow> Err EC_CONFIG_INVALID_VALUE
    | Y_undefined \<Rightarrow> fst (nxt cfg)
    | Y_node n \<Rightarrow> (case fst (ap n) of Ok cfg \<Rightarrow> fst (nxt cfg) | r \<Rightarrow> Err (error r)))"
  by (auto simp: y_section_def split: y_lookup.split Result.split prod.split)

lemma apply_top_level:
  "apply_top_level y root config_default =
    or_invalid (Option.bind (field_of y root ''node_id'' (y_string y) []) (\<lambda>node_id.
     Option.bind (field_of y root ''node_role'' (y_string y) []) (\<lambda>role.
     Option.bind (field_of y root ''schema_version'' (y_u32 y) 0) (\<lambda>version.
     Some (config_default\<lparr>cf_node_id := node_id, cf_node_role := role, cf_schema_version := version\<rparr>)))))"
  unfolding apply_top_level_def
  by (simp add: y_field_iff [where sel = cf_node_id] y_field_iff [where sel = cf_node_role]
      y_field_iff [where sel = cf_schema_version] config_default_def del: str_simps split: option.split)

lemma apply_whitelist:
  "apply_whitelist y root [] = or_invalid (field_of y root ''peer_whitelist''
     (\<lambda>n. case y_sequence y n of None \<Rightarrow> Some [] | Some items \<Rightarrow> those (map (y_string y) items)) [])"
  by (simp add: apply_whitelist_def field_of_def del: str_simps split: y_lookup.split option.split)

definition finish :: "Config \<Rightarrow> Config Result" where
  "finish cfg = (case validate cfg of Err e \<Rightarrow> Err e | _ \<Rightarrow> Ok cfg)"

lemma section_net:
  "(\<And>v. h v = cfg\<lparr>cf_net := v\<rparr>) \<Longrightarrow> cf_net cfg = net_default \<Longrightarrow>
    fst (y_section y root (str ''net'') (\<lambda>n. (map_res h (apply_net_section y n net_default), [])) cfg nxt) =
    (case field_of y root ''net'' (net_of y) net_default of
       None \<Rightarrow> Err EC_CONFIG_INVALID_VALUE | Some v \<Rightarrow> fst (nxt (h v)))"
  by (cases cfg) (simp add: y_section_fst apply_net_section case_prod_beta field_of_def del: str_simps
      split: y_lookup.split option.split)

lemma section_log:
  "(\<And>v. h v = cfg\<lparr>cf_log := v\<rparr>) \<Longrightarrow> cf_log cfg = log_default \<Longrightarrow>
    fst (y_section y root (str ''log'') (\<lambda>n. (map_res h (apply_log_section y n log_default), [])) cfg nxt) =
    (case field_of y root ''log'' (log_of y) log_default of
       None \<Rightarrow> Err EC_CONFIG_INVALID_VALUE | Some v \<Rightarrow> fst (nxt (h v)))"
  by (cases cfg) (simp add: y_section_fst apply_log_section case_prod_beta field_of_def del: str_simps
      split: y_lookup.split option.split)

lemma section_crypto:
  "(\<And>v. h v = cfg\<lparr>cf_crypto := v\<rparr>) \<Longrightarrow> cf_crypto cfg = crypto_default \<Longrightarrow>
    fst (y_section y root (str ''crypto'') (\<lambda>n. (case apply_crypto_section y n crypto_default of (r, logged) \<Rightarrow> (map_res h r, logged))) cfg nxt) =
    (case field_of y root ''crypto'' (crypto_of y) crypto_default of
       None \<Rightarrow> Err EC_CONFIG_INVALID_VALUE | Some v \<Rightarrow> fst (nxt (h v)))"
  by (cases cfg) (simp add: y_section_fst apply_crypto_section case_prod_beta field_of_def del: str_simps
      split: y_lookup.split option.split)

lemma load_from_string_fst:
  "fst (load_from_string y s) = (case y_load y s of
      None \<Rightarrow> Err EC_CONFIG_PARSE_FAILED
    | Some root \<Rightarrow> if \<not> y_defined y root then Err EC_CONFIG_PARSE_FAILED
        else (case config_of y root of None \<Rightarrow> Err EC_CONFIG_INVALID_VALUE | Some cfg \<Rightarrow> finish cfg))"
proof (cases "y_load y s")
  case (Some root)
  show ?thesis
  proof (cases "y_defined y root")
    case True
    have t: "(case or_invalid top of Ok cfg \<Rightarrow> nxt cfg | r \<Rightarrow> (Err (error r), [])) =
        (case top of None \<Rightarrow> (Err EC_CONFIG_INVALID_VALUE, []) | Some cfg \<Rightarrow> nxt cfg)" for top and nxt :: "Config \<Rightarrow> Config Result \<times> bytes list"
      by (simp split: option.split)
    have w: "fst (case apply_whitelist y root [] of
               Ok ws \<Rightarrow> (let cfg = cfg\<lparr>cf_peer_whitelist := ws\<rparr> in (case validate cfg of Err e \<Rightarrow> Err e | _ \<Rightarrow> Ok cfg, []))
             | r \<Rightarrow> (Err (error r), [])) =
        (case field_of y root ''peer_whitelist''
            (\<lambda>n. case y_sequence y n of None \<Rightarrow> Some [] | Some items \<Rightarrow> those (map (y_string y) items)) [] of
           None \<Rightarrow> Err EC_CONFIG_INVALID_VALUE | Some ws \<Rightarrow> finish (cfg\<lparr>cf_peer_whitelist := ws\<rparr>))" for cfg
      by (simp add: apply_whitelist finish_def Let_def split: option.split)
    show ?thesis
      unfolding load_from_string_def Some option.case apply_top_level t config_of_def
      by (simp add: True section_net section_log section_crypto w del: str_simps
          split: Option.bind_split option.split)
  qed (simp add: load_from_string_def Some)
qed (simp add: load_from_string_def)

text \<open>
  C35. Which configurations are accepted: loading succeeds exactly for documents that parse, whose
  fields all convert, and whose values, completed by the defaults, are valid; the result has
  exactly these values. Otherwise the error says which of the three steps failed.
\<close>

theorem config_load_iff:
  "(fst (load_from_string y text) = Ok cfg \<longleftrightarrow>
      (\<exists>root. y_load y text = Some root \<and> y_defined y root \<and> config_of y root = Some cfg \<and> config_valid cfg)) \<and>
   (fst (load_from_string y text) = Err EC_CONFIG_PARSE_FAILED \<longleftrightarrow>
      Option.bind (y_load y text) (\<lambda>root. if y_defined y root then Some root else None) = None) \<and>
   fst (load_from_string y text) \<in> range Ok \<union>
      {Err EC_CONFIG_PARSE_FAILED, Err EC_CONFIG_INVALID_VALUE, Err EC_CONFIG_MISSING_REQUIRED}"
proof -
  let ?R = "range Ok \<union> {Err EC_CONFIG_PARSE_FAILED, Err EC_CONFIG_INVALID_VALUE, Err EC_CONFIG_MISSING_REQUIRED}"
  have fin: "finish c = Ok c' \<longleftrightarrow> c' = c \<and> config_valid c" "finish c \<noteq> Err EC_CONFIG_PARSE_FAILED" "finish c \<in> ?R" for c c'
    using validate_iff [of c] validate_result [of c] by (auto simp: finish_def split: Result.split)
  then have "fst (load_from_string y text) \<in> ?R"
    unfolding load_from_string_fst by (auto split: option.split simp del: Un_iff)
  then show ?thesis
    unfolding load_from_string_fst by (auto simp: fin(1,2) split: option.split)
qed

end
