(* ===== verification/Logger.thy ===== *)
theory Logger
  imports Config
begin

text \<open>
  \<open>src/core/log/\<close>: the logger. The spdlog library is modelled by what the code relies on: a
  logger object has a threshold and a target, and writes the messages that reach the threshold.
  Whether a sink can be made is an argument of \<open>init\<close>.

  Shown: after any calls what is written is what the reported level lets through, except after a
  failed \<open>init\<close>, when nothing is written any more.
\<close>

section \<open>Levels\<close>

fun level_number :: "LogLevel \<Rightarrow> nat" where
  "level_number L_Trace = 0"
| "level_number L_Debug = 1"
| "level_number L_Info = 2"
| "level_number L_Warn = 3"
| "level_number L_Error = 4"
| "level_number L_Critical = 5"
| "level_number L_Off = 6"

text \<open>spdlog's numbers: trace 0, debug 1, info 2, warn 3, err 4, critical 5, off 6.\<close>

definition to_spdlog_level :: "LogLevel \<Rightarrow> nat" where
  "to_spdlog_level l = (case l of L_Trace \<Rightarrow> 0 | L_Debug \<Rightarrow> 1 | L_Info \<Rightarrow> 2 | L_Warn \<Rightarrow> 3 | L_Error \<Rightarrow> 4
     | L_Critical \<Rightarrow> 5 | L_Off \<Rightarrow> 6)"

instantiation LogLevel :: linorder
begin

definition less_eq_LogLevel :: "LogLevel \<Rightarrow> LogLevel \<Rightarrow> bool" where
  "less_eq_LogLevel a b = (level_number a \<le> level_number b)"

definition less_LogLevel :: "LogLevel \<Rightarrow> LogLevel \<Rightarrow> bool" where
  "less_LogLevel a b = (level_number a < level_number b)"

instance
proof
  fix a b :: LogLevel
  show "a \<le> b \<Longrightarrow> b \<le> a \<Longrightarrow> a = b"
    by (cases a; cases b) (simp_all add: less_eq_LogLevel_def)
qed (auto simp: less_eq_LogLevel_def less_LogLevel_def)

end

lemma to_spdlog_level_mono: "to_spdlog_level a \<le> to_spdlog_level b \<longleftrightarrow> a \<le> b"
  by (cases a; cases b) (simp_all add: to_spdlog_level_def less_eq_LogLevel_def)

section \<open>The logger\<close>

record LoggerConfig =
  lg_level :: LogLevel
  lg_to_file :: bool
  lg_file_path :: bytes
  lg_max_file_size_bytes :: u64
  lg_max_rotated_files :: u32
  lg_include_thread_id :: bool
  lg_pattern :: bytes

definition logger_config_default :: LoggerConfig where
  "logger_config_default = \<lparr>lg_level = L_Info, lg_to_file = False, lg_file_path = [], lg_max_file_size_bytes = 0,
     lg_max_rotated_files = 0, lg_include_thread_id = False, lg_pattern = []\<rparr>"

text \<open>A target: the standard output, or a rotating file with its path, size limit and number of files.\<close>

datatype sink = Stdout_sink | File_sink bytes u64 u32

record spd_logger =
  spd_sink :: sink
  spd_level :: nat
  spd_pattern :: bytes

record logger_impl =
  li_spd :: "spd_logger option"
  li_level :: LogLevel
  li_initialized :: bool

type_synonym logger = "logger_impl option"

definition default_pattern :: bytes where
  "default_pattern = str ''[%Y-%m-%d %H:%M:%S.%e] [%^%l%$] %v''"

definition tid_pattern :: bytes where
  "tid_pattern = str ''[%Y-%m-%d %H:%M:%S.%e] [%^%l%$] [tid %t] %v''"

definition logger_instance :: "logger \<Rightarrow> logger" where
  "logger_instance st = (case st of
      None \<Rightarrow> Some \<lparr>li_spd = Some \<lparr>spd_sink = Stdout_sink, spd_level = 2, spd_pattern = default_pattern\<rparr>,
        li_level = L_Info, li_initialized = True\<rparr>
    | Some i \<Rightarrow> Some i)"

text \<open>The old logger is dropped before the new one is made. \<open>sink_ok\<close>: the sink's constructor does not throw.\<close>

definition logger_init :: "bool \<Rightarrow> LoggerConfig \<Rightarrow> logger \<Rightarrow> unit Result \<times> logger" where
  "logger_init sink_ok config st =
     (let i = (case st of None \<Rightarrow> \<lparr>li_spd = None, li_level = L_Info, li_initialized = False\<rparr> | Some i \<Rightarrow> i);
          i = i\<lparr>li_spd := None\<rparr> in
      if lg_to_file config \<and> lg_file_path config = [] then (Err EC_CONFIG_INVALID_VALUE, Some i)
      else if \<not> sink_ok then (Err EC_CONFIG_INVALID_VALUE, Some i)
      else
        let sk = (if lg_to_file config then
              File_sink (lg_file_path config) (if lg_max_file_size_bytes config > 0 then lg_max_file_size_bytes config else - 1)
                (if lg_max_rotated_files config > 0 then lg_max_rotated_files config else 1)
            else Stdout_sink);
            pat = (if lg_include_thread_id config then tid_pattern
              else if lg_pattern config \<noteq> [] then lg_pattern config else default_pattern) in
        (Ok (), Some (i\<lparr>li_spd := Some \<lparr>spd_sink = sk, spd_level = to_spdlog_level (lg_level config), spd_pattern = pat\<rparr>,
           li_level := lg_level config, li_initialized := True\<rparr>)))"

definition set_level :: "LogLevel \<Rightarrow> logger \<Rightarrow> logger" where
  "set_level l st = (case st of
      None \<Rightarrow> None
    | Some i \<Rightarrow> (case li_spd i of
          None \<Rightarrow> Some i
        | Some s \<Rightarrow> Some (i\<lparr>li_spd := Some (s\<lparr>spd_level := to_spdlog_level l\<rparr>), li_level := l\<rparr>)))"

definition logger_shutdown :: "logger \<Rightarrow> logger" where
  "logger_shutdown st = None"

definition logger_level :: "logger \<Rightarrow> LogLevel" where
  "logger_level st = (case st of Some i \<Rightarrow> li_level i | None \<Rightarrow> L_Info)"

text \<open>What a call of \<open>trace\<close> to \<open>critical\<close> writes, and where.\<close>

definition logger_log :: "LogLevel \<Rightarrow> bytes \<Rightarrow> logger \<Rightarrow> (sink \<times> LogLevel \<times> bytes) list" where
  "logger_log l msg st = (case st of
      None \<Rightarrow> []
    | Some i \<Rightarrow> (case li_spd i of
          None \<Rightarrow> []
        | Some s \<Rightarrow> if spd_level s \<le> to_spdlog_level l then [(spd_sink s, l, msg)] else []))"

definition upper_hex :: "nat \<Rightarrow> byte" where
  "upper_hex d = str ''0123456789ABCDEF'' ! d"

definition hex4 :: "u16 \<Rightarrow> bytes" where
  "hex4 w = map (\<lambda>k. upper_hex (unat w div 16 ^ k mod 16)) [3, 2, 1, 0]"

definition error_text :: "bytes \<Rightarrow> ErrorCode \<Rightarrow> bytes" where
  "error_text msg code = msg @ str '' | error_code=0x'' @ hex4 (code_of code) @ str '' '' @ str (category_of code) @ str '':''
     @ str (to_string_code code)"

definition log_with_error :: "LogLevel \<Rightarrow> bytes \<Rightarrow> ErrorCode \<Rightarrow> logger \<Rightarrow> (sink \<times> LogLevel \<times> bytes) list" where
  "log_with_error l msg code st = logger_log l (error_text msg code) st"

section \<open>What is written\<close>

datatype log_op = O_instance | O_init bool LoggerConfig | O_set_level LogLevel | O_shutdown

fun log_step :: "log_op \<Rightarrow> logger \<Rightarrow> logger" where
  "log_step O_instance st = logger_instance st"
| "log_step (O_init sink_ok config) st = snd (logger_init sink_ok config st)"
| "log_step (O_set_level l) st = set_level l st"
| "log_step O_shutdown st = logger_shutdown st"

definition has_sink :: "logger \<Rightarrow> bool" where
  "has_sink st = (case st of None \<Rightarrow> False | Some i \<Rightarrow> li_spd i \<noteq> None)"

definition logger_ok :: "logger \<Rightarrow> bool" where
  "logger_ok st = (case st of None \<Rightarrow> True | Some i \<Rightarrow> (case li_spd i of None \<Rightarrow> True | Some s \<Rightarrow> spd_level s = to_spdlog_level (li_level i)))"

interpretation log_sys: guarded_system logger_ok log_step
proof
  fix st l
  show "logger_ok st \<Longrightarrow> logger_ok (log_step l st)"
    by (cases l) (auto simp: logger_ok_def logger_instance_def logger_init_def set_level_def logger_shutdown_def
        to_spdlog_level_def Let_def split: option.split)
qed

lemma logger_log_ok:
  "logger_ok st \<Longrightarrow> logger_log l msg st \<noteq> [] \<longleftrightarrow> has_sink st \<and> logger_level st \<le> l"
  by (auto simp: logger_ok_def logger_log_def has_sink_def logger_level_def to_spdlog_level_mono split: option.split)

text \<open>A sink is there after \<open>instance\<close> from scratch or a successful \<open>init\<close>; a failed \<open>init\<close> takes it away for good.\<close>

fun sink_after :: "log_op list \<Rightarrow> bool \<times> bool" where
  "sink_after [] = (False, False)"
| "sink_after (op # ops) = (case sink_after ops of (object, snk) \<Rightarrow> (case op of
      O_instance \<Rightarrow> (True, if object then snk else True)
    | O_init sink_ok config \<Rightarrow> (True, sink_ok \<and> \<not> (lg_to_file config \<and> lg_file_path config = []))
    | O_set_level _ \<Rightarrow> (object, snk)
    | O_shutdown \<Rightarrow> (False, False)))"

lemma sink_after: "sink_after (rev ops) = (fold log_step ops None \<noteq> None, has_sink (fold log_step ops None))"
proof (induction ops rule: rev_induct)
  case (snoc op ops)
  then show ?case
    by (cases op) (auto simp: logger_instance_def logger_init_def set_level_def logger_shutdown_def has_sink_def Let_def
        split: option.split)
qed (simp add: has_sink_def)

text \<open>
  What the logger writes: after any sequence of \<open>instance\<close>, \<open>init\<close>, \<open>set_level\<close> and
  \<open>shutdown\<close>, a message is written exactly if its level reaches \<open>level()\<close> and there is a sink;
  there is none before the first \<open>instance\<close> or \<open>init\<close>, after a \<open>shutdown\<close>, and after an
  \<open>init\<close> that failed, which neither \<open>instance\<close> nor \<open>set_level\<close> repairs.
\<close>

theorem logger_writes_iff:
  "let st = fold log_step ops None in
   (logger_log l msg st \<noteq> []) = (snd (sink_after (rev ops)) \<and> logger_level st \<le> l) \<and>
   logger_log l msg (log_step O_instance (log_step (O_init False config) st)) = [] \<and>
   logger_log l msg (log_step (O_set_level l') (log_step (O_init False config) st)) = []"
proof -
  have "logger_ok (fold log_step ops None)" by (rule log_sys.fold_ok) (simp add: logger_ok_def)
  then show ?thesis
    by (simp add: Let_def logger_log_ok sink_after)
      (simp add: logger_log_def logger_init_def logger_instance_def set_level_def Let_def)
qed

end
