(* ===== verification/Sdk.thy ===== *)
theory Sdk
  imports Registry Topology Audit_Log Config
begin

text \<open>
  \<open>src/sdk/sdk/\<close>: the client, which ties the registry, the whitelist, the topology and the
  audit log together. The log file is a component of the client's state; the clock, SHA-512 and
  what the file system does in a call are the call's environment. The SDK offers no way to
  subscribe to its registry, so there are no callbacks.

  Shown: the audit log of a client verifies after any use with well-behaved names and, direct calls
  of \<open>audit\<close> aside, holds remote operations for nodes on the whitelist only; a refused operation leaves no trace; fingerprints
  survive the way in and out.
\<close>

record ClientConfig =
  sc_node_id :: bytes
  sc_bind_address :: bytes
  sc_bind_port :: u16
  sc_audit_path :: bytes

record TopologySummary =
  ts_node_count :: nat
  ts_edge_count :: nat
  ts_nodes :: "bytes list"

record TrustEntry =
  te_node_id :: bytes
  te_fingerprint_sha256_hex :: bytes
  te_capabilities :: "bytes list"

record client =
  cl_cfg :: ClientConfig
  cl_registry :: "unit registry"
  cl_audit :: "audit option"
  cl_whitelist :: whitelist
  cl_topology :: topology
  cl_file :: "bytes option"

record sdk_env =
  se_H :: "bytes \<Rightarrow> bytes"
  se_can_write :: bool
  se_io :: stream_io
  se_now :: int

section \<open>Operations\<close>

definition client_new :: "sdk_env \<Rightarrow> bytes \<Rightarrow> ClientConfig \<Rightarrow> bytes option \<Rightarrow> client" where
  "client_new env rnd cfg file =
     (let c = \<lparr>cl_cfg = cfg, cl_registry = registry_new, cl_audit = None, cl_whitelist = [],
        cl_topology = \<lparr>t_nodes = [], t_edges = []\<rparr>, cl_file = file\<rparr> in
      if sc_audit_path cfg \<noteq> [] then
        (case audit_open (se_H env) rnd (se_now env) (se_can_write env) (se_io env) file of
           (a, file) \<Rightarrow> c\<lparr>cl_audit := Some a, cl_file := file\<rparr>)
      else c)"

text \<open>\<open>audit_logger->append\<close>, the actor being this node.\<close>

definition client_append :: "sdk_env \<Rightarrow> ActionType \<Rightarrow> bytes \<Rightarrow> bytes \<Rightarrow> client \<Rightarrow> u64 Result \<times> client" where
  "client_append env action target params_json c = (case cl_audit c of
      None \<Rightarrow> (Err EC_INTERNAL, c)
    | Some a \<Rightarrow>
        (case audit_append (se_H env) (se_can_write env) (se_io env) (se_now env) action (sc_node_id (cl_cfg c)) target params_json
            (a, cl_file c) of
           (r, a, file) \<Rightarrow> (r, c\<lparr>cl_audit := Some a, cl_file := file\<rparr>)))"

definition client_start :: "sdk_env \<Rightarrow> client \<Rightarrow> unit Result \<times> client" where
  "client_start env c = (Ok (),
     if cl_audit c \<noteq> None then snd (client_append env NodeRegister (str ''client'') (str ''{\"event\":\"start\"}'') c) else c)"

definition client_stop :: "sdk_env \<Rightarrow> client \<Rightarrow> unit Result \<times> client" where
  "client_stop env c = (Ok (),
     if cl_audit c \<noteq> None then snd (client_append env NodeUnregister (str ''client'') (str ''{\"event\":\"stop\"}'') c) else c)"

definition client_discover :: "bytes \<Rightarrow> client \<Rightarrow> RegistryEntry list" where
  "client_discover capability_filter c = reg_snapshot (cl_registry c)"

definition client_audit :: "sdk_env \<Rightarrow> ActionType \<Rightarrow> bytes \<Rightarrow> bytes \<Rightarrow> client \<Rightarrow> u64 Result \<times> client" where
  "client_audit env action target params_json c =
     (if cl_audit c = None then (Err EC_INTERNAL, c) else client_append env action target params_json c)"

definition client_sequence :: "client \<Rightarrow> u64" where
  "client_sequence c = (case cl_audit c of Some a \<Rightarrow> audit_sequence a | None \<Rightarrow> 0)"

definition topology_summary :: "client \<Rightarrow> TopologySummary" where
  "topology_summary c = (let entries = reg_snapshot (cl_registry c) in
     \<lparr>ts_node_count = length entries, ts_edge_count = 0, ts_nodes = map re_node_id entries\<rparr>)"

definition topology_commit :: "TopologyTransaction \<Rightarrow> client \<Rightarrow> unit Result \<times> client" where
  "topology_commit tx c = (case commit tx (cl_topology c) of (r, t) \<Rightarrow> (r, c\<lparr>cl_topology := t\<rparr>))"

definition push_json :: "bytes \<Rightarrow> bytes \<Rightarrow> bytes \<Rightarrow> bytes" where
  "push_json src dst_node dst_path = str ''{\"src\":\"'' @ src @ str ''\",\"dst_node\":\"'' @ dst_node @
     str ''\",\"dst_path\":\"'' @ dst_path @ str ''\"}''"

definition push_file :: "sdk_env \<Rightarrow> bytes \<Rightarrow> bytes \<Rightarrow> bytes \<Rightarrow> client \<Rightarrow> u64 Result \<times> client" where
  "push_file env src dst_node dst_path c =
     (if cl_audit c = None then (Err EC_INTERNAL, c)
      else if src = [] \<or> dst_node = [] \<or> dst_path = [] then (Err EC_INVALID_ARG, c)
      else if \<not> wl_contains dst_node [] (cl_whitelist c) then (Err EC_BIZ_AUTH_UNTRUSTED, c)
      else client_append env FileTransfer dst_node (push_json src dst_node dst_path) c)"

definition pull_json :: "bytes \<Rightarrow> bytes \<Rightarrow> bytes \<Rightarrow> bytes" where
  "pull_json src_node src_path dst = str ''{\"src_node\":\"'' @ src_node @ str ''\",\"src_path\":\"'' @ src_path @
     str ''\",\"dst\":\"'' @ dst @ str ''\"}''"

definition pull_file :: "sdk_env \<Rightarrow> bytes \<Rightarrow> bytes \<Rightarrow> bytes \<Rightarrow> client \<Rightarrow> u64 Result \<times> client" where
  "pull_file env src_node src_path dst c =
     (if cl_audit c = None then (Err EC_INTERNAL, c)
      else if \<not> wl_contains src_node [] (cl_whitelist c) then (Err EC_BIZ_AUTH_UNTRUSTED, c)
      else client_append env FileTransfer src_node (pull_json src_node src_path dst) c)"

fun join_args :: "bytes list \<Rightarrow> bytes" where
  "join_args [] = []"
| "join_args [a] = str ''\"'' @ a @ str ''\"''"
| "join_args (a # as) = str ''\"'' @ a @ str ''\",'' @ join_args as"

definition run_json :: "bytes \<Rightarrow> bytes list \<Rightarrow> bytes" where
  "run_json command args = str ''{\"cmd\":\"'' @ command @ str ''\",\"args\":['' @ join_args args @ str '']}''"

definition run_remote :: "sdk_env \<Rightarrow> bytes \<Rightarrow> bytes \<Rightarrow> bytes list \<Rightarrow> client \<Rightarrow> u64 Result \<times> client" where
  "run_remote env node_id command args c =
     (if \<not> wl_contains node_id [] (cl_whitelist c) then (Err EC_BIZ_AUTH_UNTRUSTED, c)
      else if command = [] then (Err EC_INVALID_ARG, c)
      else if cl_audit c = None then (Err EC_INTERNAL, c)
      else client_append env CmdExec node_id (run_json command args) c)"

definition list_nodes :: "client \<Rightarrow> bytes list" where
  "list_nodes c = map re_node_id (reg_snapshot (cl_registry c))"

definition client_register_node :: "bytes \<Rightarrow> bytes \<Rightarrow> bytes \<Rightarrow> u16 \<Rightarrow> client \<Rightarrow> bool Result \<times> client" where
  "client_register_node node_id hostname bind_addr bind_port c =
     (let e = \<lparr>re_node_id = node_id, re_hostname = hostname, re_bind_address = bind_addr, re_bind_port = bind_port,
        re_services = [], re_last_heartbeat_ns = 0\<rparr> in
      case register_node e (cl_registry c) of (r, reg, _) \<Rightarrow> (r, c\<lparr>cl_registry := reg\<rparr>))"

definition client_unregister_node :: "bytes \<Rightarrow> client \<Rightarrow> bool Result \<times> client" where
  "client_unregister_node node_id c =
     (case unregister_node node_id (cl_registry c) of (r, reg, _) \<Rightarrow> (r, c\<lparr>cl_registry := reg\<rparr>))"

subsection \<open>The whitelist\<close>

definition nibble_char :: "nat \<Rightarrow> byte" where
  "nibble_char d = of_nat (if d < 10 then 48 + d else 97 + d - 10)"

definition fingerprint_hex :: "bytes \<Rightarrow> bytes" where
  "fingerprint_hex bs = concat (map (\<lambda>b. [nibble_char (unat (drop_bit 4 b AND 0x0F)), nibble_char (unat (b AND 0x0F))]) bs)"

definition trust_list :: "client \<Rightarrow> TrustEntry list" where
  "trust_list c = map (\<lambda>e. \<lparr>te_node_id = wl_node_id e, te_fingerprint_sha256_hex = fingerprint_hex (wl_fingerprint_sha256 e),
     te_capabilities = wl_allowed_capabilities e\<rparr>) (wl_snapshot (cl_whitelist c))"

definition hexv :: "byte \<Rightarrow> nat option" where
  "hexv c = (if 48 \<le> unat c \<and> unat c \<le> 57 then Some (unat c - 48)
     else if 97 \<le> unat c \<and> unat c \<le> 102 then Some (10 + (unat c - 97))
     else if 65 \<le> unat c \<and> unat c \<le> 70 then Some (10 + (unat c - 65))
     else None)"

fun parse_hex :: "bytes \<Rightarrow> bytes option" where
  "parse_hex (h # l # s) = (case (hexv h, hexv l) of
      (Some hi, Some lo) \<Rightarrow> map_option ((#) (of_nat (push_bit 4 hi OR lo))) (parse_hex s)
    | _ \<Rightarrow> None)"
| "parse_hex _ = Some []"

definition trust_add :: "sdk_env \<Rightarrow> bytes \<Rightarrow> bytes \<Rightarrow> bytes list \<Rightarrow> client \<Rightarrow> bool Result \<times> client" where
  "trust_add env node_id fp_hex capabilities c =
     (if length fp_hex \<noteq> 64 then (Err EC_INVALID_ARG, c)
      else case parse_hex fp_hex of
        None \<Rightarrow> (Err EC_INVALID_ARG, c)
      | Some fp \<Rightarrow>
          (case wl_add \<lparr>wl_node_id = node_id, wl_fingerprint_sha256 = fp,
              wl_allowed_capabilities = fold List.insert capabilities []\<rparr> (cl_whitelist c) of
             (r, wl) \<Rightarrow>
               let c = c\<lparr>cl_whitelist := wl\<rparr> in
               (r, if is_ok r \<and> cl_audit c \<noteq> None
                   then snd (client_append env WhitelistUpdate node_id (str ''{\"event\":\"add\"}'') c) else c)))"

definition trust_remove :: "sdk_env \<Rightarrow> bytes \<Rightarrow> client \<Rightarrow> bool Result \<times> client" where
  "trust_remove env node_id c = (case wl_remove node_id (cl_whitelist c) of
      (Ok b, wl) \<Rightarrow>
        let c = c\<lparr>cl_whitelist := wl\<rparr> in
        if \<not> b then (Err EC_NODE_NOT_FOUND, c)
        else (Ok b, if cl_audit c \<noteq> None
          then snd (client_append env WhitelistUpdate node_id (str ''{\"event\":\"remove\"}'') c) else c)
    | (r, wl) \<Rightarrow> (r, c\<lparr>cl_whitelist := wl\<rparr>))"

subsection \<open>Credentials, migration, configuration\<close>

definition rotate_json :: "bytes \<Rightarrow> bytes" where
  "rotate_json path = str ''{\"new_psk_path\":\"'' @ path @ str ''\"}''"

definition psk_rotate :: "sdk_env \<Rightarrow> bytes \<Rightarrow> client \<Rightarrow> u64 Result \<times> client" where
  "psk_rotate env new_psk_path c =
     (if cl_audit c = None then (Err EC_INTERNAL, c)
      else if new_psk_path = [] then (Err EC_INVALID_ARG, c)
      else client_append env CredentialRotate (str ''self'') (rotate_json new_psk_path) c)"

definition auth_psk :: "sdk_env \<Rightarrow> bytes \<Rightarrow> client \<Rightarrow> u64 Result \<times> client" where
  "auth_psk env node_id c =
     (if cl_audit c = None then (Err EC_INTERNAL, c)
      else if \<not> wl_contains node_id [] (cl_whitelist c) then (Err EC_BIZ_AUTH_UNTRUSTED, c)
      else client_append env Act_PskHandshake node_id (str ''{\"mode\":\"psk\"}'') c)"

definition migrate_json :: "bytes \<Rightarrow> bytes \<Rightarrow> bytes" where
  "migrate_json src dst = str ''{\"src\":\"'' @ src @ str ''\",\"dst\":\"'' @ dst @ str ''\"}''"

definition migrate :: "sdk_env \<Rightarrow> bytes \<Rightarrow> bytes \<Rightarrow> client \<Rightarrow> u64 Result \<times> client" where
  "migrate env src_path dst_path c =
     (if cl_audit c = None then (Err EC_INTERNAL, c)
      else if src_path = [] \<or> dst_path = [] then (Err EC_INVALID_ARG, c)
      else client_append env AuditExport (str ''self'') (migrate_json src_path dst_path) c)"

definition config_show :: "client \<Rightarrow> bytes" where
  "config_show c = str ''node_id='' @ sc_node_id (cl_cfg c) @ str '' bind_address='' @ sc_bind_address (cl_cfg c) @
     str '' bind_port='' @ dec_nat (unat (sc_bind_port (cl_cfg c))) @ str '' audit_path='' @ sc_audit_path (cl_cfg c) @
     str '' nodes='' @ dec_nat (reg_size (cl_registry c)) @ str '' trust_entries='' @ dec_nat (wl_size (cl_whitelist c))"

section \<open>The audit log of a client\<close>

text \<open>The client has a logger, and it and the file stand for the events \<open>evs\<close>.\<close>

definition client_logs :: "(bytes \<Rightarrow> bytes) \<Rightarrow> bytes \<Rightarrow> AuditEvent list \<Rightarrow> client \<Rightarrow> bool" where
  "client_logs H g evs c = (plain (sc_node_id (cl_cfg c)) \<and>
     (case cl_audit c of None \<Rightarrow> False | Some a \<Rightarrow> log_holds H g evs (a, cl_file c)))"

definition env_good :: "(bytes \<Rightarrow> bytes) \<Rightarrow> sdk_env \<Rightarrow> bool" where
  "env_good H env = (se_H env = H \<and> se_can_write env \<and> se_io env = IO_ok \<and> - (2 ^ 63) \<le> se_now env \<and> se_now env < 2 ^ 63)"

type_synonym log_record = "ActionType \<times> bytes \<times> bytes \<times> bytes \<times> int"

text \<open>\<open>c'\<close> has the log of \<open>c\<close> with at most one further event, whose record satisfies \<open>P\<close>.\<close>

definition extends :: "(bytes \<Rightarrow> bytes) \<Rightarrow> bytes \<Rightarrow> AuditEvent list \<Rightarrow> (log_record \<Rightarrow> bool) \<Rightarrow> client \<Rightarrow> bool" where
  "extends H g evs P c' = (\<exists>evs'. client_logs H g (evs @ evs') c' \<and> length evs' \<le> 1 \<and> list_all P (map event_record evs'))"

lemma extends_same:
  "client_logs H g evs c \<Longrightarrow> cl_cfg c' = cl_cfg c \<Longrightarrow> cl_audit c' = cl_audit c \<Longrightarrow> cl_file c' = cl_file c \<Longrightarrow> extends H g evs P c'"
  unfolding extends_def by (intro exI [of _ "[]"]) (simp add: client_logs_def split: option.splits)

lemma client_append_holds:
  assumes "client_logs H g evs c" "env_good H env" "plain target" "newline \<notin> set params"
  shows "\<exists>ev c'. client_append env action target params c = (Ok (of_nat (Suc (length evs))), c') \<and>
    client_logs H g (evs @ [ev]) c' \<and> cl_cfg c' = cl_cfg c \<and> cl_whitelist c' = cl_whitelist c \<and> cl_registry c' = cl_registry c \<and>
    event_record ev = (action, sc_node_id (cl_cfg c), target, params, se_now env)"
proof -
  obtain a where a: "cl_audit c = Some a" "log_holds H g evs (a, cl_file c)" "plain (sc_node_id (cl_cfg c))"
    using assms(1) by (auto simp: client_logs_def split: option.splits)
  have env: "se_H env = H" "se_can_write env" "se_io env = IO_ok" "- (2 ^ 63) \<le> se_now env" "se_now env < 2 ^ 63"
    using assms(2) by (simp_all add: env_good_def)
  obtain r a' f' where app: "audit_append H True IO_ok (se_now env) action (sc_node_id (cl_cfg c)) target params (a, cl_file c) = (r, a', f')"
    using prod_cases3 by blast
  let ?ev = "fresh_event H a action (sc_node_id (cl_cfg c)) target params (se_now env)"
  have "r = Ok (of_nat (Suc (length evs)))" "log_holds H g (evs @ [?ev]) (a', f')"
    using log_holds_append [OF a(2,3) assms(3,4) env(4,5) app] by simp_all
  with a app env show ?thesis
    by (intro exI [of _ ?ev] exI [of _ "c\<lparr>cl_audit := Some a', cl_file := f'\<rparr>"])
      (simp add: client_append_def client_logs_def event_record_def fresh_event_def)
qed

lemma extends_append:
  assumes "client_logs H g evs c" "env_good H env" "plain target" "newline \<notin> set params"
    and "P (action, sc_node_id (cl_cfg c), target, params, se_now env)"
  shows "extends H g evs P (snd (client_append env action target params c))"
proof -
  obtain ev c' where "client_append env action target params c = (Ok (of_nat (Suc (length evs))), c')"
    "client_logs H g (evs @ [ev]) c'" "event_record ev = (action, sc_node_id (cl_cfg c), target, params, se_now env)"
    using client_append_holds [OF assms(1-4)] by blast
  with assms(5) show ?thesis unfolding extends_def by (intro exI [of _ "[ev]"]) simp
qed

lemma client_logs_cong: "cl_cfg c' = cl_cfg c \<Longrightarrow> cl_audit c' = cl_audit c \<Longrightarrow> cl_file c' = cl_file c \<Longrightarrow>
    client_logs H g evs c' = client_logs H g evs c"
  by (simp add: client_logs_def split: option.split)

section \<open>Histories\<close>

datatype client_op = SO_start | SO_stop | SO_audit ActionType bytes bytes | SO_commit TopologyTransaction
  | SO_push bytes bytes bytes | SO_pull bytes bytes bytes | SO_run bytes bytes "bytes list"
  | SO_register bytes bytes bytes u16 | SO_unregister bytes | SO_trust_add bytes bytes "bytes list" | SO_trust_remove bytes
  | SO_rotate bytes | SO_auth bytes | SO_migrate bytes bytes

fun client_step :: "sdk_env \<Rightarrow> client_op \<Rightarrow> client \<Rightarrow> client" where
  "client_step env SO_start c = snd (client_start env c)"
| "client_step env SO_stop c = snd (client_stop env c)"
| "client_step env (SO_audit action target params) c = snd (client_audit env action target params c)"
| "client_step env (SO_commit tx) c = snd (topology_commit tx c)"
| "client_step env (SO_push src node path) c = snd (push_file env src node path c)"
| "client_step env (SO_pull node path dst) c = snd (pull_file env node path dst c)"
| "client_step env (SO_run node command args) c = snd (run_remote env node command args c)"
| "client_step env (SO_register node host addr port) c = snd (client_register_node node host addr port c)"
| "client_step env (SO_unregister node) c = snd (client_unregister_node node c)"
| "client_step env (SO_trust_add node fp caps) c = snd (trust_add env node fp caps c)"
| "client_step env (SO_trust_remove node) c = snd (trust_remove env node c)"
| "client_step env (SO_rotate path) c = snd (psk_rotate env path c)"
| "client_step env (SO_auth node) c = snd (auth_psk env node c)"
| "client_step env (SO_migrate src dst) c = snd (migrate env src dst c)"

definition remote_action :: "ActionType \<Rightarrow> bool" where
  "remote_action a = (a \<in> {CmdExec, FileTransfer, Act_PskHandshake})"

text \<open>No separators in names, no line ends in what becomes a parameter.\<close>

fun op_clean :: "client_op \<Rightarrow> bool" where
  "op_clean (SO_audit action target params) = (plain target \<and> newline \<notin> set params)"
| "op_clean (SO_push src node path) = (newline \<notin> set src \<and> plain node \<and> newline \<notin> set path)"
| "op_clean (SO_pull node path dst) = (plain node \<and> newline \<notin> set path \<and> newline \<notin> set dst)"
| "op_clean (SO_run node command args) = (plain node \<and> newline \<notin> set command \<and> list_all (\<lambda>a. newline \<notin> set a) args)"
| "op_clean (SO_trust_add node fp caps) = plain node"
| "op_clean (SO_trust_remove node) = plain node"
| "op_clean (SO_rotate path) = (newline \<notin> set path)"
| "op_clean (SO_auth node) = plain node"
| "op_clean (SO_migrate src dst) = (newline \<notin> set src \<and> newline \<notin> set dst)"
| "op_clean _ = True"

definition trusted_by :: "client_op list \<Rightarrow> bytes set" where
  "trusted_by ops = {node. list_ex (\<lambda>op. case op of SO_trust_add n _ _ \<Rightarrow> n = node | _ \<Rightarrow> False) ops}"

lemma newline_literals:
  "newline \<notin> set (str ''{\"event\":\"start\"}'')" "newline \<notin> set (str ''{\"event\":\"stop\"}'')"
  "newline \<notin> set (str ''{\"event\":\"add\"}'')" "newline \<notin> set (str ''{\"event\":\"remove\"}'')"
  "newline \<notin> set (str ''{\"mode\":\"psk\"}'')" "plain (str ''client'')" "plain (str ''self'')"
  by (simp_all add: word_unat_eq_iff)

lemma newline_join: "list_all (\<lambda>a. newline \<notin> set a) args \<Longrightarrow> newline \<notin> set (join_args args)"
  by (induction args rule: join_args.induct) (simp_all add: word_unat_eq_iff)

lemma newline_json:
  "newline \<notin> set src \<Longrightarrow> newline \<notin> set node \<Longrightarrow> newline \<notin> set path \<Longrightarrow> newline \<notin> set (push_json src node path)"
  "newline \<notin> set src \<Longrightarrow> newline \<notin> set node \<Longrightarrow> newline \<notin> set path \<Longrightarrow> newline \<notin> set (pull_json node path src)"
  "newline \<notin> set src \<Longrightarrow> list_all (\<lambda>a. newline \<notin> set a) args \<Longrightarrow> newline \<notin> set (run_json src args)"
  "newline \<notin> set path \<Longrightarrow> newline \<notin> set (rotate_json path)"
  "newline \<notin> set src \<Longrightarrow> newline \<notin> set path \<Longrightarrow> newline \<notin> set (migrate_json src path)"
  using newline_join [of args]
  by (simp_all add: push_json_def pull_json_def run_json_def rotate_json_def migrate_json_def word_unat_eq_iff)

text \<open>
  What justifies the record of a remote operation that the call \<open>op\<close> adds: its node is on the
  whitelist, or \<open>op\<close> is \<open>audit\<close>, called to write just that record.
\<close>

definition justified :: "whitelist \<Rightarrow> client_op \<Rightarrow> log_record \<Rightarrow> bool" where
  "justified wl op r = (case r of (action, actor, target, params, t) \<Rightarrow>
     remote_action action \<longrightarrow> target \<in> dom (kv_get wl) \<or> op = SO_audit action target params)"

lemma wl_contains_dom: "wl_contains node [] wl \<longleftrightarrow> node \<in> dom (kv_get wl)"
  by (auto simp: wl_contains_def split: option.splits)

lemma extends_append_cond:
  assumes "client_logs H g evs c" "env_good H env" "plain target" "newline \<notin> set params"
    and "\<not> remote_action action \<or> target \<in> dom (kv_get wl) \<or> op = SO_audit action target params"
  shows "extends H g evs (justified wl op) (snd (client_append env action target params c))"
  by (rule extends_append [OF assms(1-4)]) (use assms(5) in \<open>auto simp: justified_def\<close>)

lemma plain_newline: "plain s \<Longrightarrow> newline \<notin> set s"
  by (simp add: plain_def)

lemma client_step_extends:
  assumes "client_logs H g evs c" "env_good H env" "op_clean op"
  shows "extends H g evs (justified (cl_whitelist c) op) (client_step env op c)"
proof -
  note same = extends_same [OF assms(1)]
  note app = extends_append_cond [OF _ assms(2), where wl = "cl_whitelist c" and op = op]
  have a: "cl_audit c \<noteq> None" using assms(1) by (simp add: client_logs_def split: option.splits)
  have n: "\<not> remote_action NodeRegister" "\<not> remote_action NodeUnregister" "\<not> remote_action CredentialRotate"
    "\<not> remote_action AuditExport" "\<not> remote_action WhitelistUpdate" by (simp_all add: remote_action_def)
  show ?thesis
  proof (cases op)
    case (SO_trust_add node fp caps)
    show ?thesis
    proof (cases "length fp \<noteq> 64 \<or> parse_hex fp = None")
      case True
      then show ?thesis using SO_trust_add same [of c] by (auto simp: trust_add_def)
    next
      case False
      then obtain bs r wl where f: "parse_hex fp = Some bs" "length fp = 64"
        "wl_add \<lparr>wl_node_id = node, wl_fingerprint_sha256 = bs, wl_allowed_capabilities = fold List.insert caps []\<rparr> (cl_whitelist c) = (r, wl)"
        by (auto simp del: wl_add_def) (metis surj_pair)
      have l: "client_logs H g evs (c\<lparr>cl_whitelist := wl\<rparr>)" using assms(1) client_logs_cong [of "c\<lparr>cl_whitelist := wl\<rparr>" c] by simp
      show ?thesis using SO_trust_add f same [of "c\<lparr>cl_whitelist := wl\<rparr>"] app [OF l, of node _ WhitelistUpdate] assms(3) n
        newline_literals(3) by (simp add: trust_add_def Let_def)
    qed
  next
    case (SO_trust_remove node)
    let ?c = "c\<lparr>cl_whitelist := kv_del node (cl_whitelist c)\<rparr>"
    have l: "client_logs H g evs ?c" using assms(1) client_logs_cong [of ?c c] by simp
    show ?thesis using SO_trust_remove same [of ?c] app [OF l, of node _ WhitelistUpdate] assms(3) n newline_literals(4)
      by (simp add: trust_remove_def wl_remove_def Let_def)
  next
    case (SO_commit tx)
    then show ?thesis using same by (auto simp: topology_commit_def split: prod.split)
  next
    case (SO_register node host addr port)
    then show ?thesis using same by (auto simp: client_register_node_def Let_def split: prod.split)
  next
    case (SO_unregister node)
    then show ?thesis using same by (auto simp: client_unregister_node_def split: prod.split)
  next
    case SO_start
    then show ?thesis using app [OF assms(1)] a n newline_literals by (simp add: client_start_def)
  next
    case SO_stop
    then show ?thesis using app [OF assms(1)] a n newline_literals by (simp add: client_stop_def)
  next
    case (SO_audit action target params)
    then show ?thesis using app [OF assms(1)] same [of c] assms(3) by (auto simp: client_audit_def)
  next
    case (SO_push src node path)
    then show ?thesis using app [OF assms(1), of node "push_json src node path"] same [of c] a assms(3) newline_json(1) [of src node path]
      by (auto simp: push_file_def wl_contains_dom plain_newline)
  next
    case (SO_pull node path dst)
    then show ?thesis using app [OF assms(1), of node "pull_json node path dst"] same [of c] a assms(3) newline_json(2) [of dst node path]
      by (auto simp: pull_file_def wl_contains_dom plain_newline)
  next
    case (SO_run node command args)
    then show ?thesis using app [OF assms(1), of node "run_json command args"] same [of c] a assms(3) newline_json(3) [of command args]
      by (auto simp: run_remote_def wl_contains_dom)
  next
    case (SO_rotate path)
    then show ?thesis using app [OF assms(1)] same [of c] a assms(3) n newline_literals newline_json(4) [of path]
      by (auto simp: psk_rotate_def)
  next
    case (SO_auth node)
    then show ?thesis using app [OF assms(1)] same [of c] a assms(3) newline_literals
      by (auto simp: auth_psk_def wl_contains_dom)
  next
    case (SO_migrate src dst)
    then show ?thesis using app [OF assms(1)] same [of c] a assms(3) n newline_literals newline_json(5) [of src dst]
      by (auto simp: migrate_def)
  qed
qed

lemma client_append_whitelist: "cl_whitelist (snd (client_append env action target params c)) = cl_whitelist c"
  by (simp add: client_append_def split: option.split prod.split)

lemma client_step_whitelist:
  "dom (kv_get (cl_whitelist (client_step env op c))) \<subseteq> dom (kv_get (cl_whitelist c)) \<union> trusted_by [op]"
proof (cases op)
  case (SO_trust_add node fp caps)
  then show ?thesis
    by (auto simp: trust_add_def wl_add_def client_append_whitelist trusted_by_def Let_def split: option.splits if_splits)
next
  case (SO_trust_remove node)
  then show ?thesis
    by (auto simp: trust_remove_def wl_remove_def client_append_whitelist Let_def split: if_splits)
qed (auto simp: client_start_def client_stop_def client_audit_def topology_commit_def push_file_def pull_file_def run_remote_def
    client_register_node_def client_unregister_node_def psk_rotate_def auth_psk_def migrate_def client_append_whitelist Let_def
    split: prod.splits)

text \<open>The whitelist before each call of a run, with the call.\<close>

fun client_trace :: "(sdk_env \<times> client_op) list \<Rightarrow> client \<Rightarrow> (whitelist \<times> client_op) list" where
  "client_trace [] c = []"
| "client_trace ((env, op) # its) c = (cl_whitelist c, op) # client_trace its (client_step env op c)"

lemma client_run_logs:
  assumes "client_logs H g evs c" "list_all (\<lambda>(env, op). env_good H env \<and> op_clean op) its"
  shows "\<exists>new. client_logs H g (evs @ concat new) (fold (\<lambda>(env, op). client_step env op) its c) \<and>
      list_all2 (\<lambda>(wl, op) es. length es \<le> 1 \<and> list_all (justified wl op) (map event_record es)) (client_trace its c) new"
  using assms
proof (induction its arbitrary: evs c)
  case Nil
  then show ?case by (intro exI [of _ "[]"]) simp
next
  case (Cons it its)
  obtain e op where it: "it = (e, op)" by (cases it)
  have good: "env_good H e" "op_clean op" "list_all (\<lambda>(env, op). env_good H env \<and> op_clean op) its"
    using Cons.prems(2) it by auto
  obtain es where es: "client_logs H g (evs @ es) (client_step e op c)" "length es \<le> 1"
    "list_all (justified (cl_whitelist c) op) (map event_record es)"
    using client_step_extends [OF Cons.prems(1) good(1,2)] by (auto simp: extends_def)
  from Cons.IH [OF es(1) good(3)] obtain new where
    "client_logs H g ((evs @ es) @ concat new) (fold (\<lambda>(env, op). client_step env op) its (client_step e op c))"
    "list_all2 (\<lambda>(wl, op) es. length es \<le> 1 \<and> list_all (justified wl op) (map event_record es)) (client_trace its (client_step e op c)) new"
    by blast
  with es show ?case by (intro exI [of _ "es # new"]) (simp add: it)
qed

lemma client_trace_trusted:
  assumes "dom (kv_get (cl_whitelist c)) \<subseteq> A"
  shows "list_all (\<lambda>(wl, op). dom (kv_get wl) \<subseteq> A \<union> trusted_by (map snd its)) (client_trace its c)"
  using assms
proof (induction its arbitrary: c A)
  case (Cons it its)
  obtain e op where it: "it = (e, op)" by (cases it)
  have t: "trusted_by (map snd (it # its)) = trusted_by [op] \<union> trusted_by (map snd its)" by (auto simp: trusted_by_def it)
  have "dom (kv_get (cl_whitelist (client_step e op c))) \<subseteq> A \<union> trusted_by [op]"
    using client_step_whitelist [of e op c] Cons.prems by blast
  from Cons.IH [OF this] Cons.prems show ?case
    unfolding t by (auto simp: it Un_assoc simp del: dom_map_of_conv_image_fst)
qed simp

text \<open>
  C7. The client's audit log: for a client with a new log file, after any calls with well-behaved
  names and a working file system, the log verifies and \<open>sequence()\<close> counts its records; each call
  has added at most one record; and the record of a remote operation (a command, a file transfer, a
  handshake) was added by a call that found its node on the whitelist, or by a call of \<open>audit\<close> with
  just that record, for which the code does not ask the whitelist. Only nodes that some \<open>trust_add\<close>
  named are ever on the whitelist.
\<close>

theorem client_history:
  assumes "sc_audit_path cfg \<noteq> []" "plain (sc_node_id cfg)" "env_good H env"
    and "list_all (\<lambda>(env, op). env_good H env \<and> op_clean op) its"
  shows "let c0 = client_new env rnd cfg None; c = fold (\<lambda>(env, op). client_step env op) its c0 in
    verify_chain H (cl_file c) = Ok True \<and>
    (\<exists>records. file_records (cl_file c) = Some (concat records) \<and> client_sequence c = of_nat (length (concat records)) \<and>
      list_all2 (\<lambda>(wl, op) rs. length rs \<le> 1 \<and> list_all (justified wl op) rs) (client_trace its c0) records) \<and>
    list_all (\<lambda>(wl, op). dom (kv_get wl) \<subseteq> trusted_by (map snd its)) (client_trace its c0)"
proof -
  let ?c0 = "client_new env rnd cfg None"
  let ?run = "\<lambda>its. fold (\<lambda>(env, op). client_step env op) its ?c0"
  define g where "g = sha512_hex H (genesis_seed rnd (se_now env))"
  have start: "client_logs H g [] ?c0" "cl_whitelist ?c0 = []"
    using assms(1-3) log_holds_new [of H rnd "se_now env"]
    by (auto simp: client_new_def client_logs_def env_good_def g_def Let_def split: prod.split)
  obtain new where l: "client_logs H g (concat new) (?run its)"
    "list_all2 (\<lambda>(wl, op) es. length es \<le> 1 \<and> list_all (justified wl op) (map event_record es)) (client_trace its ?c0) new"
    using client_run_logs [OF start(1) assms(4)] by auto
  then obtain a where a: "cl_audit (?run its) = Some a" "log_holds H g (concat new) (a, cl_file (?run its))"
    by (auto simp: client_logs_def split: option.splits)
  let ?records = "map (map event_record) new"
  have c: "concat ?records = map event_record (concat new)" by (simp add: map_concat)
  have "verify_chain H (cl_file (?run its)) = Ok True" "file_records (cl_file (?run its)) = Some (concat ?records)"
    using log_holds_verifies [OF a(2)] log_holds_records [OF a(2)] unfolding c by simp_all
  moreover have "client_sequence (?run its) = of_nat (length (concat ?records))"
    using a unfolding c by (simp add: client_sequence_def audit_sequence_def log_holds_def)
  moreover have "list_all2 (\<lambda>(wl, op) rs. length rs \<le> 1 \<and> list_all (justified wl op) rs) (client_trace its ?c0) ?records"
    using l(2) by (simp add: list_all2_conv_all_nth split_beta)
  moreover have "list_all (\<lambda>(wl, op). dom (kv_get wl) \<subseteq> trusted_by (map snd its)) (client_trace its ?c0)"
    using client_trace_trusted [of ?c0 "{}" its] start(2) by simp
  ultimately show ?thesis unfolding Let_def by blast
qed

section \<open>Fingerprints\<close>

lemma hexv_nibble: "hexv c = Some v \<Longrightarrow> v < 16 \<and> nibble_char v = lower_byte c"
  by (auto simp: hexv_def nibble_char_def lower_byte_def word_unat_eq_iff unat_word_ariths unat_of_nat split: if_splits)

lemma fingerprint_parse: "even (length s) \<Longrightarrow> parse_hex s = Some bs \<Longrightarrow> fingerprint_hex bs = to_lower s \<and> 2 * length bs = length s"
proof (induction s arbitrary: bs rule: parse_hex.induct)
  case (1 h l s)
  then obtain hi lo bs' where p: "hexv h = Some hi" "hexv l = Some lo" "parse_hex s = Some bs'"
    "bs = of_nat (push_bit 4 hi OR lo) # bs'"
    by (auto split: option.splits)
  with 1 have "fingerprint_hex bs' = to_lower s \<and> 2 * length bs' = length s" by simp
  moreover have "hi < 16" "lo < 16" "nibble_char hi = lower_byte h" "nibble_char lo = lower_byte l"
    using hexv_nibble p(1,2) by blast+
  ultimately show ?case using p(4) nibble_pair [of hi lo] by (simp add: fingerprint_hex_def to_lower_def)
qed (auto simp: fingerprint_hex_def to_lower_def)

definition wl_good :: "whitelist \<Rightarrow> bool" where
  "wl_good m = (kv_ok m \<and> list_all (\<lambda>(k, e). k = wl_node_id e) m)"

lemma kv_put_good: "wl_good m \<Longrightarrow> wl_good (kv_put (wl_node_id e) e m)"
proof -
  have "list_all (\<lambda>(k, e). k = wl_node_id e) m \<Longrightarrow> list_all (\<lambda>(k, e). k = wl_node_id e) (kv_put (wl_node_id e) e m)"
    by (induction m) auto
  then show "wl_good m \<Longrightarrow> wl_good (kv_put (wl_node_id e) e m)" by (simp add: wl_good_def distinct_update)
qed

lemma wl_good_filter:
  "wl_good m \<Longrightarrow> kv_get m k = Some e \<Longrightarrow> filter (\<lambda>e. wl_node_id e = k) (map snd m) = [e]"
proof (induction m)
  case (Cons p m)
  obtain j f where p: "p = (j, f)" by (cases p)
  from Cons.prems p have g: "wl_good m" "j = wl_node_id f" "j \<notin> fst ` set m"
    by (auto simp: wl_good_def)
  show ?case
  proof (cases "j = k")
    case True
    have "filter (\<lambda>e. wl_node_id e = k) (map snd m) = []"
      using g True by (fastforce simp: filter_empty_conv wl_good_def list_all_iff image_iff)
    with True Cons.prems p g show ?thesis by simp
  next
    case False
    with Cons p g show ?thesis by simp
  qed
qed simp

lemma set_fold_insert: "set (fold List.insert xs ys) = set xs \<union> set ys"
  by (induction xs arbitrary: ys) auto

lemma fold_insert_distinct: "distinct ys \<Longrightarrow> distinct (fold List.insert xs ys)"
  by (induction xs arbitrary: ys) auto

text \<open>
  Fingerprints survive: when \<open>trust_add\<close> succeeds, \<open>trust_list\<close> shows for that node exactly
  one entry, with the fingerprint as it was given (in lower case) and the capabilities given,
  without repetitions.
\<close>

theorem trust_roundtrip:
  assumes "wl_good (cl_whitelist c)" "trust_add env node fp caps c = (Ok b, c')"
  shows "wl_good (cl_whitelist c') \<and> b = (node \<notin> dom (kv_get (cl_whitelist c))) \<and>
    (\<exists>cs. filter (\<lambda>e. te_node_id e = node) (trust_list c') =
        [\<lparr>te_node_id = node, te_fingerprint_sha256_hex = to_lower fp, te_capabilities = cs\<rparr>] \<and>
      set cs = set caps \<and> distinct cs)"
proof -
  obtain bs where bs: "length fp = 64" "parse_hex fp = Some bs"
    using assms(2) by (auto simp: trust_add_def split: if_splits option.splits)
  let ?e = "\<lparr>wl_node_id = node, wl_fingerprint_sha256 = bs, wl_allowed_capabilities = fold List.insert caps []\<rparr>"
  have add: "node \<noteq> []" "cl_whitelist c' = kv_put node ?e (cl_whitelist c)" "b = (kv_get (cl_whitelist c) node = None)"
    using assms(2) bs by (auto simp: trust_add_def wl_add_def Let_def client_append_whitelist split: if_splits)
  have g: "wl_good (cl_whitelist c')" using kv_put_good [OF assms(1), of ?e] add(2) by simp
  have "filter (\<lambda>e. wl_node_id e = node) (map snd (cl_whitelist c')) = [?e]"
    by (rule wl_good_filter [OF g]) (simp add: add(2))
  then have "filter (\<lambda>e. te_node_id e = node) (trust_list c') =
      [\<lparr>te_node_id = node, te_fingerprint_sha256_hex = fingerprint_hex bs, te_capabilities = fold List.insert caps []\<rparr>]"
    unfolding trust_list_def wl_snapshot_def filter_map [of _ _ "map snd _"] comp_def TrustEntry.select_convs by simp
  moreover have "fingerprint_hex bs = to_lower fp" using fingerprint_parse [of fp bs] bs by simp
  ultimately show ?thesis
    using g add(3) by (auto simp: set_fold_insert fold_insert_distinct domIff)
qed

section \<open>Refusals\<close>

lemma remote_refused_err:
  assumes "node \<notin> dom (kv_get (cl_whitelist c))"
  shows "is_err (fst (push_file env src node path c)) \<and> is_err (fst (pull_file env node path dst c)) \<and>
    is_err (fst (run_remote env node command args c)) \<and> is_err (fst (auth_psk env node c))"
  using assms by (auto simp: push_file_def pull_file_def run_remote_def auth_psk_def wl_contains_dom simp del: str_simps)

text \<open>
  A refused remote operation leaves no trace: pushing, pulling, running and authenticating
  fail for a node that is not on the whitelist, whatever the environment, and change nothing,
  the audit log included; \<open>run_remote\<close> refuses before it looks at anything else.
\<close>

lemma remote_refused:
  assumes "node \<notin> dom (kv_get (cl_whitelist c))"
  shows "list_all (\<lambda>(r, c'). is_err r \<and> c' = c)
      [push_file env src node path c, pull_file env node path dst c, run_remote env node command args c, auth_psk env node c] \<and>
    run_remote env node command args c = (Err EC_BIZ_AUTH_UNTRUSTED, c)"
  using assms by (auto simp: push_file_def pull_file_def run_remote_def auth_psk_def wl_contains_dom simp del: str_simps)

text \<open>
  A command with a line end breaks the audit log: \<open>run_remote\<close> for a trusted node answers
  with the next sequence number as if all was well, and the log no longer verifies (unless the
  hash function confuses the two texts); the parameters are not escaped.
\<close>

theorem run_remote_newline:
  assumes "client_logs H g evs c" "env_good H env" "plain node" "node \<in> dom (kv_get (cl_whitelist c))" "newline \<notin> set c1"
    and "run_remote env node (c1 @ newline # c2) args c = (r, c')"
    and "compute_params_hash H (str ''{\"cmd\":\"'' @ c1) \<noteq> compute_params_hash H (run_json (c1 @ newline # c2) args)"
  shows "r = Ok (client_sequence c + 1) \<and> verify_chain H (cl_file c') = Ok False"
proof -
  obtain a where a: "cl_audit c = Some a" "log_holds H g evs (a, cl_file c)" "plain (sc_node_id (cl_cfg c))"
    using assms(1) by (auto simp: client_logs_def split: option.splits)
  have env: "se_H env = H" "se_can_write env" "se_io env = IO_ok" "- (2 ^ 63) \<le> se_now env" "se_now env < 2 ^ 63"
    using assms(2) by (simp_all add: env_good_def)
  let ?p1 = "str ''{\"cmd\":\"'' @ c1" and ?p2 = "c2 @ str ''\",\"args\":['' @ join_args args @ str '']}''"
  have j: "run_json (c1 @ newline # c2) args = ?p1 @ newline # ?p2" by (simp add: run_json_def)
  obtain r2 a' f' where app: "audit_append H True IO_ok (se_now env) CmdExec (sc_node_id (cl_cfg c)) node (?p1 @ newline # ?p2) (a, cl_file c) = (r2, a', f')"
    using prod_cases3 by blast
  have n: "newline \<notin> set ?p1" using assms(5) by (simp add: word_unat_eq_iff)
  have "r2 = Ok (al_seq a + 1) \<and> verify_chain H f' = Ok False"
    by (rule audit_newline_breaks [OF a(2,3) assms(3) n env(4,5) app]) (use assms(7) j in simp)
  moreover have "r = r2 \<and> cl_file c' = f'"
    using assms(4,6) a(1) app env j by (auto simp: run_remote_def wl_contains_dom client_append_def)
  ultimately show ?thesis using a(1) by (simp add: client_sequence_def audit_sequence_def)
qed

section \<open>Sample runs\<close>

abbreviation sample_cfg :: ClientConfig where
  "sample_cfg \<equiv> \<lparr>sc_node_id = str ''alice'', sc_bind_address = [], sc_bind_port = 0, sc_audit_path = str ''a.log''\<rparr>"

abbreviation sample_env :: sdk_env where
  "sample_env \<equiv> \<lparr>se_H = \<lambda>x. x, se_can_write = True, se_io = IO_ok, se_now = 5\<rparr>"

lemma sample_good: "env_good (\<lambda>x. x) sample_env"
  by (simp add: env_good_def)

definition sample_history :: "(sdk_env \<times> client_op) list" where
  "sample_history = map (\<lambda>op. (sample_env\<lparr>se_H := \<lambda>_. [7]\<rparr>, op))
     [SO_trust_add (str ''host'') (replicate 64 48) [], SO_run (str ''host'') (str ''ls'') [],
      SO_run (str ''other'') (str ''ls'') [], SO_audit CmdExec (str ''other'') []]"

definition sample_client :: client where
  "sample_client = client_new (sample_env\<lparr>se_H := \<lambda>_. [7]\<rparr>) [1] sample_cfg None"

text \<open>The refused command leaves no record, the three other calls leave one each.\<close>

lemma sample_history_sequence:
  "client_sequence (fold (\<lambda>(env, op). client_step env op) sample_history sample_client) = 3"
proof -
  have p: "parse_hex (replicate 64 48) = Some (replicate 32 0)" by code_simp
  show ?thesis
    by (simp add: sample_history_def sample_client_def client_new_def audit_open_def trust_add_def p wl_add_def
        run_remote_def wl_contains_def client_audit_def client_append_def audit_append_def client_sequence_def audit_sequence_def
        Let_def split: prod.split)
qed

lemma client_history_witness:
  "verify_chain (\<lambda>_. [7]) (cl_file (fold (\<lambda>(env, op). client_step env op) sample_history sample_client)) = Ok True \<and>
   client_sequence (fold (\<lambda>(env, op). client_step env op) sample_history sample_client) = 3"
  using client_history [of sample_cfg "\<lambda>_. [7]" "sample_env\<lparr>se_H := \<lambda>_. [7]\<rparr>" sample_history "[1]"] sample_history_sequence
  by (simp add: sample_client_def sample_history_def env_good_def word_unat_eq_iff Let_def)

lemma trust_roundtrip_witness:
  "case trust_add sample_env (str ''host'') (replicate 64 65) [] (client_new sample_env [1] (sample_cfg\<lparr>sc_audit_path := []\<rparr>) None) of
     (r, c) \<Rightarrow> r = Ok True \<and> map te_fingerprint_sha256_hex (filter (\<lambda>e. te_node_id e = str ''host'') (trust_list c)) = [replicate 64 97]"
proof -
  let ?c0 = "client_new sample_env [1] (sample_cfg\<lparr>sc_audit_path := []\<rparr>) None"
  let ?c1 = "?c0\<lparr>cl_whitelist := [(str ''host'', \<lparr>wl_node_id = str ''host'', wl_fingerprint_sha256 = replicate 32 170, wl_allowed_capabilities = []\<rparr>)]\<rparr>"
  have p: "parse_hex (replicate 64 65) = Some (replicate 32 170)" by code_simp
  have add: "trust_add sample_env (str ''host'') (replicate 64 65) [] ?c0 = (Ok True, ?c1)"
    by (simp add: trust_add_def p client_new_def wl_add_def Let_def)
  have l: "to_lower (replicate 64 65) = replicate 64 97" by (simp add: to_lower_def lower_byte_def)
  have "wl_good (cl_whitelist ?c0)" by (simp add: client_new_def wl_good_def)
  from trust_roundtrip [OF this add] show ?thesis unfolding add l by (auto simp del: str_simps)
qed

lemma run_remote_newline_witness:
  "let c = (client_new sample_env [1] sample_cfg None)\<lparr>cl_whitelist := [(str ''host'', \<lparr>wl_node_id = str ''host'',
         wl_fingerprint_sha256 = [], wl_allowed_capabilities = []\<rparr>)]\<rparr> in
   verify_chain (\<lambda>x. x) (cl_file (snd (run_remote sample_env (str ''host'') (str ''echo'' @ newline # str ''rm'') [] c))) = Ok False"
proof -
  let ?c = "(client_new sample_env [1] sample_cfg None)\<lparr>cl_whitelist := [(str ''host'', \<lparr>wl_node_id = str ''host'',
         wl_fingerprint_sha256 = [], wl_allowed_capabilities = []\<rparr>)]\<rparr>"
  have l: "client_logs (\<lambda>x. x) (sha512_hex (\<lambda>x. x) (genesis_seed [1] 5)) [] ?c"
    using log_holds_new [of "\<lambda>x. x" "[1]" 5] by (auto simp: client_new_def client_logs_def Let_def word_unat_eq_iff split: prod.split)
  obtain r c' where run: "run_remote sample_env (str ''host'') (str ''echo'' @ newline # str ''rm'') [] ?c = (r, c')" by fastforce
  have "verify_chain (\<lambda>x. x) (cl_file c') = Ok False"
    by (rule conjunct2 [OF run_remote_newline [OF l sample_good _ _ _ run]])
      (auto simp: word_unat_eq_iff run_json_def compute_params_hash_def sha512_hex_def to_hex_def dom_def)
  then show ?thesis by (simp only: Let_def run snd_conv)
qed

end
