(* ===== verification/Cli.thy ===== *)
theory Cli
  imports Sdk
begin

text \<open>
  \<open>src/cli/\<close>: the fourteen commands and the program's entry. A command answers its exit code and
  what it prints on the standard output; \<open>None\<close> stands for the end of the process by an
  exception that nothing catches. The process has one client, made by the first command that
  needs it. The messages on the standard error are left out.

  Shown: the exit codes, and that in a process, which runs one command, no remote operation can
  succeed.
\<close>

section \<open>Exit codes and the environment\<close>

datatype ExitCode = kOk | kUsage | kUnknownCmd | kAuth | kNet | kTimeout | kResourceBusy | kInvalidArg | kInternal
  | kNotImplemented | kWhitelistDenied | kPartial | kPermission | kConfig

fun exit_number :: "ExitCode \<Rightarrow> nat" where
  "exit_number kOk = 0"
| "exit_number kUsage = 1"
| "exit_number kUnknownCmd = 2"
| "exit_number kAuth = 3"
| "exit_number kNet = 4"
| "exit_number kTimeout = 5"
| "exit_number kResourceBusy = 6"
| "exit_number kInvalidArg = 7"
| "exit_number kInternal = 8"
| "exit_number kNotImplemented = 9"
| "exit_number kWhitelistDenied = 10"
| "exit_number kPartial = 11"
| "exit_number kPermission = 12"
| "exit_number kConfig = 13"

text \<open>\<open>ce_files\<close>: what the paths hold when the client opens its log.\<close>

record cli_env =
  ce_sdk :: sdk_env
  ce_rnd :: bytes
  ce_pid :: nat
  ce_files :: "bytes \<Rightarrow> bytes option"

definition current_client :: "cli_env \<Rightarrow> client option \<Rightarrow> client" where
  "current_client env s = (case s of
      Some c \<Rightarrow> c
    | None \<Rightarrow>
        let node_id = str ''cli-'' @ dec_nat (ce_pid env);
            audit_path = str ''/tmp/udaf_cli_'' @ node_id @ str ''.log'';
            c = client_new (ce_sdk env) (ce_rnd env)
              \<lparr>sc_node_id = node_id, sc_bind_address = [], sc_bind_port = 0, sc_audit_path = audit_path\<rparr>
              (ce_files env audit_path) in
        snd (client_start (ce_sdk env) c))"

type_synonym command_result = "(ExitCode \<times> bytes \<times> client option) option"
type_synonym command = "cli_env \<Rightarrow> bytes list \<Rightarrow> client option \<Rightarrow> command_result"

definition exits :: "ExitCode \<Rightarrow> bytes \<Rightarrow> client \<Rightarrow> command_result" where
  "exits code out c = Some (code, out, Some c)"

text \<open>The form of most commands: an error has one exit code, a success prints the sequence number.\<close>

definition sequence_json :: "u64 \<Rightarrow> bytes" where
  "sequence_json n = str ''{\"sequence\":'' @ dec_u64 n @ str ''}'' @ [newline]"

definition report :: "ExitCode \<Rightarrow> (u64 \<Rightarrow> bytes) \<Rightarrow> u64 Result \<times> client \<Rightarrow> command_result" where
  "report code show rc = (case rc of
      (Ok n, c) \<Rightarrow> exits kOk (show n) c
    | (_, c) \<Rightarrow> exits code [] c)"

section \<open>The commands\<close>

text \<open>The fixed texts, in the source's UTF-8.\<close>

definition help_text :: bytes where
  "help_text =
    str ''udaf - Unified Device & Application Framework'' @ [newline] @ [newline] @ [231, 148, 168, 230, 179, 149] @
    str '': udaf <subcommand> [options]'' @ [newline] @ [newline] @ [229, 173, 144, 229, 145, 189, 228, 187, 164] @
    str '':'' @ [newline] @ str ''  discover     '' @
    [229, 143, 145, 231, 142, 176, 231, 189, 145, 231, 187, 156, 232, 138, 130, 231, 130, 185, 239, 188, 136, 230, 140, 137] @
    str '' capability '' @ [232, 191, 135, 230, 187, 164, 239, 188, 137] @ [newline] @ str ''  run          '' @
    [229, 156, 168, 232, 191, 156, 231, 171, 175, 232, 174, 190, 229, 164, 135, 230, 137, 167, 232, 161, 140, 229, 145, 189, 228, 187, 164] @
    [newline] @ str ''  push         '' @ [230, 142, 168, 233, 128, 129, 230, 150, 135, 228, 187, 182] @ [newline] @
    str ''  pull         '' @ [230, 139, 137, 229, 143, 150, 230, 150, 135, 228, 187, 182] @ [newline] @
    str ''  topology     '' @ [230, 159, 165, 231, 156, 139] @ str ''/'' @
    [229, 175, 188, 229, 135, 186, 230, 139, 147, 230, 137, 145, 239, 188, 136] @ str ''YAML/JSON'' @ [239, 188, 137] @
    [newline] @ str ''  node         '' @ [232, 138, 130, 231, 130, 185, 231, 174, 161, 231, 144, 134, 239, 188, 136] @
    str ''list/register/unregister'' @ [239, 188, 137] @ [newline] @ str ''  trust        '' @
    [231, 153, 189, 229, 144, 141, 229, 141, 149, 231, 174, 161, 231, 144, 134, 239, 188, 136] @
    str ''add/remove/list'' @ [239, 188, 137] @ [newline] @ str ''  psk          PSK '' @
    [230, 180, 190, 231, 148, 159, 228, 184, 142, 232, 189, 174, 232, 189, 172] @ [newline] @ str ''  auth         '' @
    [232, 174, 164, 232, 175, 129, 230, 143, 161, 230, 137, 139, 239, 188, 136] @ str ''psk/pki'' @ [239, 188, 137] @
    [newline] @ str ''  migrate      '' @ [230, 149, 176, 230, 141, 174, 232, 191, 129, 231, 167, 187] @ [newline] @
    str ''  config       '' @
    [233, 133, 141, 231, 189, 174, 230, 150, 135, 228, 187, 182, 231, 174, 161, 231, 144, 134] @ [newline] @
    str ''  completion   '' @ [232, 190, 147, 229, 135, 186] @ str '' shell completion '' @
    [232, 132, 154, 230, 156, 172] @ [newline] @ str ''  version      '' @
    [232, 190, 147, 229, 135, 186, 231, 137, 136, 230, 156, 172, 229, 143, 183] @ [newline] @ str ''  help         '' @
    [230, 156, 172, 229, 184, 174, 229, 138, 169] @ [newline] @ [newline] @
    [229, 133, 168, 229, 177, 128, 233, 128, 137, 233, 161, 185] @ str '':'' @ [newline] @
    str ''  --config <path>     '' @ [233, 133, 141, 231, 189, 174, 230, 150, 135, 228, 187, 182] @ [newline] @
    str ''  --node-id <id>      '' @ [229, 189, 147, 229, 137, 141, 232, 138, 130, 231, 130, 185] @ str '' ID'' @
    [newline] @ str ''  --output <fmt>      '' @
    [232, 190, 147, 229, 135, 186, 230, 160, 188, 229, 188, 143, 239, 188, 154] @ str ''text|json|yaml'' @
    [239, 188, 136, 233, 187, 152, 232, 174, 164] @ str '' text'' @ [239, 188, 137] @ [newline] @
    str ''  --verbose           '' @ [232, 175, 166, 231, 187, 134, 230, 151, 165, 229, 191, 151] @ [newline] @
    str ''  --quiet             '' @ [233, 157, 153, 233, 187, 152] @ [newline] @ str ''  --no-color          '' @
    [231, 166, 129, 231, 148, 168] @ str '' ANSI '' @ [233, 162, 156, 232, 137, 178] @ [newline]"

definition cmd_help :: command where
  "cmd_help env args s = Some (kOk, help_text, s)"

definition version_text :: bytes where
  "version_text =
    str ''udaf v0.1.0'' @ [newline] @ str ''schema_version 1'' @ [newline] @ str ''stage E (SDK + CLI)'' @ [newline]"

definition cmd_version :: command where
  "cmd_version env args s = Some (kOk, version_text, s)"

text \<open>The last \<open>--filter\<close> or \<open>-f\<close> with a word behind it.\<close>

fun filter_arg :: "bytes list \<Rightarrow> bytes \<Rightarrow> bytes" where
  "filter_arg (a # b # as) f = filter_arg (b # as) (if a = str ''--filter'' \<or> a = str ''-f'' then b else f)"
| "filter_arg _ f = f"

definition cmd_discover :: command where
  "cmd_discover env args s =
     (let filter' = filter_arg args []; c = current_client env s; entries = client_discover filter' c in
      exits kOk (str ''{\"count\":'' @ dec_nat (length entries) @ str '',\"filter\":\"'' @ filter' @ str ''\"}'' @ [newline]) c)"

definition cmd_run :: command where
  "cmd_run env args s =
     (if length args < 3 \<or> args ! 0 \<noteq> str ''--node'' then Some (kUsage, [], s)
      else let c = current_client env s in
        if args ! 2 \<noteq> str ''--'' then exits kUsage [] c
        else if length args < 4 then exits kUsage [] c
        else report kWhitelistDenied
          (\<lambda>n. str ''{\"sequence\":'' @ dec_u64 n @ str '',\"node\":\"'' @ args ! 1 @ str ''\",\"command\":\"'' @ args ! 3 @ str ''\"}'' @ [newline])
          (run_remote (ce_sdk env) (args ! 1) (args ! 3) (drop 4 args) c))"

definition cmd_topology :: command where
  "cmd_topology env args s =
     (let c = current_client env s; sum = topology_summary c in
      if args \<noteq> [] \<and> args ! 0 = str ''show'' then
        exits kOk (str ''nodes:'' @ [newline] @ concat (map (\<lambda>n. str ''  - '' @ n @ [newline]) (ts_nodes sum)) @
          str ''node_count: '' @ dec_nat (ts_node_count sum) @ [newline] @ str ''edge_count: '' @ dec_nat (ts_edge_count sum) @ [newline]) c
      else exits kUnknownCmd [] c)"

text \<open>\<open>std::stoi\<close>; \<open>None\<close> is its exception.\<close>

definition stoi :: "bytes \<Rightarrow> int option" where
  "stoi s = (case scan_number s of
      None \<Rightarrow> None
    | Some (neg, n) \<Rightarrow>
        let k = (if neg then - int n else int n) in
        if k < - (2 ^ 31) \<or> 2 ^ 31 \<le> k then None else Some k)"

definition bool_json :: "bytes \<Rightarrow> bool \<Rightarrow> bytes \<Rightarrow> bytes" where
  "bool_json key b no = str ''{\"'' @ key @ str ''\":'' @ (if b then str ''true'' else no) @ str ''}'' @ [newline]"

definition cmd_node :: command where
  "cmd_node env args s =
     (let c = current_client env s in
      if args \<noteq> [] \<and> args ! 0 = str ''list'' then exits kOk (str ''['' @ join_args (list_nodes c) @ str '']'' @ [newline]) c
      else if length args \<ge> 5 \<and> args ! 0 = str ''register'' then
        (case stoi (args ! 4) of
           None \<Rightarrow> None
         | Some port \<Rightarrow> (case client_register_node (args ! 1) (args ! 2) (args ! 3) (of_int port) c of
               (Ok b, c) \<Rightarrow> exits kOk (bool_json (str ''registered'') b (str ''updated'')) c
             | (_, c) \<Rightarrow> exits kInvalidArg [] c))
      else if length args \<ge> 2 \<and> args ! 0 = str ''unregister'' then
        (case client_unregister_node (args ! 1) c of
           (Ok b, c) \<Rightarrow> exits kOk (bool_json (str ''unregistered'') b (str ''false'')) c
         | (_, c) \<Rightarrow> exits kInvalidArg [] c)
      else exits kUsage [] c)"

fun cap_list :: "bytes list \<Rightarrow> bytes" where
  "cap_list [] = []"
| "cap_list [a] = a"
| "cap_list (a # as) = a @ str '','' @ cap_list as"

definition cmd_trust :: command where
  "cmd_trust env args s =
     (let c = current_client env s in
      if args \<noteq> [] \<and> args ! 0 = str ''list'' then
        exits kOk (str ''{\"count\":'' @ dec_nat (length (trust_list c)) @ str ''}'' @ [newline] @
          concat (map (\<lambda>t. str ''  '' @ te_node_id t @ str ''  cap='' @ cap_list (te_capabilities t) @ [newline]) (trust_list c))) c
      else if length args \<ge> 4 \<and> args ! 0 = str ''add'' then
        (case trust_add (ce_sdk env) (args ! 1) (args ! 2) (drop 3 args) c of
           (Ok b, c) \<Rightarrow> exits kOk (bool_json (str ''added'') b (str ''updated'')) c
         | (_, c) \<Rightarrow> exits kInvalidArg [] c)
      else if length args \<ge> 2 \<and> args ! 0 = str ''remove'' then
        (case trust_remove (ce_sdk env) (args ! 1) c of
           (Ok _, c) \<Rightarrow> exits kOk [] c
         | (_, c) \<Rightarrow> exits kInvalidArg [] c)
      else exits kUsage [] c)"

definition cmd_psk :: command where
  "cmd_psk env args s =
     (let c = current_client env s in
      if length args \<ge> 2 \<and> args ! 0 = str ''rotate'' then report kInvalidArg sequence_json (psk_rotate (ce_sdk env) (args ! 1) c)
      else exits kUsage [] c)"

definition cmd_auth :: command where
  "cmd_auth env args s =
     (let c = current_client env s in
      if length args \<ge> 2 \<and> args ! 0 = str ''psk'' then report kWhitelistDenied sequence_json (auth_psk (ce_sdk env) (args ! 1) c)
      else exits kUsage [] c)"

definition cmd_migrate :: command where
  "cmd_migrate env args s =
     (let c = current_client env s in
      if length args \<ge> 2 then report kInvalidArg sequence_json (migrate (ce_sdk env) (args ! 0) (args ! 1) c)
      else exits kUsage [] c)"

definition cmd_config :: command where
  "cmd_config env args s =
     (let c = current_client env s in
      if args \<noteq> [] \<and> args ! 0 = str ''show'' then exits kOk (config_show c @ [newline]) c
      else exits kUsage [] c)"

definition cmd_push :: command where
  "cmd_push env args s =
     (let c = current_client env s in
      if length args \<ge> 3 then report kWhitelistDenied sequence_json (push_file (ce_sdk env) (args ! 0) (args ! 1) (args ! 2) c)
      else exits kUsage [] c)"

definition cmd_pull :: command where
  "cmd_pull env args s =
     (let c = current_client env s in
      if length args \<ge> 3 then report kWhitelistDenied sequence_json (pull_file (ce_sdk env) (args ! 0) (args ! 1) (args ! 2) c)
      else exits kUsage [] c)"

definition bash_completion :: bytes where
  "bash_completion =
    str ''_udaf_completion() {'' @ [newline] @ str ''  local cur=${COMP_WORDS[COMP_CWORD]}'' @ [newline] @
    str ''  COMPREPLY=( $(compgen -W \"discover run push pull topology node trust psk auth migrate config completion version help\" -- $cur) )'' @
    [newline] @ str ''}'' @ [newline] @ str ''complete -F _udaf_completion udaf'' @ [newline]"

definition placeholder_note :: bytes where
  "placeholder_note =
    str '' completion: '' @ [233, 152, 182, 230, 174, 181] @ str '' E4 '' @ [229, 141, 160, 228, 189, 141] @ [newline]"

definition cmd_completion :: command where
  "cmd_completion env args s =
     (let shell = (if args = [] then str ''bash'' else args ! 0) in
      if shell = str ''bash'' then Some (kOk, bash_completion, s)
      else if shell = str ''zsh'' \<or> shell = str ''fish'' then Some (kOk, str ''# '' @ shell @ placeholder_note, s)
      else Some (kUnknownCmd, [], s))"

definition command_table :: "(bytes \<times> command) list" where
  "command_table = [(str ''discover'', cmd_discover), (str ''run'', cmd_run), (str ''push'', cmd_push), (str ''pull'', cmd_pull),
     (str ''topology'', cmd_topology), (str ''node'', cmd_node), (str ''trust'', cmd_trust), (str ''psk'', cmd_psk),
     (str ''auth'', cmd_auth), (str ''migrate'', cmd_migrate), (str ''config'', cmd_config), (str ''completion'', cmd_completion),
     (str ''version'', cmd_version), (str ''help'', cmd_help)]"

definition usage_text :: bytes where
  "usage_text =
    str ''udaf - Unified Device & Application Framework'' @ [newline] @ [231, 148, 168, 230, 179, 149] @
    str '': udaf <subcommand> [options]'' @ [newline] @ [232, 191, 144, 232, 161, 140] @ str '' '' @ [39] @
    str ''udaf help'' @ [39] @ str '' '' @
    [230, 159, 165, 231, 156, 139, 229, 143, 175, 231, 148, 168, 229, 173, 144, 229, 145, 189, 228, 187, 164, 227, 128, 130] @
    [newline]"

definition hint_text :: bytes where
  "hint_text =
    [232, 191, 144, 232, 161, 140] @ str '' '' @ [39] @ str ''udaf help'' @ [39] @ str '' '' @
    [230, 159, 165, 231, 156, 139, 229, 173, 144, 229, 145, 189, 228, 187, 164, 229, 184, 174, 229, 138, 169, 227, 128, 130] @
    [newline]"

text \<open>\<open>args\<close>: the words behind the program's name.\<close>

definition cli_main :: "cli_env \<Rightarrow> bytes list \<Rightarrow> client option \<Rightarrow> command_result" where
  "cli_main env args s = (case args of
      [] \<Rightarrow> Some (kUsage, usage_text, s)
    | sub # rest \<Rightarrow>
        if sub = str ''-h'' \<or> sub = str ''--help'' then Some (kOk, hint_text, s)
        else (case map_of command_table sub of
          None \<Rightarrow> Some (kUnknownCmd, [], s)
        | Some handler \<Rightarrow> handler env rest s))"

section \<open>Exit codes\<close>

definition returns :: "command_result \<Rightarrow> bool" where
  "returns r = (case r of None \<Rightarrow> False | Some (code, _) \<Rightarrow> code \<in> {kOk, kUsage, kUnknownCmd, kInvalidArg, kWhitelistDenied})"

text \<open>The words that make \<open>node register\<close> throw: a fifth word that is no number of an \<open>int\<close>.\<close>

definition bad_port :: "bytes list \<Rightarrow> bool" where
  "bad_port args = (length args \<ge> 5 \<and> args ! 0 = str ''register'' \<and> stoi (args ! 4) = None)"

lemma returns_simps [simp]:
  "returns (exits code out c) = (code \<in> {kOk, kUsage, kUnknownCmd, kInvalidArg, kWhitelistDenied})"
  "returns (report code show rc) = (case fst rc of Ok _ \<Rightarrow> True | _ \<Rightarrow> code \<in> {kOk, kUsage, kUnknownCmd, kInvalidArg, kWhitelistDenied})"
  "\<not> returns None"
  by (auto simp: returns_def exits_def report_def split: prod.split Result.split)

lemma exits_not_None [simp]: "exits code out c \<noteq> None"
  by (simp add: exits_def)

lemma cmd_node_returns: "returns (cmd_node env args s) = (\<not> bad_port args)"
proof (cases "args \<noteq> [] \<and> args ! 0 = str ''list''")
  case True
  then have "\<not> bad_port args" by (auto simp: bad_port_def word_unat_eq_iff)
  with True show ?thesis by (simp add: cmd_node_def Let_def del: str_simps)
next
  case False
  then show ?thesis
    by (auto simp: cmd_node_def bad_port_def Let_def simp del: str_simps split: option.split prod.split Result.split)
qed

lemma commands_return:
  "map_of command_table sub = Some handler \<Longrightarrow> sub \<noteq> str ''node'' \<Longrightarrow> returns (handler env args s)"
  unfolding command_table_def
  by (auto simp: cmd_discover_def cmd_run_def cmd_push_def cmd_pull_def cmd_topology_def cmd_trust_def cmd_psk_def cmd_auth_def
      cmd_migrate_def cmd_config_def cmd_completion_def cmd_version_def cmd_help_def Let_def simp del: str_simps
      split: if_splits prod.split Result.split) (simp_all add: returns_def)

lemma node_in_table: "map_of command_table (str ''node'') = Some cmd_node"
  by (simp add: command_table_def word_unat_eq_iff)

text \<open>
  How the program ends: every command line leads to one of five exit codes, except that
  \<open>node register\<close> with a port that is no number ends the process by an uncaught exception.
\<close>

theorem cli_exit:
  "case cli_main env args s of
     Some (code, _, _) \<Rightarrow> code \<in> {kOk, kUsage, kUnknownCmd, kInvalidArg, kWhitelistDenied}
   | None \<Rightarrow> args \<noteq> [] \<and> hd args = str ''node'' \<and> bad_port (tl args)"
proof -
  have r: "returns x \<Longrightarrow> case x of Some (code, _, _) \<Rightarrow> code \<in> {kOk, kUsage, kUnknownCmd, kInvalidArg, kWhitelistDenied} | None \<Rightarrow> P" for x P
    by (auto simp: returns_def split: option.splits)
  show ?thesis
  proof (cases args)
    case (Cons sub rest)
    consider "sub = str ''-h'' \<or> sub = str ''--help''" | "map_of command_table sub = None"
      | "sub = str ''node''" | h where "map_of command_table sub = Some h" "sub \<noteq> str ''node''" "\<not> (sub = str ''-h'' \<or> sub = str ''--help'')"
      by blast
    then show ?thesis
    proof cases
      case 3
      have m: "cli_main env args s = cmd_node env rest s"
        using node_in_table by (simp add: cli_main_def Cons 3 word_unat_eq_iff)
      show ?thesis
      proof (cases "bad_port rest")
        case True
        then have "cmd_node env rest s = None" using cmd_node_returns [of env rest s]
          by (auto simp: cmd_node_def bad_port_def Let_def word_unat_eq_iff simp del: str_simps)
        then have "cli_main env args s = None" using m by simp
        with True Cons 3 show ?thesis by simp
      next
        case False
        with cmd_node_returns show ?thesis unfolding m by (intro r) simp
      qed
    next
      case 4
      then show ?thesis using r [OF commands_return [OF 4(1,2)]] by (simp add: cli_main_def Cons)
    qed (simp_all add: cli_main_def Cons)
  qed (simp add: cli_main_def)
qed

section \<open>One process, one command\<close>

lemma fresh_client: "cl_whitelist (current_client env None) = [] \<and> reg_nodes (cl_registry (current_client env None)) = []"
  by (simp add: current_client_def client_start_def client_new_def client_append_def registry_new_def Let_def
      split: option.split prod.split)

lemma fresh_refuses:
  "is_err (fst (push_file env' src node path (current_client env None)))"
  "is_err (fst (pull_file env' node path dst (current_client env None)))"
  "is_err (fst (run_remote env' node command args (current_client env None)))"
  "is_err (fst (auth_psk env' node (current_client env None)))"
  using remote_refused_err [of node "current_client env None"] fresh_client [of env] by simp_all

lemma report_err: "is_err (fst rc) \<Longrightarrow> report code show rc = exits code [] (snd rc)"
  by (auto simp: report_def is_err_iff split: prod.split)

text \<open>Enough words of the right form for the remote command.\<close>

definition remote_form :: "string \<Rightarrow> bytes list \<Rightarrow> bool" where
  "remote_form cmd args =
     (if cmd = ''run'' then length args \<ge> 4 \<and> args ! 0 = str ''--node'' \<and> args ! 2 = str ''--''
      else if cmd = ''auth'' then length args \<ge> 2 \<and> args ! 0 = str ''psk''
      else length args \<ge> 3)"

text \<open>
  The command line tool cannot do remote work: each process runs one command with a client
  whose whitelist starts empty, so \<open>run\<close>, \<open>push\<close>, \<open>pull\<close> and \<open>auth psk\<close> are denied whatever
  nodes earlier processes trusted, and \<open>trust list\<close> and \<open>node list\<close> show nothing.
\<close>

theorem cli_remote_denied:
  assumes "cmd \<in> {''run'', ''push'', ''pull'', ''auth''}"
  shows "map_option (\<lambda>(code, out, _). (code, out)) (cli_main env (str cmd # args) None) =
      Some (if remote_form cmd args then kWhitelistDenied else kUsage, []) \<and>
    map_option (\<lambda>(code, out, _). (code, out)) (cli_main env [str ''trust'', str ''list''] None) =
      Some (kOk, str ''{\"count\":0}'' @ [newline]) \<and>
    map_option (\<lambda>(code, out, _). (code, out)) (cli_main env [str ''node'', str ''list''] None) = Some (kOk, str ''[]'' @ [newline])"
proof -
  have tbl: "cli_main env (str ''run'' # args) None = cmd_run env args None"
    "cli_main env (str ''push'' # args) None = cmd_push env args None"
    "cli_main env (str ''pull'' # args) None = cmd_pull env args None"
    "cli_main env (str ''auth'' # args) None = cmd_auth env args None"
    "cli_main env [str ''trust'', str ''list''] None = cmd_trust env [str ''list''] None"
    "cli_main env [str ''node'', str ''list''] None = cmd_node env [str ''list''] None"
    by (simp_all add: cli_main_def command_table_def word_unat_eq_iff)
  have run: "map_option (\<lambda>(code, out, _). (code, out)) (cmd_run env args None) =
      Some (if remote_form ''run'' args then kWhitelistDenied else kUsage, [])"
    unfolding cmd_run_def Let_def report_err [OF fresh_refuses(3)] exits_def remote_form_def by (simp del: str_simps)
  have push: "map_option (\<lambda>(code, out, _). (code, out)) (cmd_push env args None) =
      Some (if remote_form ''push'' args then kWhitelistDenied else kUsage, [])"
    unfolding cmd_push_def Let_def report_err [OF fresh_refuses(1)] exits_def remote_form_def by (simp del: str_simps)
  have pull: "map_option (\<lambda>(code, out, _). (code, out)) (cmd_pull env args None) =
      Some (if remote_form ''pull'' args then kWhitelistDenied else kUsage, [])"
    unfolding cmd_pull_def Let_def report_err [OF fresh_refuses(2)] exits_def remote_form_def by (simp del: str_simps)
  have auth: "map_option (\<lambda>(code, out, _). (code, out)) (cmd_auth env args None) =
      Some (if remote_form ''auth'' args then kWhitelistDenied else kUsage, [])"
    unfolding cmd_auth_def Let_def report_err [OF fresh_refuses(4)] exits_def remote_form_def by (simp del: str_simps)
  have "map_option (\<lambda>(code, out, _). (code, out)) (cli_main env (str cmd # args) None) =
      Some (if remote_form cmd args then kWhitelistDenied else kUsage, [])"
    using assms run push pull auth tbl(1-4) by (elim insertE emptyE) (simp_all only:)
  moreover have "map_option (\<lambda>(code, out, _). (code, out)) (cmd_trust env [str ''list''] None) =
      Some (kOk, str ''{\"count\":0}'' @ [newline])"
    "map_option (\<lambda>(code, out, _). (code, out)) (cmd_node env [str ''list''] None) = Some (kOk, str ''[]'' @ [newline])"
    using fresh_client [of env]
    by (simp_all add: trust_list_def wl_snapshot_def list_nodes_def reg_snapshot_def cmd_trust_def cmd_node_def exits_def
        Let_def dec_nat.simps [of 0] digit_def)
  ultimately show ?thesis unfolding tbl(5,6) by blast
qed

lemma cli_remote_denied_witness:
  "\<forall>env. map_option (\<lambda>(code, out, _). (code, out)) (cli_main env (str ''push'' # [str ''a'', str ''host'', str ''b'']) None) =
     Some (kWhitelistDenied, [])"
proof
  fix env
  show "map_option (\<lambda>(code, out, _). (code, out)) (cli_main env (str ''push'' # [str ''a'', str ''host'', str ''b'']) None) =
      Some (kWhitelistDenied, [])"
    using cli_remote_denied [of "''push''" env "[str ''a'', str ''host'', str ''b'']"]
    by (simp add: remote_form_def del: str_simps)
qed

end
