(* ===== verification/C_Api.thy ===== *)
theory C_Api
  imports Sdk
begin

text \<open>
  \<open>src/sdk/udaf_c.cpp\<close>: the C interface over the client. A pointer argument is an option
  (\<open>None\<close> the null pointer), an output pointer a truth value (whether it is there) with its
  content among the results. The strings handed out point into a vector of the handle; a
  pointer names the element and the lifetime of the vector's elements it was taken in, which
  ends when the vector is cleared or its storage moves.

  Shown: the strings \<open>udaf_client_discover\<close> hands out are readable when it returns and are all
  dangling after the next \<open>udaf_client_trust_list\<close>; how errors are reported.
\<close>

datatype udaf_error_t = UDAF_OK | UDAF_ERR_INVALID_ARG | UDAF_ERR_INTERNAL | UDAF_ERR_NOT_FOUND | UDAF_ERR_AUTH_UNTRUSTED
  | UDAF_ERR_RESOURCE_BUSY | UDAF_ERR_NET_TIMEOUT | UDAF_ERR_WHITELIST | UDAF_ERR_CONFIG | UDAF_ERR_NOT_IMPLEMENTED

fun c_error_number :: "udaf_error_t \<Rightarrow> nat" where
  "c_error_number UDAF_OK = 0"
| "c_error_number UDAF_ERR_INVALID_ARG = 1"
| "c_error_number UDAF_ERR_INTERNAL = 2"
| "c_error_number UDAF_ERR_NOT_FOUND = 3"
| "c_error_number UDAF_ERR_AUTH_UNTRUSTED = 4"
| "c_error_number UDAF_ERR_RESOURCE_BUSY = 5"
| "c_error_number UDAF_ERR_NET_TIMEOUT = 6"
| "c_error_number UDAF_ERR_WHITELIST = 7"
| "c_error_number UDAF_ERR_CONFIG = 8"
| "c_error_number UDAF_ERR_NOT_IMPLEMENTED = 9"

section \<open>A vector of strings and pointers into it\<close>

record str_vec =
  sv_life :: nat
  sv_capacity :: nat
  sv_items :: "bytes list"

record str_ptr =
  sp_life :: nat
  sp_index :: nat

definition sv_clear :: "str_vec \<Rightarrow> str_vec" where
  "sv_clear v = v\<lparr>sv_life := Suc (sv_life v), sv_items := []\<rparr>"

definition sv_reserve :: "nat \<Rightarrow> str_vec \<Rightarrow> str_vec" where
  "sv_reserve n v = (if sv_capacity v < n then v\<lparr>sv_life := Suc (sv_life v), sv_capacity := n\<rparr> else v)"

definition sv_push :: "bytes \<Rightarrow> str_vec \<Rightarrow> str_vec" where
  "sv_push s v = (let n = length (sv_items v) in
     if n < sv_capacity v then v\<lparr>sv_items := sv_items v @ [s]\<rparr>
     else v\<lparr>sv_life := Suc (sv_life v), sv_capacity := n + max n 1, sv_items := sv_items v @ [s]\<rparr>)"

text \<open>\<open>v[i].c_str()\<close>, and reading a C string through such a pointer.\<close>

definition sv_c_str :: "str_vec \<Rightarrow> nat \<Rightarrow> str_ptr" where
  "sv_c_str v i = \<lparr>sp_life = sv_life v, sp_index = i\<rparr>"

definition read_c_str :: "str_vec \<Rightarrow> str_ptr \<Rightarrow> bytes option" where
  "read_c_str v p = (if sp_life p = sv_life v \<and> sp_index p < length (sv_items v)
     then Some (takeWhile (\<lambda>b. b \<noteq> 0) (sv_items v ! sp_index p)) else None)"

text \<open>What \<open>std::string(s)\<close> takes from the memory at \<open>s\<close>.\<close>

definition copy_cstr :: "bytes option \<Rightarrow> bytes" where
  "copy_cstr s = (case s of Some s \<Rightarrow> takeWhile (\<lambda>b. b \<noteq> 0) s | None \<Rightarrow> [])"

text \<open>\<open>count\<close> elements of an array of strings; \<open>None\<close> when the read leaves the array.\<close>

definition copy_array :: "bytes option list option \<Rightarrow> u32 \<Rightarrow> bytes list option" where
  "copy_array arr n =
     (if n = 0 then Some []
      else case arr of
        None \<Rightarrow> None
      | Some l \<Rightarrow> if unat n \<le> length l then Some (map copy_cstr (take (unat n) l)) else None)"

section \<open>The handle\<close>

record udaf_client_config_t =
  cc_node_id :: "bytes option"
  cc_bind_address :: "bytes option"
  cc_bind_port :: u16
  cc_audit_path :: "bytes option"

record udaf_node_entry_t =
  ne_node_id :: str_ptr
  ne_hostname :: str_ptr
  ne_bind_address :: str_ptr
  ne_bind_port :: u16
  ne_service_count :: u32

text \<open>
  \<open>capabilities\<close> is declared as an array of C strings; what it is set to is the array of
  \<open>std::string\<close> objects itself.
\<close>

datatype cap_array = Cap_null | Cap_objects "bytes list"

record udaf_trust_entry_t =
  te_node_id_ptr :: str_ptr
  te_fingerprint_ptr :: str_ptr
  te_capability_count :: u32
  te_cap_array :: cap_array

record udaf_audit_result_t =
  ar_sequence :: u64
  ar_json_payload :: bytes

record ClientRep =
  cr_client :: client
  cr_node_id_buf :: bytes
  cr_str_buf :: str_vec
  cr_node_entries :: "udaf_node_entry_t list"
  cr_trust_entries :: "udaf_trust_entry_t list"
  cr_trust_caps_buf :: "bytes list list"

definition udaf_client_create ::
    "sdk_env \<Rightarrow> bytes \<Rightarrow> bytes option \<Rightarrow> udaf_client_config_t option \<Rightarrow> bool \<Rightarrow> udaf_error_t \<times> ClientRep option" where
  "udaf_client_create env rnd file cfg out_client = (case cfg of
      None \<Rightarrow> (UDAF_ERR_INVALID_ARG, None)
    | Some cfg \<Rightarrow>
        if \<not> out_client then (UDAF_ERR_INVALID_ARG, None)
        else let c = \<lparr>sc_node_id = copy_cstr (cc_node_id cfg), sc_bind_address = copy_cstr (cc_bind_address cfg),
                 sc_bind_port = cc_bind_port cfg, sc_audit_path = copy_cstr (cc_audit_path cfg)\<rparr>;
               (r, client) = client_start env (client_new env rnd c file) in
             if is_err r then (UDAF_ERR_INTERNAL, None)
             else (UDAF_OK, Some \<lparr>cr_client = client, cr_node_id_buf = sc_node_id c,
               cr_str_buf = \<lparr>sv_life = 0, sv_capacity = 0, sv_items = []\<rparr>, cr_node_entries = [], cr_trust_entries = [],
               cr_trust_caps_buf = []\<rparr>))"

definition udaf_client_start :: "sdk_env \<Rightarrow> ClientRep option \<Rightarrow> udaf_error_t \<times> ClientRep option" where
  "udaf_client_start env client = (case client of
      None \<Rightarrow> (UDAF_ERR_INVALID_ARG, None)
    | Some rep \<Rightarrow> (case client_start env (cr_client rep) of
        (r, c) \<Rightarrow> (if is_ok r then UDAF_OK else UDAF_ERR_INTERNAL, Some (rep\<lparr>cr_client := c\<rparr>))))"

definition udaf_client_stop :: "sdk_env \<Rightarrow> ClientRep option \<Rightarrow> udaf_error_t \<times> ClientRep option" where
  "udaf_client_stop env client = (case client of
      None \<Rightarrow> (UDAF_ERR_INVALID_ARG, None)
    | Some rep \<Rightarrow> (case client_stop env (cr_client rep) of
        (r, c) \<Rightarrow> (if is_ok r then UDAF_OK else UDAF_ERR_INTERNAL, Some (rep\<lparr>cr_client := c\<rparr>))))"

section \<open>Discovery and topology\<close>

fun discover_entry :: "RegistryEntry \<Rightarrow> str_vec \<times> udaf_node_entry_t list \<Rightarrow> str_vec \<times> udaf_node_entry_t list" where
  "discover_entry e (v, out) =
     (let v = sv_push (re_bind_address e) (sv_push (re_hostname e) (sv_push (re_node_id e) v));
          n = length (sv_items v) in
      (v, out @ [\<lparr>ne_node_id = sv_c_str v (n - 3), ne_hostname = sv_c_str v (n - 2), ne_bind_address = sv_c_str v (n - 1),
         ne_bind_port = re_bind_port e, ne_service_count = of_nat (length (re_services e))\<rparr>]))"

definition udaf_client_discover ::
    "ClientRep option \<Rightarrow> bytes option \<Rightarrow> bool \<Rightarrow> bool \<Rightarrow> udaf_error_t \<times> ClientRep option \<times> (udaf_node_entry_t list \<times> u32) option" where
  "udaf_client_discover client capability_filter out_entries out_count = (case client of
      None \<Rightarrow> (UDAF_ERR_INVALID_ARG, None, None)
    | Some rep \<Rightarrow>
        if \<not> out_entries \<or> \<not> out_count then (UDAF_ERR_INVALID_ARG, Some rep, None)
        else let entries = client_discover (copy_cstr capability_filter) (cr_client rep);
                 v = sv_reserve (length entries * 3) (sv_clear (cr_str_buf rep));
                 (v, out) = fold discover_entry entries (v, []) in
             (UDAF_OK, Some (rep\<lparr>cr_str_buf := v, cr_node_entries := out\<rparr>), Some (out, of_nat (length out))))"

definition udaf_client_register_node ::
    "ClientRep option \<Rightarrow> bytes option \<Rightarrow> bytes option \<Rightarrow> bytes option \<Rightarrow> u16 \<Rightarrow> udaf_error_t \<times> ClientRep option" where
  "udaf_client_register_node client node_id hostname bind_address bind_port = (case client of
      None \<Rightarrow> (UDAF_ERR_INVALID_ARG, None)
    | Some rep \<Rightarrow>
        if node_id = None \<or> hostname = None \<or> bind_address = None then (UDAF_ERR_INVALID_ARG, Some rep)
        else (case client_register_node (copy_cstr node_id) (copy_cstr hostname) (copy_cstr bind_address) bind_port (cr_client rep) of
          (r, c) \<Rightarrow> (if is_ok r then UDAF_OK else UDAF_ERR_INTERNAL, Some (rep\<lparr>cr_client := c\<rparr>))))"

definition udaf_client_unregister_node :: "ClientRep option \<Rightarrow> bytes option \<Rightarrow> udaf_error_t \<times> ClientRep option" where
  "udaf_client_unregister_node client node_id = (case client of
      None \<Rightarrow> (UDAF_ERR_INVALID_ARG, None)
    | Some rep \<Rightarrow>
        if node_id = None then (UDAF_ERR_INVALID_ARG, Some rep)
        else (case client_unregister_node (copy_cstr node_id) (cr_client rep) of
          (r, c) \<Rightarrow> (case r of Ok True \<Rightarrow> UDAF_OK | _ \<Rightarrow> UDAF_ERR_NOT_FOUND, Some (rep\<lparr>cr_client := c\<rparr>))))"

definition udaf_client_topology_node_count :: "ClientRep option \<Rightarrow> u32" where
  "udaf_client_topology_node_count client = (case client of
      None \<Rightarrow> 0 | Some rep \<Rightarrow> of_nat (ts_node_count (topology_summary (cr_client rep))))"

section \<open>The whitelist\<close>

text \<open>\<open>None\<close> when the capabilities are not readable.\<close>

definition udaf_client_trust_add ::
    "sdk_env \<Rightarrow> ClientRep option \<Rightarrow> bytes option \<Rightarrow> bytes option \<Rightarrow> bytes option list option \<Rightarrow> u32 \<Rightarrow>
     (udaf_error_t \<times> ClientRep option) option" where
  "udaf_client_trust_add env client node_id fp_hex capabilities capability_count = (case client of
      None \<Rightarrow> Some (UDAF_ERR_INVALID_ARG, None)
    | Some rep \<Rightarrow>
        if node_id = None \<or> fp_hex = None then Some (UDAF_ERR_INVALID_ARG, Some rep)
        else map_option (\<lambda>caps.
          case trust_add env (copy_cstr node_id) (copy_cstr fp_hex) caps (cr_client rep) of
            (r, c) \<Rightarrow> (case r of
                Err e \<Rightarrow> if e = EC_INVALID_ARG then UDAF_ERR_WHITELIST else UDAF_ERR_INTERNAL
              | _ \<Rightarrow> UDAF_OK, Some (rep\<lparr>cr_client := c\<rparr>)))
          (copy_array capabilities capability_count))"

definition udaf_client_trust_remove :: "sdk_env \<Rightarrow> ClientRep option \<Rightarrow> bytes option \<Rightarrow> udaf_error_t \<times> ClientRep option" where
  "udaf_client_trust_remove env client node_id = (case client of
      None \<Rightarrow> (UDAF_ERR_INVALID_ARG, None)
    | Some rep \<Rightarrow>
        if node_id = None then (UDAF_ERR_INVALID_ARG, Some rep)
        else (case trust_remove env (copy_cstr node_id) (cr_client rep) of
          (r, c) \<Rightarrow> (if is_ok r then UDAF_OK else UDAF_ERR_NOT_FOUND, Some (rep\<lparr>cr_client := c\<rparr>))))"

fun trust_entry :: "TrustEntry \<Rightarrow> str_vec \<times> udaf_trust_entry_t list \<Rightarrow> str_vec \<times> udaf_trust_entry_t list" where
  "trust_entry t (v, out) =
     (let v = sv_push (te_fingerprint_sha256_hex t) (sv_push (te_node_id t) v);
          n = length (sv_items v) in
      (v, out @ [\<lparr>te_node_id_ptr = sv_c_str v (n - 2), te_fingerprint_ptr = sv_c_str v (n - 1),
         te_capability_count = of_nat (length (te_capabilities t)),
         te_cap_array = (if te_capabilities t = [] then Cap_null else Cap_objects (te_capabilities t))\<rparr>]))"

definition udaf_client_trust_list ::
    "ClientRep option \<Rightarrow> bool \<Rightarrow> bool \<Rightarrow> udaf_error_t \<times> ClientRep option \<times> (udaf_trust_entry_t list \<times> u32) option" where
  "udaf_client_trust_list client out_entries out_count = (case client of
      None \<Rightarrow> (UDAF_ERR_INVALID_ARG, None, None)
    | Some rep \<Rightarrow>
        if \<not> out_entries \<or> \<not> out_count then (UDAF_ERR_INVALID_ARG, Some rep, None)
        else let list = trust_list (cr_client rep);
                 v = sv_reserve (length list * 2) (sv_clear (cr_str_buf rep));
                 (v, out) = fold trust_entry list (v, []) in
             (UDAF_OK, Some (rep\<lparr>cr_str_buf := v, cr_trust_entries := out, cr_trust_caps_buf := map te_capabilities list\<rparr>),
              Some (out, of_nat (length out))))"

section \<open>Commands and files\<close>

definition audit_result :: "u64 \<Rightarrow> udaf_audit_result_t" where
  "audit_result n = \<lparr>ar_sequence = n, ar_json_payload = str ''{}''\<rparr>"

definition run_error :: "ErrorCode \<Rightarrow> udaf_error_t" where
  "run_error e = (if e = EC_BIZ_AUTH_UNTRUSTED then UDAF_ERR_WHITELIST
     else if e = EC_INVALID_ARG then UDAF_ERR_INVALID_ARG
     else if e = EC_NODE_NOT_FOUND then UDAF_ERR_NOT_FOUND
     else UDAF_ERR_INTERNAL)"

definition udaf_client_run_remote ::
    "sdk_env \<Rightarrow> ClientRep option \<Rightarrow> bytes option \<Rightarrow> bytes option \<Rightarrow> bytes option list option \<Rightarrow> u32 \<Rightarrow> bool \<Rightarrow>
     (udaf_error_t \<times> ClientRep option \<times> udaf_audit_result_t option) option" where
  "udaf_client_run_remote env client node_id command args arg_count out = (case client of
      None \<Rightarrow> Some (UDAF_ERR_INVALID_ARG, None, None)
    | Some rep \<Rightarrow>
        if node_id = None \<or> command = None \<or> \<not> out then Some (UDAF_ERR_INVALID_ARG, Some rep, None)
        else map_option (\<lambda>sargs.
          case run_remote env (copy_cstr node_id) (copy_cstr command) sargs (cr_client rep) of
            (Err e, c) \<Rightarrow> (run_error e, Some (rep\<lparr>cr_client := c\<rparr>), None)
          | (r, c) \<Rightarrow> (UDAF_OK, Some (rep\<lparr>cr_client := c\<rparr>), map_option audit_result (result_value r)))
          (copy_array args arg_count))"

definition file_result :: "ClientRep \<Rightarrow> u64 Result \<times> client \<Rightarrow> udaf_error_t \<times> ClientRep option \<times> udaf_audit_result_t option" where
  "file_result rep rc = (case rc of
      (Ok n, c) \<Rightarrow> (UDAF_OK, Some (rep\<lparr>cr_client := c\<rparr>), Some (audit_result n))
    | (Err e, c) \<Rightarrow> (if e = EC_BIZ_AUTH_UNTRUSTED then UDAF_ERR_WHITELIST else UDAF_ERR_INVALID_ARG, Some (rep\<lparr>cr_client := c\<rparr>), None)
    | (Uninitialized, c) \<Rightarrow> (UDAF_ERR_INVALID_ARG, Some (rep\<lparr>cr_client := c\<rparr>), None))"

definition udaf_client_push_file ::
    "sdk_env \<Rightarrow> ClientRep option \<Rightarrow> bytes option \<Rightarrow> bytes option \<Rightarrow> bytes option \<Rightarrow> bool \<Rightarrow>
     udaf_error_t \<times> ClientRep option \<times> udaf_audit_result_t option" where
  "udaf_client_push_file env client src_path dst_node dst_path out = (case client of
      None \<Rightarrow> (UDAF_ERR_INVALID_ARG, None, None)
    | Some rep \<Rightarrow>
        if src_path = None \<or> dst_node = None \<or> dst_path = None \<or> \<not> out then (UDAF_ERR_INVALID_ARG, Some rep, None)
        else file_result rep (push_file env (copy_cstr src_path) (copy_cstr dst_node) (copy_cstr dst_path) (cr_client rep)))"

definition udaf_client_pull_file ::
    "sdk_env \<Rightarrow> ClientRep option \<Rightarrow> bytes option \<Rightarrow> bytes option \<Rightarrow> bytes option \<Rightarrow> bool \<Rightarrow>
     udaf_error_t \<times> ClientRep option \<times> udaf_audit_result_t option" where
  "udaf_client_pull_file env client src_node src_path dst_path out = (case client of
      None \<Rightarrow> (UDAF_ERR_INVALID_ARG, None, None)
    | Some rep \<Rightarrow>
        if src_node = None \<or> src_path = None \<or> dst_path = None \<or> \<not> out then (UDAF_ERR_INVALID_ARG, Some rep, None)
        else file_result rep (pull_file env (copy_cstr src_node) (copy_cstr src_path) (copy_cstr dst_path) (cr_client rep)))"

definition udaf_version_string :: bytes where
  "udaf_version_string = str ''udaf v0.1.0''"

definition udaf_abi_version :: u32 where
  "udaf_abi_version = 1"

section \<open>Lifetimes\<close>

lemma sv_push_room:
  "length (sv_items v) < sv_capacity v \<Longrightarrow>
     sv_life (sv_push s v) = sv_life v \<and> sv_capacity (sv_push s v) = sv_capacity v \<and> sv_items (sv_push s v) = sv_items v @ [s]"
  by (simp add: sv_push_def Let_def)

lemma sv_push_life: "sv_life v \<le> sv_life (sv_push s v)"
  by (simp add: sv_push_def Let_def)

lemma read_later: "sv_life v = sv_life w \<Longrightarrow> sv_items w = sv_items v @ ys \<Longrightarrow> read_c_str v p = Some s \<Longrightarrow> read_c_str w p = Some s"
  by (auto simp: read_c_str_def nth_append split: if_splits)

abbreviation c_text :: "bytes \<Rightarrow> bytes" where
  "c_text s \<equiv> takeWhile (\<lambda>b. b \<noteq> 0) s"

text \<open>The texts an entry shows.\<close>

definition entry_texts :: "str_vec \<Rightarrow> udaf_node_entry_t \<Rightarrow> bytes option list" where
  "entry_texts v x = map (read_c_str v) [ne_node_id x, ne_hostname x, ne_bind_address x]"

definition registry_texts :: "RegistryEntry \<Rightarrow> bytes option list" where
  "registry_texts e = map (Some \<circ> c_text) [re_node_id e, re_hostname e, re_bind_address e]"

lemma discover_entry_step:
  assumes "length (sv_items v) + 3 \<le> sv_capacity v" "discover_entry e (v, out) = (w, out')"
  shows "sv_life w = sv_life v \<and> sv_capacity w = sv_capacity v \<and>
    sv_items w = sv_items v @ [re_node_id e, re_hostname e, re_bind_address e] \<and>
    (\<exists>x. out' = out @ [x] \<and> entry_texts w x = registry_texts e \<and> list_all (\<lambda>p. sp_life p = sv_life v) [ne_node_id x, ne_hostname x, ne_bind_address x])"
proof -
  let ?v1 = "sv_push (re_node_id e) v"
  let ?v2 = "sv_push (re_hostname e) ?v1"
  let ?v3 = "sv_push (re_bind_address e) ?v2"
  have 1: "sv_life ?v1 = sv_life v" "sv_capacity ?v1 = sv_capacity v" "sv_items ?v1 = sv_items v @ [re_node_id e]"
    using sv_push_room [of v "re_node_id e"] assms(1) by simp_all
  have 2: "sv_life ?v2 = sv_life v" "sv_capacity ?v2 = sv_capacity v" "sv_items ?v2 = sv_items v @ [re_node_id e, re_hostname e]"
    using sv_push_room [of ?v1 "re_hostname e"] assms(1) 1 by simp_all
  have 3: "sv_life ?v3 = sv_life v" "sv_capacity ?v3 = sv_capacity v"
    "sv_items ?v3 = sv_items v @ [re_node_id e, re_hostname e, re_bind_address e]"
    using sv_push_room [of ?v2 "re_bind_address e"] assms(1) 2 by simp_all
  with assms(2) show ?thesis
    by (auto simp: Let_def entry_texts_def registry_texts_def read_c_str_def sv_c_str_def nth_append)
qed

lemma discover_loop:
  assumes "length (sv_items v) + 3 * length es \<le> sv_capacity v" "fold discover_entry es (v, out) = (w, out')"
  shows "sv_life w = sv_life v \<and> (\<exists>ys. sv_items w = sv_items v @ ys) \<and>
    (\<exists>xs. out' = out @ xs \<and> map (entry_texts w) xs = map registry_texts es \<and>
      list_all (\<lambda>x. list_all (\<lambda>p. sp_life p = sv_life v) [ne_node_id x, ne_hostname x, ne_bind_address x]) xs)"
  using assms
proof (induction es arbitrary: v out)
  case (Cons e es)
  obtain v1 out1 where s: "discover_entry e (v, out) = (v1, out1)" by fastforce
  from discover_entry_step [OF _ s] Cons.prems(1) obtain x where
    x: "sv_life v1 = sv_life v" "sv_capacity v1 = sv_capacity v" "sv_items v1 = sv_items v @ [re_node_id e, re_hostname e, re_bind_address e]"
    "out1 = out @ [x]" "entry_texts v1 x = registry_texts e"
    "list_all (\<lambda>p. sp_life p = sv_life v) [ne_node_id x, ne_hostname x, ne_bind_address x]" by auto
  have f: "fold discover_entry es (v1, out1) = (w, out')" using Cons.prems(2) s by simp
  have "length (sv_items v1) + 3 * length es \<le> sv_capacity v1" using Cons.prems(1) x(2,3) by simp
  from Cons.IH [OF this f] obtain ys xs where
    r: "sv_life w = sv_life v1" "sv_items w = sv_items v1 @ ys" "out' = out1 @ xs" "map (entry_texts w) xs = map registry_texts es"
    "list_all (\<lambda>x. list_all (\<lambda>p. sp_life p = sv_life v1) [ne_node_id x, ne_hostname x, ne_bind_address x]) xs" by blast
  have "entry_texts w x = registry_texts e"
    using x(5) read_later [OF r(1) [symmetric] r(2)] by (simp add: entry_texts_def registry_texts_def)
  with x r(4) have "map (entry_texts w) (x # xs) = map registry_texts (e # es)" by (simp only: list.map)
  moreover have "list_all (\<lambda>x. list_all (\<lambda>p. sp_life p = sv_life v) [ne_node_id x, ne_hostname x, ne_bind_address x]) (x # xs)"
    using x(1,6) r(5) by (simp only: list.pred_inject simp_thms)
  moreover have "out' = out @ x # xs" "sv_life w = sv_life v" "sv_items w = sv_items v @ [re_node_id e, re_hostname e, re_bind_address e] @ ys"
    using x(1,3,4) r(1-3) by simp_all
  ultimately show ?case by blast
qed simp

lemma read_dead: "sp_life p < sv_life v \<Longrightarrow> read_c_str v p = None"
  by (simp add: read_c_str_def)

lemma trust_entry_life: "trust_entry t (v, out) = (w, out') \<Longrightarrow> sv_life v \<le> sv_life w"
  using order.trans [OF sv_push_life [of v "te_node_id t"] sv_push_life [of "sv_push (te_node_id t) v" "te_fingerprint_sha256_hex t"]]
  by (auto simp: Let_def)

lemma trust_loop_life: "fold trust_entry ts (v, out) = (w, out') \<Longrightarrow> sv_life v \<le> sv_life w"
proof (induction ts arbitrary: v out)
  case (Cons t ts)
  obtain v1 out1 where s: "trust_entry t (v, out) = (v1, out1)" by fastforce
  with Cons.prems have "fold trust_entry ts (v1, out1) = (w, out')" by simp
  with Cons.IH trust_entry_life [OF s] order.trans show ?case by blast
qed simp

lemma sv_reserve_life: "sv_life v \<le> sv_life (sv_reserve n v)"
  by (simp add: sv_reserve_def)

lemma discover_runs:
  "fold discover_entry (reg_snapshot (cl_registry (cr_client rep)))
       (sv_reserve (length (reg_snapshot (cl_registry (cr_client rep))) * 3) (sv_clear (cr_str_buf rep)), []) = (w, xs) \<Longrightarrow>
     udaf_client_discover (Some rep) capability_filter True True =
       (UDAF_OK, Some (rep\<lparr>cr_str_buf := w, cr_node_entries := xs\<rparr>), Some (xs, of_nat (length xs)))"
  by (simp add: udaf_client_discover_def client_discover_def Let_def)

lemma trust_list_runs:
  "fold trust_entry (trust_list (cr_client rep))
       (sv_reserve (length (trust_list (cr_client rep)) * 2) (sv_clear (cr_str_buf rep)), []) = (u, out) \<Longrightarrow>
     udaf_client_trust_list (Some rep) True True =
       (UDAF_OK, Some (rep\<lparr>cr_str_buf := u, cr_trust_entries := out, cr_trust_caps_buf := map te_capabilities (trust_list (cr_client rep))\<rparr>),
        Some (out, of_nat (length out)))"
  by (simp add: udaf_client_trust_list_def Let_def)

text \<open>
  The strings of the C interface: \<open>udaf_client_discover\<close> hands out, for every registered node
  in order, pointers that read as the node's id, host name and address when it returns (up to a
  NUL in them), and after the next \<open>udaf_client_trust_list\<close> on the handle every one of these
  pointers dangles, whatever the two lists hold.
\<close>

theorem c_strings_lifetime:
  "case udaf_client_discover (Some rep) capability_filter True True of (err, rep1, out) \<Rightarrow>
     (\<exists>r1 xs. err = UDAF_OK \<and> rep1 = Some r1 \<and> out = Some (xs, of_nat (length xs)) \<and> cr_client r1 = cr_client rep \<and>
       map (entry_texts (cr_str_buf r1)) xs = map registry_texts (reg_snapshot (cl_registry (cr_client rep))) \<and>
       (case udaf_client_trust_list (Some r1) True True of (err2, rep2, out2) \<Rightarrow>
         (\<exists>r2. err2 = UDAF_OK \<and> rep2 = Some r2 \<and> list_all (\<lambda>x. entry_texts (cr_str_buf r2) x = [None, None, None]) xs)))"
proof -
  let ?es = "reg_snapshot (cl_registry (cr_client rep))"
  let ?v = "sv_reserve (length ?es * 3) (sv_clear (cr_str_buf rep))"
  obtain w xs where f: "fold discover_entry ?es (?v, []) = (w, xs)" by fastforce
  have room: "length (sv_items ?v) + 3 * length ?es \<le> sv_capacity ?v" by (simp add: sv_reserve_def sv_clear_def)
  from discover_loop [OF room f] have
    d: "map (entry_texts w) xs = map registry_texts ?es" "sv_life w = sv_life ?v"
    "list_all (\<lambda>x. list_all (\<lambda>p. sp_life p = sv_life ?v) [ne_node_id x, ne_hostname x, ne_bind_address x]) xs" by auto
  let ?r1 = "rep\<lparr>cr_str_buf := w, cr_node_entries := xs\<rparr>"
  let ?ts = "trust_list (cr_client rep)"
  obtain u out where g: "fold trust_entry ?ts (sv_reserve (length ?ts * 2) (sv_clear w), []) = (u, out)" by fastforce
  have "sv_life w < sv_life u"
    using trust_loop_life [OF g] sv_reserve_life [of "sv_clear w" "length ?ts * 2"] by (simp add: sv_clear_def)
  then have "list_all (\<lambda>x. entry_texts u x = [None, None, None]) xs"
    using d(2,3) read_dead by (auto simp: list_all_iff entry_texts_def)
  then have dead: "list_all (\<lambda>x. entry_texts (cr_str_buf (?r1\<lparr>cr_str_buf := u, cr_trust_entries := out,
      cr_trust_caps_buf := map te_capabilities ?ts\<rparr>)) x = [None, None, None]) xs" by simp
  have "fold trust_entry (trust_list (cr_client ?r1))
      (sv_reserve (length (trust_list (cr_client ?r1)) * 2) (sv_clear (cr_str_buf ?r1)), []) = (u, out)" using g by simp
  note t = trust_list_runs [OF this]
  have c: "cr_client ?r1 = cr_client rep" "map (entry_texts (cr_str_buf ?r1)) xs = map registry_texts ?es"
    using d(1) by simp_all
  show ?thesis unfolding discover_runs [OF f] prod.case
  proof (rule exI [of _ ?r1], rule exI [of _ xs], intro conjI refl c)
    show "case udaf_client_trust_list (Some ?r1) True True of (err2, rep2, out2) \<Rightarrow>
        \<exists>r2. err2 = UDAF_OK \<and> rep2 = Some r2 \<and> list_all (\<lambda>x. entry_texts (cr_str_buf r2) x = [None, None, None]) xs"
      unfolding t prod.case c by (intro exI conjI, rule refl, rule refl, rule dead)
  qed
qed

section \<open>Errors\<close>

text \<open>
  A refused push or pull is reported as a whitelist error when the node is not trusted and as an
  invalid argument whatever else went wrong, a failure of the audit log included.
\<close>

lemma c_push_errors:
  "udaf_client_push_file env (Some rep) (Some src) (Some node) (Some path) True = (err, rep', out) \<Longrightarrow>
     err \<in> {UDAF_OK, UDAF_ERR_WHITELIST, UDAF_ERR_INVALID_ARG} \<and> (cl_audit (cr_client rep) = None \<longrightarrow> err = UDAF_ERR_INVALID_ARG)"
  by (auto simp: udaf_client_push_file_def file_result_def push_file_def split: Result.splits prod.splits if_splits)

text \<open>A bad fingerprint is reported as a whitelist error, an empty node id too.\<close>

lemma c_trust_add_bad_fingerprint:
  "length (c_text fp) \<noteq> 64 \<Longrightarrow>
     udaf_client_trust_add env (Some rep) (Some node) (Some fp) None 0 = Some (UDAF_ERR_WHITELIST, Some rep)"
  by (simp add: udaf_client_trust_add_def copy_array_def copy_cstr_def trust_add_def)

text \<open>
  An entry without capabilities has a null array; any other array is one of \<open>std::string\<close>
  objects, which is not the array of C strings the header declares.
\<close>

lemma c_trust_list_arrays:
  "fold trust_entry ts (v, out) = (w, out') \<Longrightarrow>
     map te_cap_array out' = map te_cap_array out @
       map (\<lambda>t. if te_capabilities t = [] then Cap_null else Cap_objects (te_capabilities t)) ts"
proof (induction ts arbitrary: v out)
  case (Cons t ts)
  obtain v1 out1 where s: "trust_entry t (v, out) = (v1, out1)" by fastforce
  with Cons.prems have "fold trust_entry ts (v1, out1) = (w, out')" by simp
  from Cons.IH [OF this] s show ?case by (auto simp: Let_def)
qed simp

end
