(* ===== verification/Spec2Isabelle.thy ===== *)
theory Spec2Isabelle
  imports Ring_Threads Tls Wal_Crash Node_Threads Registry_Threads Serializer Topology Psk_Auth Discovery_Run Service_Loop Inproc_Channel Tcp_Threads Audit_Sharing
    File_Xfer Metrics Logger Cli C_Api
begin

text \<open>
  A model of UDAF, the Unified Device and Application Framework, a C++20 framework for finding
  devices and services in a local network, moving data between them and driving them remotely.
  The sources named here are under \<open>src/\<close> of the repository's \<open>src\<close> directory.

  \<^bold>\<open>The program.\<close> Its parts, from the bottom:

    \<^item> \<open>core\<close>: error codes and the result type through which every operation reports failure, the
      two ring buffers, the configuration loader and the logger;
    \<^item> \<open>platform/fs\<close>: the owning descriptor handle and the write-ahead log;
    \<^item> \<open>crypto\<close>: HMAC, key derivation and authenticated encryption over OpenSSL, the pre-shared-key
      handshake with its message formats, the authenticator's state machine, the key file;
    \<^item> capability A (\<open>ability_a\<close>, \<open>bridge\<close>): the UDP socket with its rate limits, the advertiser and
      the scanner of the discovery protocol, the registry of the nodes found, the whitelist of
      trusted peers, the bridge from registry events to topology callbacks;
    \<^item> capability B (\<open>ability_b\<close>): ports and node lifecycles, serialisation of messages, the
      channels (in-process and TCP), the topology with its transactions;
    \<^item> capability C (\<open>ability_c\<close>): the process executor and the nodes that run commands, receive
      files and answer questions about the network;
    \<^item> \<open>audit\<close> (a hash-chained log), \<open>observability\<close> (metrics and trace contexts), and on top \<open>sdk\<close>
      (the client and its C interface) and \<open>cli\<close> (the command line tool).

  Discovery registers what it hears in the registry, whose events reach the topology through the
  bridge. The client of the SDK owns a registry, a whitelist, a topology and an audit log; the C
  interface and the command line tool drive a client. The node classes stand between ports; the
  command node calls the executor.

  \<^bold>\<open>Theories.\<close> \<open>Udaf_Prelude\<close> has the types (bytes, words, association lists for the hash maps),
  the named collections of facts and the lemmas about lists, words and little-endian numbers that
  the components share; \<open>Interfaces\<close> and \<open>Step_Systems\<close> the locales: a bounded queue, a
  state machine with an invariant, a step relation, and others, each interpreted in the theory of
  the component that provides it.

    \<^item> \<open>Error_Code\<close>, \<open>Result_Type\<close> (\<open>core/error_code\<close>, \<open>core/result.hpp\<close>): the numbers and classes
      of the codes; the error-monad laws, with a moved-from result as a third state.
    \<^item> \<open>Ring_Buffer\<close> (\<open>core/buffer\<close>): 64-bit positions that wrap around, the storage as bytes; both
      rings are queues of records, and where the dynamic ring leaves its allocation.
    \<^item> \<open>Ring_Threads\<close>: the same ring with its producer and its consumer in two threads, as a step
      relation over atomic loads and stores and single bytes.
    \<^item> \<open>Posix_File\<close>, \<open>Wal\<close>, \<open>Wal_Log\<close>, \<open>Wal_Crash\<close> (\<open>platform/fs/wal\<close>): the file wrappers over interrupted,
      short and failing system calls (the schedule of outcomes is part of the file's state), the
      layout of header and entries, every operation; each refines an operation on a list of
      entries, damage of a single byte is noticed, reopening restores the state, a torn append
      stops the replay, and a failure inside \<open>truncate\<close> loses the entries to keep.
    \<^item> \<open>Unique_Fd\<close> (\<open>platform/fs/unique_fd.hpp\<close>): ownership over an explicit descriptor table.
    \<^item> \<open>Crypto\<close>, \<open>Psk_Auth\<close> (\<open>crypto\<close>): key derivation, the three steps of the handshake, message
      encodings, the authenticator's states, the key file.
    \<^item> \<open>Tls\<close> (\<open>crypto/tls_context\<close>, \<open>crypto/pki\<close>, \<open>crypto/pki_authenticator\<close>): the TLS contexts with
      their factories and callbacks, the handshake driver and the certificate authenticator, over a
      log of the library's calls; an automaton over that log says what the library demands.
    \<^item> \<open>Udp\<close>, \<open>Discovery\<close>, \<open>Discovery_Run\<close>, \<open>Service_Loop\<close> (\<open>ability_a/transport\<close>,
      \<open>ability_a/discovery\<close>): sending and receiving under the rate limits, the announcement's format,
      broadcasting, verification and the replay window; the loops of the two background threads,
      and their start/stop protocol as a step relation.
    \<^item> \<open>Registry\<close>, \<open>Registry_Threads\<close> (\<open>ability_a/registry\<close>, \<open>ability_a/trust\<close>, \<open>ability_a/bridge\<close>,
      \<open>bridge\<close>): the table with subscriptions, also with several threads; the whitelist, the bridge.
    \<^item> \<open>Serializer\<close>, \<open>Topology\<close> (\<open>ability_b/serialization\<close>, \<open>ability_b/topology\<close>): the frame codec;
      transactions, snapshots and the depth-first search for cycles.
    \<^item> \<open>Dataflow\<close> (\<open>ability_b/port\<close>, \<open>ability_b/node\<close>): ports, lifecycle states, the scheduler.
    \<^item> \<open>Inproc_Channel\<close>, \<open>Tcp_Channel\<close>, \<open>Tcp_Threads\<close> (\<open>ability_b/transport\<close>): the channels and the TCP
      frame codec; the life of the TCP channel's socket when several threads use it.
    \<^item> \<open>Executor\<close>, \<open>Nodes\<close>, \<open>Node_Threads\<close>, \<open>File_Xfer\<close> (\<open>ability_c\<close>): starting a program and reading its two
      pipes as a step relation, with a child that may close its streams early; the worker loops of the nodes and their lifecycle calls as
      atomic steps; writing received files.
    \<^item> \<open>Text_Codec\<close>, \<open>Audit_Log\<close>, \<open>Audit_Sharing\<close> (\<open>audit\<close>): decimal and hexadecimal numbers, lines
      and fields; the log file, appending, reopening and the verification of the chain; several
      loggers over one file.
    \<^item> \<open>Metrics\<close> (\<open>observability\<close>), \<open>Config\<close> (\<open>core/config\<close>), \<open>Logger\<close> (\<open>core/log\<close>).
    \<^item> \<open>Sdk\<close>, \<open>C_Api\<close>, \<open>Cli\<close> (\<open>sdk\<close>, \<open>cli\<close>): the client, the C functions, the commands.

  \<^bold>\<open>How the code is modelled.\<close> A class is a record, and an operation a function from the state to
  the result and the new state; a lock makes an operation atomic. Machine integers are words of
  the width in the source, and where a size is converted to \<open>int\<close> the conversion (\<open>c_int\<close>) is written out; text that the program handles as bytes is a list of 8-bit words, names
  that it only compares are strings. Errors are values of the result type. What comes from outside
  (clock, random numbers, the kernel's answers, OpenSSL, ZeroMQ, YAML, spdlog) is an argument; the
  hypotheses about it (\<open>ossl_ok\<close>: within the documented lengths decryption undoes encryption and
  keys and digests have their length) are named, and the witnesses give functions that satisfy them. A loop over
  the file is a function with its termination proof; waiting on a condition variable takes a list
  of what other threads do before each wake-up, and \<open>None\<close> is the call that never returns. Threads
  whose interleaving matters (\<open>Ring_Threads\<close>, \<open>Service_Loop\<close>, \<open>Node_Threads\<close>,
  \<open>Registry_Threads\<close>, \<open>Tcp_Threads\<close>, \<open>Executor\<close>) are step relations with reachability.
  The only fuel is the number of rounds of the network node's loop (\<open>net_rounds\<close>), one per
  waiting request.

  \<^bold>\<open>What is not modelled.\<close> Memory orders weaker than those the ring
  buffer asks for; the move members of most classes; log output except where it is the result; what
  the TLS library does inside a call; floating-point numbers (gauges are over any type with an addition); exceptions
  for lack of memory; the messages of the command line tool on the standard error; the benchmark
  and the tests.

  The two properties below run through four components: the advertiser's frame, sealed by one
  UDP socket and opened by another, ends up in the registry of the scanner, and nothing that the
  advertisers have not announced does. The second takes as hypothesis (\<open>unforged\<close>) that nobody
  else makes a valid MAC over new data.
\<close>

section \<open>An announcement on its way\<close>

text \<open>
  C11. Discovery works end to end: when the advertiser hands a datagram to the kernel and a scanner
  with the same keys that has not seen its nonce receives that datagram, the poll answers true and
  the scanner's registry then holds the announced node; receiving the datagram once more within the
  replay window changes nothing. This holds for announcements that fit the receive buffer.
\<close>

theorem announcement_arrives:
  assumes "ossl_ok os" "broadcast_frame os rs a = (Ok frame, rs')" "ad_sock a = Some out"
    and "broadcast_once os pton ret sent rs a = (res, Some d, a', rs')"
    and "small_payload (ad_payload a)" "ap_node_id (ad_payload a) \<noteq> []" "length frame + 28 \<le> kRecvBuf"
    and "mac_key_of (sn_psk s) = mac_key_of (ad_psk a)" "us_psk sock = us_psk out" "0 \<le> us_fd sock"
    and "sn_sock s = Some sock" "sn_registry s = Some reg" "kv_get (sn_seen_nonces s) (nonce_hex frame) = None"
    and "now \<le> later" "later - now \<le> sn_replay_window (sn_cfg s)"
  shows "\<exists>s' calls reg' s''. poll_once os Select_ready (Datagram d) now s = (Ok True, s', calls) \<and>
    sn_registry s' = Some reg' \<and> reg_get_node (ap_node_id (ad_payload a)) reg' = Ok (entry_of (ad_payload a)) \<and>
    poll_once os Select_ready (Datagram d) later s' = (Ok False, s'', []) \<and> sn_registry s'' = Some reg'"
proof -
  define ep where "ep = \<lparr>ep_address = ac_bind_address (ad_cfg a), ep_port = ac_broadcast_port (ad_cfg a), ep_is_broadcast = True\<rparr>"
  obtain out' where "udp_send os pton ret sent frame ep out = (res, Some d, out')"
    using assms(2-4) by (auto simp: broadcast_once_def Let_def ep_def split: prod.splits)
  then have recv: "udp_recv os Select_ready (Datagram d) 100 sock = Ok frame"
    using udp_roundtrip [OF assms(1) _ assms(9,10,7)] by blast
  obtain s' calls reg' s'' where h: "handle_frame os now frame s = (Ok True, s', calls)" "sn_registry s' = Some reg'"
    "reg_get_node (ap_node_id (ad_payload a)) reg' = Ok (entry_of (ad_payload a))"
    "handle_frame os later frame s' = (Ok False, s'', [])" "sn_registry s'' = Some reg'"
    using scanner_accepts_genuine [OF assms(1,2,5,6,8,12-15)] by blast
  have "sn_sock s' = Some sock" using handle_frame_sock [OF h(1)] assms(11) by simp
  with h recv assms(11) show ?thesis by (simp add: poll_once_def)
qed

lemma announcement_arrives_witness:
  "let a = sample_advertiser\<lparr>ad_sock := Some (udp_new\<lparr>us_fd := 3\<rparr>)\<rparr>; s = sample_scanner\<lparr>sn_sock := Some (udp_new\<lparr>us_fd := 4\<rparr>)\<rparr> in
   case broadcast_once sample_ossl (\<lambda>_. True) (Sent 0) (seconds 60) [Some (replicate 8 1)] a of
     (_, d, _, _) \<Rightarrow> d \<noteq> None \<and> fst (poll_once sample_ossl Select_ready (Datagram (the d)) 1 s) = Ok True"
proof -
  let ?a = "sample_advertiser\<lparr>ad_sock := Some (udp_new\<lparr>us_fd := 3\<rparr>)\<rparr>"
  let ?s = "sample_scanner\<lparr>sn_sock := Some (udp_new\<lparr>us_fd := 4\<rparr>)\<rparr>"
  have f: "broadcast_frame sample_ossl [Some (replicate 8 1)] ?a = (Ok sample_frame, [])"
    by code_simp
  have "case broadcast_once sample_ossl (\<lambda>_. True) (Sent 0) (seconds 60) [Some (replicate 8 1)] ?a of
      (_, d, _, rs) \<Rightarrow> d = Some sample_frame \<and> rs = []" by code_simp
  then obtain res a' where o: "broadcast_once sample_ossl (\<lambda>_. True) (Sent 0) (seconds 60) [Some (replicate 8 1)] ?a =
      (res, Some sample_frame, a', [])" by (auto split: prod.splits)
  have "length sample_frame + 28 \<le> kRecvBuf" by (simp add: kRecvBuf_def) code_simp
  then have "fst (poll_once sample_ossl Select_ready (Datagram sample_frame) 1 ?s) = Ok True"
    using announcement_arrives [OF sample_ossl_ok f _ o, of "udp_new\<lparr>us_fd := 3\<rparr>" ?s "udp_new\<lparr>us_fd := 4\<rparr>" registry_new 1 1]
    by (auto simp: sample_advertiser_def sample_scanner_def small_payload_def seconds_def udp_new_def)
  then show ?thesis unfolding Let_def o prod.case by simp
qed

section \<open>Nobody else is on the list\<close>

text \<open>
  C10. Discovery is sound against whoever is on the network: suppose no frame arrives with a valid
  MAC over data to which none of the advertisers \<open>A\<close> has put it. Then, whatever else is sent,
  repeated, delayed or left out, after any run of the scanner's loop the registry holds, beside what
  it held before, only nodes that an advertiser in \<open>A\<close> announces, with exactly the data announced.
\<close>

theorem discovery_sound:
  assumes "ossl_ok os" "sn_sock s = Some sock" "sn_registry s = Some r" "reg_ok r" "scanner_rounds os rounds s = (s', calls)"
    and small: "\<forall>a \<in> A. small_payload (ad_payload a)"
    and unforged: "\<forall>(t, f) \<in> set (received os sock rounds). authentic os (sn_psk s) f \<longrightarrow>
      (\<exists>a \<in> A. \<exists>rs g rs'. broadcast_frame os rs a = (Ok g, rs') \<and>
        slice 8 8 f @ drop kDiscoveryHeaderSize f = slice 8 8 g @ drop kDiscoveryHeaderSize g)"
  shows "\<exists>r'. sn_registry s' = Some r' \<and>
    ran (kv_get (reg_nodes r')) \<subseteq> ran (kv_get (reg_nodes r)) \<union> (entry_of \<circ> ad_payload) ` A"
proof -
  let ?acc = "map snd (scan_run os (received os sock rounds) s)"
  obtain r' where r': "sn_registry s' = Some r'" "list_all (authentic os (sn_psk s)) ?acc"
    "kv_get (reg_nodes r') = fold registers (map announced ?acc) (kv_get (reg_nodes r))"
    using scanner_rounds_spec [OF assms(1-5)] unfolding Let_def by blast
  have "announced f \<in> (entry_of \<circ> ad_payload) ` A" if f: "f \<in> set ?acc" for f
  proof -
    obtain t where "(t, f) \<in> set (scan_run os (received os sock rounds) s)" using f by auto
    then have t: "(t, f) \<in> set (received os sock rounds)" by (rule scan_run_received)
    have auth: "authentic os (sn_psk s) f" using r'(2) f unfolding list_all_iff by blast
    then obtain a rs g rs' where a: "a \<in> A" "broadcast_frame os rs a = (Ok g, rs')"
      "slice 8 8 f @ drop kDiscoveryHeaderSize f = slice 8 8 g @ drop kDiscoveryHeaderSize g"
      using bspec [OF unforged t] by auto
    obtain nonce mac where g: "length nonce = 8" "length mac = 32" "g = frame_prefix @ nonce @ mac @ serialize_payload (ad_payload a)"
      by (rule broadcast_frame_ok [OF a(2) assms(1)])
    note parts = frame_parts [OF g(1,2), of "serialize_payload (ad_payload a)", folded g(3)]
    have "48 \<le> length f" using auth by (simp add: authentic_def kDiscoveryHeaderSize_def)
    then have "length (slice 8 8 f) = length (slice 8 8 g)" using g(1) parts(1) by simp
    with a(3) have "drop kDiscoveryHeaderSize f = drop kDiscoveryHeaderSize g"
      using append_eq_append_conv [of "slice 8 8 f" "slice 8 8 g"] by blast
    then show ?thesis using parse_serialize small a(1) parts(3) by (simp add: announced_def)
  qed
  then have "ran (fold registers (map announced ?acc) m) \<subseteq> ran m \<union> (entry_of \<circ> ad_payload) ` A" for m
    using ran_fold_registers [of "map announced ?acc" m] unfolding set_map by blast
  with r'(1,3) show ?thesis by metis
qed

lemma discovery_sound_witness:
  "\<exists>r'. sn_registry (fst (scanner_rounds sample_ossl sample_rounds subscribed_scanner)) = Some r' \<and>
    ran (kv_get (reg_nodes r')) \<subseteq> {entry_of (ad_payload sample_advertiser)}"
proof -
  let ?r = "snd (subscribe (Some 0) registry_new) :: nat registry"
  have r: "reg_ok ?r" "reg_nodes ?r = []" by (simp_all add: subscribe_def registry_new_def reg_ok_def)
  have s: "sn_sock subscribed_scanner = Some (udp_new\<lparr>us_fd := 4\<rparr>)" "sn_registry subscribed_scanner = Some ?r"
    by (simp_all add: subscribed_scanner_def)
  obtain s' calls where run: "scanner_rounds sample_ossl sample_rounds subscribed_scanner = (s', calls)" by fastforce
  have "\<not> authentic sample_ossl (sn_psk subscribed_scanner) [1, 2, 3]" by (simp add: authentic_def kDiscoveryHeaderSize_def)
  moreover have "small_payload (ad_payload sample_advertiser)" by (simp add: sample_advertiser_def small_payload_def)
  ultimately show ?thesis
    using discovery_sound [OF sample_ossl_ok s r(1) run, of "{sample_advertiser}"] sample_frame_value
    by (auto simp: sample_received run r(2))
qed

end
